(* ===== verification/Go_Prelude.thy ===== *)
theory Go_Prelude
  imports Main "HOL-Library.Word" "HOL-Library.Char_ord" "HOL-Library.List_Lexorder"
begin

section \<open>Shared types, string functions and automation\<close>

text \<open>
  What every component of the development shares: the type of the outcome of a Go call,
  the machine integers, the functions of the Go standard library (packages
  \<^verbatim>\<open>strings\<close> and \<^verbatim>\<open>strconv\<close>) that the sources call, and the notion of a reachable
  state of a system of interleaved goroutines together with its invariant rule.

  A Go \<^verbatim>\<open>string\<close> and a \<^verbatim>\<open>[]byte\<close> are sequences of bytes, the type
  \<open>string\<close> (a list of 8-bit characters). A Go map is a partial function. A Go
  \<^verbatim>\<open>error\<close> is represented by its message.
\<close>

named_theorems go_simps \<open>evaluation equations of the string functions\<close>

type_synonym int64 = "64 word"
type_synonym uint64 = "64 word"
type_synonym uint32 = "32 word"
type_synonym goerror = string

text \<open>
  The outcome of a call: it returns a value, it panics, it ends the process
  (\<^verbatim>\<open>log.Fatal\<close>, which runs no deferred function), or it never returns.
\<close>

datatype 'a outcome = Ret 'a | Panic string | Exit string | Hang

fun bind_outcome :: "'a outcome \<Rightarrow> ('a \<Rightarrow> 'b outcome) \<Rightarrow> 'b outcome" where
  "bind_outcome (Ret x) f = f x"
| "bind_outcome (Panic m) f = Panic m"
| "bind_outcome (Exit m) f = Exit m"
| "bind_outcome Hang f = Hang"

lemma bind_outcome_Ret_iff:
  "bind_outcome m f = Ret y \<longleftrightarrow> (\<exists>x. m = Ret x \<and> f x = Ret y)"
  by (cases m) auto

lemma bind_outcome_assoc:
  "bind_outcome (bind_outcome m f) g = bind_outcome m (\<lambda>x. bind_outcome (f x) g)"
  by (cases m) auto

subsection \<open>Package strings\<close>

text \<open>\<^verbatim>\<open>strings.Join(xs, sep)\<close>\<close>

fun go_join :: "string \<Rightarrow> string list \<Rightarrow> string" where
  "go_join sep [] = []"
| "go_join sep [x] = x"
| "go_join sep (x # y # xs) = x @ sep @ go_join sep (y # xs)"

text \<open>\<^verbatim>\<open>strings.Split(s, sep)\<close> for a separator of one byte.\<close>

fun split_byte :: "char \<Rightarrow> string \<Rightarrow> string list" where
  "split_byte c [] = [[]]"
| "split_byte c (x # xs) =
     (if x = c then [] # split_byte c xs
      else (case split_byte c xs of [] \<Rightarrow> [[x]] | w # ws \<Rightarrow> (x # w) # ws))"

text \<open>\<^verbatim>\<open>strings.SplitN(s, sep, 2)\<close> for a separator of one byte.\<close>

definition splitN2 :: "char \<Rightarrow> string \<Rightarrow> string list" where
  "splitN2 c s =
     (if c \<in> set s then [takeWhile (\<lambda>x. x \<noteq> c) s, tl (dropWhile (\<lambda>x. x \<noteq> c) s)] else [s])"

text \<open>\<^verbatim>\<open>strings.HasPrefix(s, p)\<close>\<close>

definition hasPrefix :: "string \<Rightarrow> string \<Rightarrow> bool" where
  "hasPrefix s p \<longleftrightarrow> take (length p) s = p"

text \<open>
  \<^verbatim>\<open>strings.LastIndex(s, sep)\<close> for a separator of one byte; \<open>None\<close> is the result
  \<^verbatim>\<open>-1\<close>.
\<close>

fun lastIndex :: "char \<Rightarrow> string \<Rightarrow> nat option" where
  "lastIndex c [] = None"
| "lastIndex c (x # xs) =
     (case lastIndex c xs of Some i \<Rightarrow> Some (Suc i) | None \<Rightarrow> if x = c then Some 0 else None)"

text \<open>\<^verbatim>\<open>strings.TrimSpace(s)\<close> on ASCII strings: tab, LF, VT, FF, CR and space.\<close>

definition is_space :: "char \<Rightarrow> bool" where
  "is_space c \<longleftrightarrow> c \<in> {CHR 0x09, CHR 0x0A, CHR 0x0B, CHR 0x0C, CHR 0x0D, CHR 0x20}"

definition trimSpace :: "string \<Rightarrow> string" where
  "trimSpace s = rev (dropWhile is_space (rev (dropWhile is_space s)))"

text \<open>\<^verbatim>\<open>ast.IsExported\<close> and \<^verbatim>\<open>token.IsExported\<close> on ASCII names.\<close>

definition IsExported :: "string \<Rightarrow> bool" where
  "IsExported name = (case name of [] \<Rightarrow> False | c # _ \<Rightarrow> CHR ''A'' \<le> c \<and> c \<le> CHR ''Z'')"

subsection \<open>Package strconv\<close>

definition digit_char :: "nat \<Rightarrow> char" where
  "digit_char d = char_of (48 + d)"

fun itoa_nat :: "nat \<Rightarrow> string" where
  "itoa_nat n = (if n < 10 then [digit_char n] else itoa_nat (n div 10) @ [digit_char (n mod 10)])"

declare itoa_nat.simps [simp del]

text \<open>\<^verbatim>\<open>strconv.Itoa(i)\<close>\<close>

definition itoa :: "int \<Rightarrow> string" where
  "itoa i = (if i < 0 then CHR ''-'' # itoa_nat (nat (- i)) else itoa_nat (nat i))"

lemma itoa_nat_nonempty: "itoa_nat n \<noteq> []"
  by (subst itoa_nat.simps) simp

subsection \<open>Laws of the string functions\<close>

lemma split_byte_nonempty [simp]: "split_byte c s \<noteq> []"
  by (induction s) (auto split: list.splits)

lemma split_byte_no_sep: "c \<notin> set s \<Longrightarrow> split_byte c s = [s]"
  by (induction s) auto

lemma split_byte_append:
  "c \<notin> set w \<Longrightarrow> split_byte c (w @ c # s) = w # split_byte c s"
  by (induction w) auto

lemma split_byte_parts: "w \<in> set (split_byte c s) \<Longrightarrow> c \<notin> set w"
  by (induction s arbitrary: w) (auto split: list.splits if_splits)

lemma join_Cons: "ws \<noteq> [] \<Longrightarrow> go_join sep (w # ws) = w @ sep @ go_join sep ws"
  by (cases ws) auto

lemma join_Cons_if: "go_join sep (w # ws) = w @ (if ws = [] then [] else sep @ go_join sep ws)"
  by (cases ws) auto

lemma join_split: "go_join [c] (split_byte c s) = s"
proof (induction s)
  case Nil
  then show ?case by simp
next
  case (Cons x s)
  obtain w ws where split: "split_byte c s = w # ws"
    by (meson list.exhaust split_byte_nonempty)
  with Cons show ?case by (cases ws) auto
qed

lemma split_join:
  assumes "ws \<noteq> []" and "\<And>w. w \<in> set ws \<Longrightarrow> c \<notin> set w"
  shows "split_byte c (go_join [c] ws) = ws"
  using assms
proof (induction ws)
  case Nil
  then show ?case by simp
next
  case (Cons w ws)
  then show ?case
    by (cases "ws = []") (simp_all add: split_byte_no_sep join_Cons split_byte_append)
qed

lemma split_byte_pair_iff:
  "split_byte c s = [a, b] \<longleftrightarrow> s = a @ c # b \<and> c \<notin> set a \<and> c \<notin> set b"
proof
  assume split: "split_byte c s = [a, b]"
  then have "c \<notin> set a" "c \<notin> set b"
    using split_byte_parts [of a c s] split_byte_parts [of b c s] by auto
  moreover have "s = a @ c # b"
    using join_split [of c s] split by simp
  ultimately show "s = a @ c # b \<and> c \<notin> set a \<and> c \<notin> set b" by simp
next
  assume "s = a @ c # b \<and> c \<notin> set a \<and> c \<notin> set b"
  then show "split_byte c s = [a, b]"
    by (simp add: split_byte_append split_byte_no_sep)
qed

lemma splitN2_first:
  "c \<notin> set a \<Longrightarrow> splitN2 c (a @ c # b) = [a, b]"
  by (simp add: splitN2_def takeWhile_append dropWhile_append)

lemma hasPrefix_append [simp]: "hasPrefix (p @ s) p"
  by (simp add: hasPrefix_def)

lemma hasPrefix_iff: "hasPrefix s p \<longleftrightarrow> (\<exists>r. s = p @ r)"
  by (metis append_eq_conv_conj append_take_drop_id hasPrefix_def)

lemma lastIndex_None: "lastIndex c s = None \<longleftrightarrow> c \<notin> set s"
  by (induction s) (auto split: option.splits)

lemma lastIndex_append:
  "c \<notin> set b \<Longrightarrow> lastIndex c (a @ c # b) = Some (length a)"
  by (induction a) (auto simp: lastIndex_None split: option.splits)

lemma trimSpace_id:
  assumes "\<And>c. c \<in> set s \<Longrightarrow> \<not> is_space c"
  shows "trimSpace s = s"
proof -
  have drop: "dropWhile is_space xs = xs" if "set xs \<subseteq> set s" for xs
    using that assms by (cases xs) auto
  show ?thesis by (simp add: trimSpace_def drop)
qed

subsection \<open>Stateful code\<close>

text \<open>
  A function that reads and writes a state is a function from the state to its outcome and
  the state it leaves. A deferred function runs when the body returns or panics, not when the
  process ends.
\<close>

type_synonym ('s, 'a) stm = "'s \<Rightarrow> 'a outcome \<times> 's"

definition stm_ret :: "'a \<Rightarrow> ('s, 'a) stm" where
  "stm_ret x s = (Ret x, s)"

definition stm_bind :: "('s, 'a) stm \<Rightarrow> ('a \<Rightarrow> ('s, 'b) stm) \<Rightarrow> ('s, 'b) stm" where
  "stm_bind m f s =
     (case m s of
        (Ret x, s1) \<Rightarrow> f x s1
      | (Panic e, s1) \<Rightarrow> (Panic e, s1)
      | (Exit e, s1) \<Rightarrow> (Exit e, s1)
      | (Hang, s1) \<Rightarrow> (Hang, s1))"

definition stm_lift :: "'a outcome \<Rightarrow> ('s, 'a) stm" where
  "stm_lift out s = (out, s)"

definition stm_get :: "('s \<Rightarrow> 'a) \<Rightarrow> ('s, 'a) stm" where
  "stm_get f s = (Ret (f s), s)"

definition stm_modify :: "('s \<Rightarrow> 's) \<Rightarrow> ('s, unit) stm" where
  "stm_modify f s = (Ret (), f s)"

definition stm_defer :: "('s \<Rightarrow> 's) \<Rightarrow> ('s, 'a) stm \<Rightarrow> ('s, 'a) stm" where
  "stm_defer f m s =
     (case m s of
        (Ret x, s1) \<Rightarrow> (Ret x, f s1)
      | (Panic e, s1) \<Rightarrow> (Panic e, f s1)
      | (Exit e, s1) \<Rightarrow> (Exit e, s1)
      | (Hang, s1) \<Rightarrow> (Hang, s1))"

named_theorems stm_simps \<open>execution of stateful code\<close>

lemma stm_basic [stm_simps]:
  "stm_ret x s = (Ret x, s)" "stm_lift out s = (out, s)" "stm_get g s = (Ret (g s), s)"
  "stm_modify h s = (Ret (), h s)"
  by (simp_all add: stm_ret_def stm_lift_def stm_get_def stm_modify_def)

lemma stm_bind_run [stm_simps]:
  "m s = (Ret x, s1) \<Longrightarrow> stm_bind m f s = f x s1"
  "m s = (Panic e, s1) \<Longrightarrow> stm_bind m f s = (Panic e, s1)"
  "m s = (Exit e, s1) \<Longrightarrow> stm_bind m f s = (Exit e, s1)"
  "m s = (Hang, s1) \<Longrightarrow> stm_bind m f s = (Hang, s1)"
  by (simp_all add: stm_bind_def)

lemma stm_bind_Ret_iff:
  "stm_bind m f s = (Ret y, t) \<longleftrightarrow> (\<exists>x s1. m s = (Ret x, s1) \<and> f x s1 = (Ret y, t))"
  by (auto simp: stm_bind_def split: prod.splits outcome.splits)

lemma stm_bind_ret [simp]: "stm_bind (stm_ret x) f = f x"
  by (simp add: fun_eq_iff stm_bind_def stm_ret_def)

lemma stm_bind_lift_Ret [simp]: "stm_bind (stm_lift (Ret x)) f = f x"
  by (simp add: fun_eq_iff stm_bind_def stm_lift_def)

lemma stm_bind_lift_Panic [simp]: "stm_bind (stm_lift (Panic e)) f = stm_lift (Panic e)"
  by (simp add: fun_eq_iff stm_bind_def stm_lift_def)

lemma stm_bind_assoc: "stm_bind (stm_bind m f) g = stm_bind m (\<lambda>x. stm_bind (f x) g)"
  by (auto simp: fun_eq_iff stm_bind_def split: prod.splits outcome.splits)

subsection \<open>Lists\<close>

lemma find_append:
  "find P (xs @ ys) = (case find P xs of None \<Rightarrow> find P ys | Some x \<Rightarrow> Some x)"
  by (induction xs) auto

subsection \<open>Reachable states of interleaved goroutines\<close>

text \<open>
  A concurrent component is a predicate for its initial states and a step relation; the
  states its interleavings reach are the least set closed under both.
\<close>

inductive reach :: "('s \<Rightarrow> bool) \<Rightarrow> ('s \<Rightarrow> 's \<Rightarrow> bool) \<Rightarrow> 's \<Rightarrow> bool"
  for init :: "'s \<Rightarrow> bool" and step :: "'s \<Rightarrow> 's \<Rightarrow> bool" where
  reach_init: "init s \<Longrightarrow> reach init step s"
| reach_step: "reach init step s \<Longrightarrow> step s t \<Longrightarrow> reach init step t"

text \<open>
  The contract a component discharges to have an invariant of all its interleavings: it
  holds initially and each step keeps it.
\<close>

locale inductive_invariant =
  fixes init :: "'s \<Rightarrow> bool"
    and step :: "'s \<Rightarrow> 's \<Rightarrow> bool"
    and inv :: "'s \<Rightarrow> bool"
  assumes inv_init: "init s \<Longrightarrow> inv s"
    and inv_step: "inv s \<Longrightarrow> step s t \<Longrightarrow> inv t"
begin

lemma inv_reach: "reach init step s \<Longrightarrow> inv s"
  by (induction rule: reach.induct) (auto intro: inv_init inv_step)

lemma inv_steps: "step\<^sup>*\<^sup>* s t \<Longrightarrow> inv s \<Longrightarrow> inv t"
  by (induction rule: rtranclp_induct) (auto intro: inv_step)

lemma reach_steps: "reach init step s \<Longrightarrow> step\<^sup>*\<^sup>* s t \<Longrightarrow> reach init step t"
  by (rotate_tac, induction rule: rtranclp_induct) (auto intro: reach_step)

end

text \<open>
  The contract of a system that contains a component: what the system does to the component's
  part of the state are steps of the component, or nothing.
\<close>

locale contains_component =
  fixes init :: "'s \<Rightarrow> bool"
    and step :: "'s \<Rightarrow> 's \<Rightarrow> bool"
    and part :: "'s \<Rightarrow> 'c"
    and part_init :: "'c \<Rightarrow> bool"
    and part_step :: "'c \<Rightarrow> 'c \<Rightarrow> bool"
  assumes starts_as_part: "init s \<Longrightarrow> part_init (part s)"
    and steps_as_part: "step s t \<Longrightarrow> part t = part s \<or> part_step (part s) (part t)"
begin

lemma part_reach: "reach init step s \<Longrightarrow> reach part_init part_step (part s)"
proof (induction rule: reach.induct)
  case (reach_init s)
  then show ?case by (intro reach.reach_init starts_as_part)
next
  case (reach_step s t)
  then show ?case using steps_as_part [of s t] by (auto intro: reach.reach_step)
qed

end

end
