(* ===== verification/LRU_Cache.thy ===== *)
theory LRU_Cache
  imports Go_Prelude "HOL-Library.Multiset"
begin

section \<open>Package lru: the least-recently-used cache\<close>

text \<open>
  \<^verbatim>\<open>CCache/lru/lru.go\<close>. A \<open>lru\<close> record is the struct \<^verbatim>\<open>Cache\<close>: a Go map from keys
  to the nodes of a doubly linked list, and the list itself. A node is an address of type
  \<open>elem\<close>; \<open>elems\<close> is the heap that gives the \<^verbatim>\<open>*entry\<close> a node points to, and
  \<open>next_elem\<close> the next address \<^verbatim>\<open>PushFront\<close> allocates. The linked list is the
  list of its nodes, front first (package \<^verbatim>\<open>container/list\<close>).
  \<^verbatim>\<open>usedBytes\<close> and \<^verbatim>\<open>maxBytes\<close> are 64-bit words that wrap around, compared as signed
  numbers. The interface method \<^verbatim>\<open>Value.Len\<close> is the argument \<open>vlen\<close> of the
  operations; the eviction callback changes a state of the caller, of type \<open>'w\<close>.

  The specification is a list of key-value pairs, most recently used first
  (\<open>lru_abs\<close>), with operations \<open>spec_touch\<close>, \<open>spec_put\<close> and \<open>spec_evict\<close> on it;
  the lemmas of the section on refinement show that the pointer structure implements it.
\<close>

subsection \<open>State\<close>

type_synonym elem = nat

record 'v entry =
  entry_key :: string
  entry_value :: 'v

record ('v, 'w) lru =
  usedBytes :: int64
  maxBytes :: int64
  lru_cache :: "string \<rightharpoonup> elem"
  linkedList :: "elem list"
  elems :: "elem \<Rightarrow> 'v entry"
  next_elem :: elem
  onEvicted :: "(string \<Rightarrow> 'v \<Rightarrow> 'w \<Rightarrow> 'w) option"

subsection \<open>Package container/list\<close>

definition list_MoveToFront :: "elem \<Rightarrow> elem list \<Rightarrow> elem list" where
  "list_MoveToFront e xs = (if e \<in> set xs then e # remove1 e xs else xs)"

definition list_Back :: "elem list \<Rightarrow> elem option" where
  "list_Back xs = (if xs = [] then None else Some (last xs))"

definition list_Remove :: "elem \<Rightarrow> elem list \<Rightarrow> elem list" where
  "list_Remove e xs = remove1 e xs"

subsection \<open>Operations\<close>

definition lru_New :: "int64 \<Rightarrow> (string \<Rightarrow> 'v \<Rightarrow> 'w \<Rightarrow> 'w) option \<Rightarrow> ('v, 'w) lru" where
  "lru_New maxb evicted =
     \<lparr>usedBytes = 0, maxBytes = maxb, lru_cache = Map.empty, linkedList = [],
      elems = undefined, next_elem = 0, onEvicted = evicted\<rparr>"

definition lru_Get :: "string \<Rightarrow> ('v, 'w) lru \<Rightarrow> 'v option \<times> ('v, 'w) lru" where
  "lru_Get key c =
     (case lru_cache c key of
        Some ele \<Rightarrow>
          (let c1 = c\<lparr>linkedList := list_MoveToFront ele (linkedList c)\<rparr>
           in (Some (entry_value (elems c1 ele)), c1))
      | None \<Rightarrow> (None, c))"

definition lru_RemoveOldest ::
  "('v \<Rightarrow> int64) \<Rightarrow> ('v, 'w) lru \<Rightarrow> 'w \<Rightarrow> ('v, 'w) lru \<times> 'w" where
  "lru_RemoveOldest vlen c w =
     (case list_Back (linkedList c) of
        None \<Rightarrow> (c, w)
      | Some ele \<Rightarrow>
          (let c1 = c\<lparr>linkedList := list_Remove ele (linkedList c)\<rparr>;
               kv = elems c1 ele;
               c2 = c1\<lparr>lru_cache := (lru_cache c1)(entry_key kv := None)\<rparr>;
               c3 = c2\<lparr>usedBytes := usedBytes c2
                        - (of_nat (length (entry_key kv)) + vlen (entry_value kv))\<rparr>
           in (c3, case onEvicted c3 of
                     None \<Rightarrow> w
                   | Some f \<Rightarrow> f (entry_key kv) (entry_value kv) w)))"

text \<open>The first half of \<^verbatim>\<open>Add\<close>: insert or update, before the eviction loop.\<close>

definition lru_put :: "('v \<Rightarrow> int64) \<Rightarrow> string \<Rightarrow> 'v \<Rightarrow> ('v, 'w) lru \<Rightarrow> ('v, 'w) lru" where
  "lru_put vlen key val c =
     (case lru_cache c key of
        None \<Rightarrow>
          (let ele = next_elem c
           in c\<lparr>linkedList := ele # linkedList c,
                elems := (elems c)(ele := \<lparr>entry_key = key, entry_value = val\<rparr>),
                next_elem := Suc ele,
                usedBytes := usedBytes c + (of_nat (length key) + vlen val),
                lru_cache := (lru_cache c)(key \<mapsto> ele)\<rparr>)
      | Some ele \<Rightarrow>
          (let c1 = c\<lparr>linkedList := list_MoveToFront ele (linkedList c)\<rparr>;
               kv = elems c1 ele
           in c1\<lparr>usedBytes := usedBytes c1 + (vlen val - vlen (entry_value kv)),
                 elems := (elems c1)(ele := kv\<lparr>entry_value := val\<rparr>)\<rparr>))"

definition over_limit :: "int64 \<Rightarrow> int64 \<Rightarrow> bool" where
  "over_limit maxb used \<longleftrightarrow> maxb \<noteq> 0 \<and> sint used > sint maxb"

text \<open>
  The loop of \<^verbatim>\<open>Add\<close>. \<open>None\<close> is a loop that never ends: \<^verbatim>\<open>RemoveOldest\<close> does
  nothing on an empty list, so the guard may stay true.
\<close>

partial_function (option) lru_evict ::
  "('v \<Rightarrow> int64) \<Rightarrow> ('v, 'w) lru \<Rightarrow> 'w \<Rightarrow> (('v, 'w) lru \<times> 'w) option" where
  "lru_evict vlen c w =
     (if over_limit (maxBytes c) (usedBytes c)
      then lru_evict vlen (fst (lru_RemoveOldest vlen c w)) (snd (lru_RemoveOldest vlen c w))
      else Some (c, w))"

definition lru_Add ::
  "('v \<Rightarrow> int64) \<Rightarrow> string \<Rightarrow> 'v \<Rightarrow> ('v, 'w) lru \<Rightarrow> 'w \<Rightarrow> (('v, 'w) lru \<times> 'w) option" where
  "lru_Add vlen key val c w = lru_evict vlen (lru_put vlen key val c) w"

definition lru_Len :: "('v, 'w) lru \<Rightarrow> nat" where
  "lru_Len c = length (linkedList c)"

subsection \<open>Specification: a list of pairs, most recently used first\<close>

type_synonym 'v pairs = "(string \<times> 'v) list"

definition pair_bytes :: "('v \<Rightarrow> int64) \<Rightarrow> string \<times> 'v \<Rightarrow> int64" where
  "pair_bytes vlen p = of_nat (length (fst p)) + vlen (snd p)"

definition pairs_bytes :: "('v \<Rightarrow> int64) \<Rightarrow> 'v pairs \<Rightarrow> int64" where
  "pairs_bytes vlen ps = sum_list (map (pair_bytes vlen) ps)"

definition spec_touch :: "string \<Rightarrow> 'v pairs \<Rightarrow> 'v pairs" where
  "spec_touch key ps =
     (case map_of ps key of None \<Rightarrow> ps | Some v \<Rightarrow> (key, v) # filter (\<lambda>p. fst p \<noteq> key) ps)"

definition spec_put :: "string \<Rightarrow> 'v \<Rightarrow> 'v pairs \<Rightarrow> 'v pairs" where
  "spec_put key val ps = (key, val) # filter (\<lambda>p. fst p \<noteq> key) ps"

text \<open>
  Eviction keeps the longest prefix that is within the limit; the second component lists
  what it drops, in the order in which it drops it (oldest first).
\<close>

fun spec_evict :: "('v \<Rightarrow> int64) \<Rightarrow> int64 \<Rightarrow> 'v pairs \<Rightarrow> 'v pairs \<times> 'v pairs" where
  "spec_evict vlen maxb ps =
     (if ps \<noteq> [] \<and> over_limit maxb (pairs_bytes vlen ps)
      then (let (kept, dropped) = spec_evict vlen maxb (butlast ps) in (kept, last ps # dropped))
      else (ps, []))"

declare spec_evict.simps [simp del]

definition notify :: "(string \<Rightarrow> 'v \<Rightarrow> 'w \<Rightarrow> 'w) option \<Rightarrow> 'v pairs \<Rightarrow> 'w \<Rightarrow> 'w" where
  "notify evicted ps w =
     (case evicted of None \<Rightarrow> w | Some f \<Rightarrow> fold (\<lambda>(k, v). f k v) ps w)"

subsection \<open>Abstraction and well-formedness\<close>

definition node_pair :: "('v, 'w) lru \<Rightarrow> elem \<Rightarrow> string \<times> 'v" where
  "node_pair c e = (entry_key (elems c e), entry_value (elems c e))"

definition lru_abs :: "('v, 'w) lru \<Rightarrow> 'v pairs" where
  "lru_abs c = map (node_pair c) (linkedList c)"

lemma node_pair_frame [simp]:
  "node_pair (c\<lparr>linkedList := l\<rparr>) = node_pair c"
  "node_pair (c\<lparr>lru_cache := m\<rparr>) = node_pair c"
  "node_pair (c\<lparr>usedBytes := u\<rparr>) = node_pair c"
  by (simp_all add: node_pair_def fun_eq_iff)

text \<open>
  The nodes are distinct and allocated, the map holds exactly the nodes of the list under
  their keys, and the byte count is the sum over the entries (modulo \<open>2 ^ 64\<close>).
\<close>

definition lru_wf :: "('v \<Rightarrow> int64) \<Rightarrow> ('v, 'w) lru \<Rightarrow> bool" where
  "lru_wf vlen c \<longleftrightarrow>
     distinct (linkedList c) \<and>
     (\<forall>e \<in> set (linkedList c). e < next_elem c) \<and>
     (\<forall>k e. lru_cache c k = Some e \<longleftrightarrow> e \<in> set (linkedList c) \<and> entry_key (elems c e) = k) \<and>
     usedBytes c = pairs_bytes vlen (lru_abs c)"
subsection \<open>Laws of the specification\<close>

lemma pairs_bytes_simps [simp]:
  "pairs_bytes vlen [] = 0"
  "pairs_bytes vlen (p # ps) = pair_bytes vlen p + pairs_bytes vlen ps"
  "pairs_bytes vlen (ps @ qs) = pairs_bytes vlen ps + pairs_bytes vlen qs"
  by (simp_all add: pairs_bytes_def)

lemma pairs_bytes_remove_key:
  assumes "distinct (map fst ps)" and "(k, v) \<in> set ps"
  shows "pairs_bytes vlen ps
    = pair_bytes vlen (k, v) + pairs_bytes vlen (filter (\<lambda>p. fst p \<noteq> k) ps)"
  using assms
proof (induction ps)
  case Nil
  then show ?case by simp
next
  case (Cons p ps)
  have rest: "filter (\<lambda>q. fst q \<noteq> fst p) ps = ps"
    using Cons.prems(1) by (intro filter_True ballI) (metis distinct.simps(2) image_eqI list.simps(9) set_map)
  show ?case
  proof (cases "fst p = k")
    case True
    with Cons.prems have "p = (k, v)"
      by (metis distinct.simps(2) fst_conv image_eqI list.simps(9) set_ConsD set_map)
    with rest True show ?thesis by simp
  next
    case False
    with Cons show ?thesis by (auto simp: add.left_commute)
  qed
qed

lemma spec_evict_small:
  "\<not> over_limit maxb (pairs_bytes vlen ps) \<Longrightarrow> spec_evict vlen maxb ps = (ps, [])"
  by (simp add: spec_evict.simps)

lemma spec_evict_Nil [simp]: "spec_evict vlen maxb [] = ([], [])"
  by (simp add: spec_evict.simps)

lemma spec_evict_snoc:
  "over_limit maxb (pairs_bytes vlen (ps @ [p])) \<Longrightarrow>
   spec_evict vlen maxb (ps @ [p])
     = (fst (spec_evict vlen maxb ps), p # snd (spec_evict vlen maxb ps))"
  by (subst spec_evict.simps) (simp add: case_prod_unfold Let_def)

text \<open>Nothing is lost or reordered: what is kept and what is dropped make up the list.\<close>

lemma spec_evict_append:
  "fst (spec_evict vlen maxb ps) @ rev (snd (spec_evict vlen maxb ps)) = ps"
proof (induction ps rule: rev_induct)
  case Nil
  then show ?case by simp
next
  case (snoc p ps)
  then show ?case
    by (cases "over_limit maxb (pairs_bytes vlen (ps @ [p]))")
      (simp_all add: spec_evict_snoc spec_evict_small del: append_assoc
        add: append_assoc [symmetric])
qed

lemma spec_evict_fits:
  "fst (spec_evict vlen maxb ps) \<noteq> [] \<Longrightarrow>
   \<not> over_limit maxb (pairs_bytes vlen (fst (spec_evict vlen maxb ps)))"
proof (induction ps rule: rev_induct)
  case Nil
  then show ?case by simp
next
  case (snoc p ps)
  then show ?case
    by (cases "over_limit maxb (pairs_bytes vlen (ps @ [p]))")
      (simp_all add: spec_evict_snoc spec_evict_small)
qed

text \<open>Each drop was needed: every longer prefix of the list is over the limit.\<close>

lemma spec_evict_maximal:
  assumes "ps = qs @ rs" and "length (fst (spec_evict vlen maxb ps)) < length qs"
  shows "over_limit maxb (pairs_bytes vlen qs)"
  using assms
proof (induction ps arbitrary: rs rule: rev_induct)
  case Nil
  then show ?case by simp
next
  case (snoc p ps)
  show ?case
  proof (cases "over_limit maxb (pairs_bytes vlen (ps @ [p]))")
    case True
    show ?thesis
    proof (cases rs rule: rev_cases)
      case Nil
      with snoc.prems True show ?thesis by simp
    next
      case (snoc rs' r)
      with snoc.prems(1) have ps: "ps = qs @ rs'" by simp
      from snoc.prems(2) True have "length (fst (spec_evict vlen maxb ps)) < length qs"
        by (simp only: spec_evict_snoc fst_conv)
      with ps show ?thesis by (rule snoc.IH)
    qed
  next
    case False
    with snoc.prems show ?thesis by (simp add: spec_evict_small)
  qed
qed

subsection \<open>The pointer structure refines the specification\<close>

named_theorems lru_defs \<open>definitions of the operations of the cache\<close>

lemmas [lru_defs] = lru_abs_def node_pair_def list_MoveToFront_def list_Back_def list_Remove_def

lemma lru_wf_D:
  assumes "lru_wf vlen c"
  shows "distinct (linkedList c)"
    and "\<And>e. e \<in> set (linkedList c) \<Longrightarrow> e < next_elem c"
    and "\<And>k e. lru_cache c k = Some e \<longleftrightarrow> e \<in> set (linkedList c) \<and> entry_key (elems c e) = k"
    and "usedBytes c = pairs_bytes vlen (lru_abs c)"
  using assms unfolding lru_wf_def by blast+

lemma lru_wf_inj:
  assumes "lru_wf vlen c" "e \<in> set (linkedList c)" "e' \<in> set (linkedList c)"
    and "entry_key (elems c e) = entry_key (elems c e')"
  shows "e = e'"
  using assms by (metis lru_wf_D(3) option.inject)

lemma lru_wf_keys: "lru_wf vlen c \<Longrightarrow> distinct (map fst (lru_abs c))"
  by (auto simp: lru_abs_def node_pair_def distinct_map inj_on_def lru_wf_D(1)
    intro: lru_wf_inj)

lemma lru_map_of:
  assumes "lru_wf vlen c"
  shows "map_of (lru_abs c) k = map_option (\<lambda>e. entry_value (elems c e)) (lru_cache c k)"
proof (cases "lru_cache c k")
  case None
  with assms have "k \<notin> fst ` set (lru_abs c)"
    by (auto simp: lru_abs_def node_pair_def) (metis lru_wf_D(3) option.distinct(1))
  with None show ?thesis by (simp add: map_of_eq_None_iff)
next
  case (Some e)
  with assms have "(k, entry_value (elems c e)) \<in> set (lru_abs c)"
    by (auto simp: lru_abs_def node_pair_def image_iff) (metis lru_wf_D(3))
  with Some assms show ?thesis by (simp add: lru_wf_keys)
qed

lemma lru_abs_without:
  assumes "lru_wf vlen c" "lru_cache c k = Some e"
  shows "map (node_pair c) (remove1 e (linkedList c)) = filter (\<lambda>p. fst p \<noteq> k) (lru_abs c)"
proof -
  have "remove1 e (linkedList c) = filter (\<lambda>x. x \<noteq> e) (linkedList c)"
    using assms(1) by (simp add: distinct_remove1_removeAll lru_wf_D(1) removeAll_filter_not_eq
      eq_commute)
  also have "\<dots> = filter (\<lambda>x. entry_key (elems c x) \<noteq> k) (linkedList c)"
    using assms by (intro filter_cong) (auto simp: lru_wf_D(3) intro: lru_wf_inj)
  finally show ?thesis
    by (simp add: lru_abs_def node_pair_def filter_map comp_def)
qed

lemma lru_New_wf: "lru_wf vlen (lru_New maxb f)" "lru_abs (lru_New maxb f) = []"
  by (simp_all add: lru_wf_def lru_New_def lru_abs_def)
lemma lru_New_maxBytes [simp]: "maxBytes (lru_New maxb f) = maxb"
  by (simp add: lru_New_def)

lemma lru_Get_refines:
  assumes "lru_wf vlen c"
  shows "fst (lru_Get k c) = map_of (lru_abs c) k"
    and "lru_abs (snd (lru_Get k c)) = spec_touch k (lru_abs c)"
    and "lru_wf vlen (snd (lru_Get k c))"
proof -
  show "fst (lru_Get k c) = map_of (lru_abs c) k"
    by (simp add: lru_map_of [OF assms] lru_Get_def Let_def split: option.split)
  show abs: "lru_abs (snd (lru_Get k c)) = spec_touch k (lru_abs c)"
  proof (cases "lru_cache c k")
    case None
    then show ?thesis by (simp add: lru_Get_def spec_touch_def lru_map_of [OF assms])
  next
    case (Some e)
    with assms have "e \<in> set (linkedList c)" "entry_key (elems c e) = k"
      by (simp_all add: lru_wf_D(3))
    with Some lru_abs_without [OF assms Some] lru_map_of [OF assms, of k] show ?thesis
      by (simp add: lru_Get_def spec_touch_def Let_def list_MoveToFront_def lru_abs_def)
        (simp add: node_pair_def)
  qed
  show "lru_wf vlen (snd (lru_Get k c))"
  proof (cases "lru_cache c k")
    case None
    with assms show ?thesis by (simp add: lru_Get_def)
  next
    case (Some e)
    let ?c = "snd (lru_Get k c)"
    from Some assms have e: "e \<in> set (linkedList c)" by (simp add: lru_wf_D(3))
    then have "mset (linkedList ?c) = mset (linkedList c)"
      by (simp add: lru_Get_def Some Let_def list_MoveToFront_def)
    then have perm: "mset (lru_abs ?c) = mset (lru_abs c)"
      by (simp add: lru_abs_def lru_Get_def Some Let_def node_pair_def)
    have "pairs_bytes vlen (lru_abs ?c) = pairs_bytes vlen (lru_abs c)"
      unfolding pairs_bytes_def by (metis perm mset_map sum_mset_sum_list)
    moreover have "usedBytes ?c = usedBytes c"
      by (simp add: lru_Get_def Some Let_def)
    moreover have "distinct (linkedList ?c)" "set (linkedList ?c) = set (linkedList c)"
      using e assms by (auto simp: lru_Get_def Some Let_def list_MoveToFront_def
        lru_wf_D(1) notin_set_remove1)
    ultimately show ?thesis
      using assms unfolding lru_wf_def by (simp add: lru_Get_def Some Let_def)
  qed
qed

lemma lru_RemoveOldest_Nil:
  "linkedList c = [] \<Longrightarrow> lru_RemoveOldest vlen c w = (c, w)"
  by (simp add: lru_RemoveOldest_def list_Back_def)

lemma lru_RemoveOldest_refines:
  assumes wf: "lru_wf vlen c" and ne: "linkedList c \<noteq> []"
  defines "p \<equiv> last (lru_abs c)"
  shows "lru_abs (fst (lru_RemoveOldest vlen c w)) = butlast (lru_abs c)"
    and "lru_wf vlen (fst (lru_RemoveOldest vlen c w))"
    and "snd (lru_RemoveOldest vlen c w) = notify (onEvicted c) [p] w"
    and "maxBytes (fst (lru_RemoveOldest vlen c w)) = maxBytes c"
    and "onEvicted (fst (lru_RemoveOldest vlen c w)) = onEvicted c"
proof -
  obtain es e where list: "linkedList c = es @ [e]"
    using ne by (cases "linkedList c" rule: rev_cases) auto
  have e_notin: "e \<notin> set es" and dist: "distinct es"
    using lru_wf_D(1) [OF wf] by (simp_all add: list)
  let ?c = "fst (lru_RemoveOldest vlen c w)"
  have p: "p = node_pair c e" by (simp add: p_def lru_abs_def list)
  have c: "?c = c\<lparr>linkedList := es, lru_cache := (lru_cache c)(fst p := None),
      usedBytes := usedBytes c - pair_bytes vlen p\<rparr>"
    using e_notin by (simp add: lru_RemoveOldest_def list list_Back_def list_Remove_def Let_def
      remove1_append p node_pair_def pair_bytes_def)
  have other: "entry_key (elems c x) \<noteq> fst p" if "x \<in> set es" for x
    using that e_notin lru_wf_inj [OF wf, of x e] by (auto simp: p node_pair_def list)
  show abs: "lru_abs ?c = butlast (lru_abs c)"
    by (simp add: c lru_abs_def list node_pair_def)
  show "lru_wf vlen ?c"
    unfolding lru_wf_def
  proof (intro conjI allI)
    show "distinct (linkedList ?c)" by (simp add: c dist)
    show "\<forall>x \<in> set (linkedList ?c). x < next_elem ?c"
      using lru_wf_D(2) [OF wf] by (simp add: c list)
    show "lru_cache ?c k = Some x \<longleftrightarrow> x \<in> set (linkedList ?c) \<and> entry_key (elems ?c x) = k" for k x
      using other e_notin lru_wf_D(3) [OF wf, of k x] by (auto simp: c list p node_pair_def)
    show "usedBytes ?c = pairs_bytes vlen (lru_abs ?c)"
      using lru_wf_D(4) [OF wf] by (simp add: c lru_abs_def list p node_pair_def)
  qed
  show "snd (lru_RemoveOldest vlen c w) = notify (onEvicted c) [p] w"
    by (auto simp: lru_RemoveOldest_def list list_Back_def Let_def p node_pair_def notify_def
      split: option.split)
  show "maxBytes ?c = maxBytes c" "onEvicted ?c = onEvicted c" by (simp_all add: c)
qed

lemma lru_put_refines:
  assumes wf: "lru_wf vlen c"
  shows "lru_abs (lru_put vlen k v c) = spec_put k v (lru_abs c)"
    and "lru_wf vlen (lru_put vlen k v c)"
    and "maxBytes (lru_put vlen k v c) = maxBytes c"
    and "onEvicted (lru_put vlen k v c) = onEvicted c"
proof -
  let ?c = "lru_put vlen k v c"
  show "maxBytes ?c = maxBytes c" "onEvicted ?c = onEvicted c"
    by (simp_all add: lru_put_def Let_def split: option.split)
  have "lru_abs ?c = spec_put k v (lru_abs c) \<and> lru_wf vlen ?c"
  proof (cases "lru_cache c k")
    case None
    have fresh: "next_elem c \<notin> set (linkedList c)"
      using lru_wf_D(2) [OF wf] by blast
    have absent: "entry_key (elems c e) \<noteq> k" if "e \<in> set (linkedList c)" for e
      using that None lru_wf_D(3) [OF wf, of k e] by auto
    have abs: "lru_abs ?c = (k, v) # lru_abs c"
      using fresh by (auto simp: lru_put_def None Let_def lru_abs_def node_pair_def)
    moreover have "filter (\<lambda>p. fst p \<noteq> k) (lru_abs c) = lru_abs c"
      using absent by (auto simp: filter_id_conv lru_abs_def node_pair_def)
    moreover have "lru_wf vlen ?c"
      unfolding lru_wf_def
    proof (intro conjI allI)
      show "distinct (linkedList ?c)"
        using lru_wf_D(1) [OF wf] fresh by (simp add: lru_put_def None Let_def)
      show "\<forall>e \<in> set (linkedList ?c). e < next_elem ?c"
        using lru_wf_D(2) [OF wf] by (auto simp: lru_put_def None Let_def intro: less_SucI)
      show "lru_cache ?c k' = Some e \<longleftrightarrow> e \<in> set (linkedList ?c) \<and> entry_key (elems ?c e) = k'" for k' e
        using lru_wf_D(3) [OF wf, of k' e] fresh absent
        by (auto simp: lru_put_def None Let_def)
      show "usedBytes ?c = pairs_bytes vlen (lru_abs ?c)"
        using lru_wf_D(4) [OF wf] by (simp only: abs) (simp add: lru_put_def None Let_def
          pair_bytes_def)
    qed
    ultimately show ?thesis by (simp add: spec_put_def)
  next
    case (Some e)
    let ?kv = "elems c e"
    have e: "e \<in> set (linkedList c)" "entry_key ?kv = k"
      using Some lru_wf_D(3) [OF wf, of k e] by auto
    have c: "?c = c\<lparr>linkedList := e # remove1 e (linkedList c),
        usedBytes := usedBytes c + (vlen v - vlen (entry_value ?kv)),
        elems := (elems c)(e := ?kv\<lparr>entry_value := v\<rparr>)\<rparr>"
      using e by (simp add: lru_put_def Some Let_def list_MoveToFront_def)
    have notin: "e \<notin> set (remove1 e (linkedList c))"
      using lru_wf_D(1) [OF wf] by simp
    have "map (node_pair ?c) (remove1 e (linkedList c)) = map (node_pair c) (remove1 e (linkedList c))"
      using notin by (auto simp: c node_pair_def)
    then have abs: "lru_abs ?c = spec_put k v (lru_abs c)"
      using e lru_abs_without [OF wf Some]
      by (simp add: lru_abs_def spec_put_def c) (simp add: node_pair_def)
    moreover have "lru_wf vlen ?c"
      unfolding lru_wf_def
    proof (intro conjI allI)
      show "distinct (linkedList ?c)" using lru_wf_D(1) [OF wf] by (simp add: c)
      show "\<forall>x \<in> set (linkedList ?c). x < next_elem ?c"
        using lru_wf_D(2) [OF wf] e(1) by (auto simp: c dest: notin_set_remove1)
      show "lru_cache ?c k' = Some x \<longleftrightarrow> x \<in> set (linkedList ?c) \<and> entry_key (elems ?c x) = k'" for k' x
        using lru_wf_D(1) [OF wf] lru_wf_D(3) [OF wf, of k' x] e by (auto simp: c)
      have "(k, entry_value ?kv) \<in> set (lru_abs c)"
        using e by (auto simp: lru_abs_def node_pair_def)
      from pairs_bytes_remove_key [OF lru_wf_keys [OF wf] this, of vlen]
      show "usedBytes ?c = pairs_bytes vlen (lru_abs ?c)"
        using lru_wf_D(4) [OF wf] unfolding abs by (simp add: c spec_put_def pair_bytes_def)
    qed
    ultimately show ?thesis by simp
  qed
  then show "lru_abs ?c = spec_put k v (lru_abs c)" "lru_wf vlen ?c" by simp_all
qed

subsection \<open>The eviction loop\<close>

declare lru_evict.simps [code del]

lemma lru_evict_stop:
  "\<not> over_limit (maxBytes c) (usedBytes c) \<Longrightarrow> lru_evict vlen c w = Some (c, w)"
  by (simp add: lru_evict.simps)

lemma over_limit_zero: "over_limit maxb 0 \<longleftrightarrow> sint maxb < 0"
  by (auto simp: over_limit_def)

lemma notify_Nil [simp]: "notify f [] w = w"
  by (simp add: notify_def split: option.split)

lemma notify_Cons: "notify f (p # ps) w = notify f ps (notify f [p] w)"
  by (simp add: notify_def case_prod_unfold split: option.split)

text \<open>If some entry survives, or an empty cache is within the limit, the loop ends.\<close>

lemma lru_evict_refines:
  assumes "lru_wf vlen c"
    and "fst (spec_evict vlen (maxBytes c) (lru_abs c)) \<noteq> [] \<or> \<not> sint (maxBytes c) < 0"
  shows "\<exists>c'. lru_evict vlen c w
      = Some (c', notify (onEvicted c) (snd (spec_evict vlen (maxBytes c) (lru_abs c))) w) \<and>
    lru_abs c' = fst (spec_evict vlen (maxBytes c) (lru_abs c)) \<and> lru_wf vlen c' \<and>
    maxBytes c' = maxBytes c \<and> onEvicted c' = onEvicted c"
  using assms
proof (induction "length (linkedList c)" arbitrary: c w)
  case 0
  then have empty: "lru_abs c = []" by (simp add: lru_abs_def)
  with 0 have "\<not> over_limit (maxBytes c) (usedBytes c)"
    by (simp add: lru_wf_D(4) over_limit_zero)
  with 0 empty show ?case by (simp add: lru_evict_stop)
next
  case (Suc n)
  let ?p = "last (lru_abs c)" and ?r = "lru_RemoveOldest vlen c w"
  have ne: "linkedList c \<noteq> []" using Suc.hyps(2) by auto
  then have split: "lru_abs c = butlast (lru_abs c) @ [?p]" by (simp add: lru_abs_def)
  note step = lru_RemoveOldest_refines [OF Suc.prems(1) ne, of w]
  show ?case
  proof (cases "over_limit (maxBytes c) (usedBytes c)")
    case True
    then have over: "over_limit (maxBytes c) (pairs_bytes vlen (butlast (lru_abs c) @ [?p]))"
      using Suc.prems(1) split by (metis lru_wf_D(4))
    have spec: "spec_evict vlen (maxBytes c) (lru_abs c)
      = (fst (spec_evict vlen (maxBytes c) (butlast (lru_abs c))),
         ?p # snd (spec_evict vlen (maxBytes c) (butlast (lru_abs c))))"
      using spec_evict_snoc [OF over] split by simp
    have len: "n = length (linkedList (fst ?r))"
    proof -
      have "length (lru_abs (fst ?r)) = n"
        using Suc.hyps(2) by (simp add: step(1)) (simp add: lru_abs_def)
      then show ?thesis by (simp add: lru_abs_def)
    qed
    have evict: "lru_evict vlen c w = lru_evict vlen (fst ?r) (snd ?r)"
      using True by (subst lru_evict.simps) simp
    show ?thesis
      using Suc.hyps(1) [OF len step(2), of "snd ?r"] Suc.prems(2)
      by (simp add: evict spec step(1,3,4,5)
        notify_Cons [of _ ?p "snd (spec_evict vlen (maxBytes c) (butlast (lru_abs c)))"])
  next
    case False
    with Suc.prems show ?thesis
      by (simp add: lru_evict_stop spec_evict_small lru_wf_D(4))
  qed
qed

text \<open>On an empty list with the guard true the loop repeats the same state for ever.\<close>

lemma lru_evict_empty_hangs:
  assumes "linkedList c = []" and "over_limit (maxBytes c) (usedBytes c)"
  shows "lru_evict vlen c w = None"
proof (rule ccontr)
  assume "lru_evict vlen c w \<noteq> None"
  then obtain r where r: "lru_evict vlen c w = Some r" by auto
  have "linkedList c = [] \<longrightarrow> \<not> over_limit (maxBytes c) (usedBytes c)"
  proof (rule lru_evict.raw_induct
      [where P = "\<lambda>vlen c w r. linkedList c = [] \<longrightarrow> \<not> over_limit (maxBytes c) (usedBytes c)",
        OF _ r])
    fix f :: "('a \<Rightarrow> int64) \<Rightarrow> ('a, 'b) lru \<Rightarrow> 'b \<Rightarrow> (('a, 'b) lru \<times> 'b) option"
    fix vlen c w r
    assume IH: "\<And>vlen c w r. f vlen c w = Some r \<Longrightarrow>
        linkedList c = [] \<longrightarrow> \<not> over_limit (maxBytes c) (usedBytes c)"
      and eq: "(if over_limit (maxBytes c) (usedBytes c)
        then f vlen (fst (lru_RemoveOldest vlen c w)) (snd (lru_RemoveOldest vlen c w))
        else Some (c, w)) = Some r"
    show "linkedList c = [] \<longrightarrow> \<not> over_limit (maxBytes c) (usedBytes c)"
    proof
      assume empty: "linkedList c = []"
      show "\<not> over_limit (maxBytes c) (usedBytes c)"
      proof
        assume over: "over_limit (maxBytes c) (usedBytes c)"
        with eq empty have "f vlen c w = Some r" by (simp add: lru_RemoveOldest_Nil)
        with IH empty over show False by blast
      qed
    qed
  qed
  with assms show False by simp
qed

lemma lru_evict_hangs:
  assumes "lru_wf vlen c" and "sint (maxBytes c) < 0"
    and "fst (spec_evict vlen (maxBytes c) (lru_abs c)) = []"
  shows "lru_evict vlen c w = None"
  using assms
proof (induction "length (linkedList c)" arbitrary: c w)
  case 0
  then have "lru_abs c = []" by (simp add: lru_abs_def)
  with 0 show ?case
    by (intro lru_evict_empty_hangs) (simp_all add: lru_wf_D(4) over_limit_zero)
next
  case (Suc n)
  let ?r = "lru_RemoveOldest vlen c w" and ?p = "last (lru_abs c)"
  have ne: "linkedList c \<noteq> []" using Suc.hyps(2) by auto
  then have split: "lru_abs c = butlast (lru_abs c) @ [?p]" by (simp add: lru_abs_def)
  note step = lru_RemoveOldest_refines [OF Suc.prems(1) ne, of w]
  have over: "over_limit (maxBytes c) (usedBytes c)"
    using Suc.prems ne by (cases "over_limit (maxBytes c) (usedBytes c)")
      (simp_all add: spec_evict_small lru_wf_D(4) lru_abs_def)
  then have "over_limit (maxBytes c) (pairs_bytes vlen (butlast (lru_abs c) @ [?p]))"
    using Suc.prems(1) split by (metis lru_wf_D(4))
  from spec_evict_snoc [OF this] Suc.prems(3) split
  have kept: "fst (spec_evict vlen (maxBytes c) (butlast (lru_abs c))) = []" by simp
  have "length (lru_abs (fst ?r)) = n"
    using Suc.hyps(2) by (simp add: step(1)) (simp add: lru_abs_def)
  then have len: "n = length (linkedList (fst ?r))" by (simp add: lru_abs_def)
  have "lru_evict vlen (fst ?r) (snd ?r) = None"
    using Suc.hyps(1) [OF len step(2)] Suc.prems(2) kept by (simp add: step(1,4))
  with over show ?case by (subst lru_evict.simps) simp
qed

subsection \<open>Byte counts without wrap-around\<close>

definition pair_size :: "('v \<Rightarrow> int64) \<Rightarrow> string \<times> 'v \<Rightarrow> int" where
  "pair_size vlen p = int (length (fst p)) + sint (vlen (snd p))"

definition pairs_size :: "('v \<Rightarrow> int64) \<Rightarrow> 'v pairs \<Rightarrow> int" where
  "pairs_size vlen ps = sum_list (map (pair_size vlen) ps)"

lemma pairs_size_simps [simp]:
  "pairs_size vlen [] = 0"
  "pairs_size vlen (p # ps) = pair_size vlen p + pairs_size vlen ps"
  "pairs_size vlen (ps @ qs) = pairs_size vlen ps + pairs_size vlen qs"
  by (simp_all add: pairs_size_def)

lemma pairs_bytes_of_int: "pairs_bytes vlen ps = word_of_int (pairs_size vlen ps)"
  by (induction ps) (simp_all add: pair_bytes_def pair_size_def)

lemma sint_of_int64: "- (2 ^ 63) \<le> i \<Longrightarrow> i < 2 ^ 63 \<Longrightarrow> sint (word_of_int i :: int64) = i"
  by (simp add: sint_sbintrunc' signed_take_bit_int_eq_self)

text \<open>No \<^verbatim>\<open>Len\<close> is negative, and all entries together have less than \<open>2 ^ 63\<close> bytes.\<close>

definition sizes_ok :: "('v \<Rightarrow> int64) \<Rightarrow> 'v pairs \<Rightarrow> bool" where
  "sizes_ok vlen ps \<longleftrightarrow> (\<forall>p \<in> set ps. 0 \<le> sint (vlen (snd p))) \<and> pairs_size vlen ps < 2 ^ 63"

lemma pairs_size_nonneg: "(\<forall>p \<in> set ps. 0 \<le> sint (vlen (snd p))) \<Longrightarrow> 0 \<le> pairs_size vlen ps"
  by (induction ps) (simp_all add: pair_size_def)

lemma sizes_ok_append:
  assumes "sizes_ok vlen (ps @ qs)"
  shows "sizes_ok vlen ps" "0 \<le> pairs_size vlen ps" "0 \<le> pairs_size vlen qs"
  using assms pairs_size_nonneg [of ps vlen] pairs_size_nonneg [of qs vlen]
  by (auto simp: sizes_ok_def)

lemma sint_pairs_bytes: "sizes_ok vlen ps \<Longrightarrow> sint (pairs_bytes vlen ps) = pairs_size vlen ps"
  using pairs_size_nonneg [of ps vlen] by (simp add: sizes_ok_def pairs_bytes_of_int sint_of_int64)

lemma over_limit_size:
  "sizes_ok vlen ps \<Longrightarrow>
   over_limit maxb (pairs_bytes vlen ps) \<longleftrightarrow> maxb \<noteq> 0 \<and> sint maxb < pairs_size vlen ps"
  by (simp add: over_limit_def sint_pairs_bytes)

text \<open>What the eviction keeps is a prefix, so its size is bounded by that of the whole.\<close>

lemma spec_evict_kept_prefix: "\<exists>rs. ps = fst (spec_evict vlen maxb ps) @ rs"
  by (metis spec_evict_append)

lemma spec_evict_Cons_kept:
  assumes "sizes_ok vlen (p # ps)"
  shows "fst (spec_evict vlen maxb (p # ps)) = [] \<longleftrightarrow> maxb \<noteq> 0 \<and> sint maxb < pair_size vlen p"
proof
  assume "fst (spec_evict vlen maxb (p # ps)) = []"
  then have "over_limit maxb (pairs_bytes vlen [p])"
    using spec_evict_maximal [of "p # ps" "[p]" ps vlen maxb] by simp
  with over_limit_size [of vlen "[p]" maxb] sizes_ok_append(1) [of vlen "[p]" ps] assms
  show "maxb \<noteq> 0 \<and> sint maxb < pair_size vlen p" by simp
next
  let ?kept = "fst (spec_evict vlen maxb (p # ps))"
  assume big: "maxb \<noteq> 0 \<and> sint maxb < pair_size vlen p"
  show "?kept = []"
  proof (rule ccontr)
    assume ne: "?kept \<noteq> []"
    obtain rs where rs: "p # ps = ?kept @ rs" using spec_evict_kept_prefix by blast
    with ne obtain ks where ks: "?kept = p # ks" by (metis append_eq_Cons_conv)
    have ok: "sizes_ok vlen ?kept" using sizes_ok_append(1) assms rs by metis
    then have "0 \<le> pairs_size vlen ks"
      by (intro pairs_size_nonneg) (auto simp: ks sizes_ok_def)
    with over_limit_size [OF ok, of maxb] big have "over_limit maxb (pairs_bytes vlen ?kept)"
      by (simp add: ks)
    with spec_evict_fits [OF ne] show False by simp
  qed
qed

subsection \<open>The contract of a bounded cache\<close>

text \<open>
  What the users of the cache rely on: a lookup sees what the cache holds, an insertion
  may forget entries but never invents one, and with a limit that is not negative it
  returns.
\<close>

datatype 'v cache_op = CGet string | CAdd string 'v

fun cache_run ::
  "(string \<Rightarrow> 'v \<Rightarrow> 'c \<Rightarrow> 'c option) \<Rightarrow> (string \<Rightarrow> 'c \<Rightarrow> 'v option \<times> 'c) \<Rightarrow>
   'v cache_op list \<Rightarrow> 'c \<Rightarrow> ('v option list \<times> 'c) option" where
  "cache_run add get [] c = Some ([], c)"
| "cache_run add get (CGet k # ops) c =
     map_option (\<lambda>(outs, c'). (fst (get k c) # outs, c')) (cache_run add get ops (snd (get k c)))"
| "cache_run add get (CAdd k v # ops) c =
     (case add k v c of None \<Rightarrow> None | Some c' \<Rightarrow> cache_run add get ops c')"

text \<open>The answers of a map that forgets nothing.\<close>

fun map_run :: "'v cache_op list \<Rightarrow> (string \<rightharpoonup> 'v) \<Rightarrow> 'v option list" where
  "map_run [] m = []"
| "map_run (CGet k # ops) m = m k # map_run ops m"
| "map_run (CAdd k v # ops) m = map_run ops (m(k \<mapsto> v))"

locale bounded_cache =
  fixes add :: "string \<Rightarrow> 'v \<Rightarrow> 'c \<Rightarrow> 'c option"
    and get :: "string \<Rightarrow> 'c \<Rightarrow> 'v option \<times> 'c"
    and lookup :: "'c \<Rightarrow> string \<rightharpoonup> 'v"
    and limit :: "'c \<Rightarrow> int64"
    and ok :: "'c \<Rightarrow> bool"
  assumes get_result: "ok c \<Longrightarrow> fst (get k c) = lookup c k"
    and get_lookup: "ok c \<Longrightarrow> lookup (snd (get k c)) = lookup c"
    and get_ok: "ok c \<Longrightarrow> ok (snd (get k c))"
    and get_limit: "ok c \<Longrightarrow> limit (snd (get k c)) = limit c"
    and add_lookup: "ok c \<Longrightarrow> add k v c = Some c' \<Longrightarrow> lookup c' \<subseteq>\<^sub>m (lookup c)(k \<mapsto> v)"
    and add_keeps_all: "ok c \<Longrightarrow> add k v c = Some c' \<Longrightarrow> limit c = 0 \<Longrightarrow>
          lookup c' = (lookup c)(k \<mapsto> v)"
    and add_ok: "ok c \<Longrightarrow> add k v c = Some c' \<Longrightarrow> ok c'"
    and add_limit: "ok c \<Longrightarrow> add k v c = Some c' \<Longrightarrow> limit c' = limit c"
    and add_returns: "ok c \<Longrightarrow> 0 \<le> sint (limit c) \<Longrightarrow> add k v c \<noteq> None"
begin

lemma run_returns:
  "ok c \<Longrightarrow> 0 \<le> sint (limit c) \<Longrightarrow> \<exists>outs c'. cache_run add get ops c = Some (outs, c')"
proof (induction ops arbitrary: c)
  case Nil
  then show ?case by simp
next
  case (Cons op ops)
  show ?case
  proof (cases op)
    case (CGet k)
    with Cons.prems Cons.IH [of "snd (get k c)"] show ?thesis
      by (auto simp: get_ok get_limit)
  next
    case (CAdd k v)
    with Cons.prems obtain c' where add: "add k v c = Some c'"
      using add_returns by blast
    with CAdd Cons.prems Cons.IH [of c'] show ?thesis
      by (simp add: add_ok [OF _ add] add_limit [OF _ add])
  qed
qed

text \<open>Every hit is the value stored last under the key.\<close>

lemma run_coherent:
  "ok c \<Longrightarrow> lookup c \<subseteq>\<^sub>m m \<Longrightarrow> cache_run add get ops c = Some (outs, c') \<Longrightarrow>
   list_all2 (\<lambda>out expected. out = None \<or> out = expected) outs (map_run ops m)"
proof (induction ops arbitrary: c m outs)
  case Nil
  then show ?case by simp
next
  case (Cons op ops)
  show ?case
  proof (cases op)
    case (CGet k)
    with Cons.prems obtain outs' where outs: "outs = fst (get k c) # outs'"
      and run: "cache_run add get ops (snd (get k c)) = Some (outs', c')" by auto
    have "lookup c k = None \<or> lookup c k = m k"
      using Cons.prems(2) by (cases "lookup c k") (auto simp: map_le_def dom_def)
    moreover have "list_all2 (\<lambda>out expected. out = None \<or> out = expected) outs' (map_run ops m)"
      using Cons.IH [OF _ _ run] Cons.prems(1,2) by (simp add: get_ok get_lookup)
    ultimately show ?thesis
      using Cons.prems(1) by (simp add: CGet outs get_result)
  next
    case (CAdd k v)
    with Cons.prems(3) obtain d where add: "add k v c = Some d"
      and run: "cache_run add get ops d = Some (outs, c')" by (auto split: option.splits)
    have "lookup d \<subseteq>\<^sub>m m(k \<mapsto> v)"
      using add_lookup [OF Cons.prems(1) add] Cons.prems(2) by (meson map_le_trans map_le_upd)
    with Cons.IH [OF _ _ run] add_ok [OF Cons.prems(1) add] show ?thesis
      by (simp add: CAdd)
  qed
qed

text \<open>Without a limit the cache is the map.\<close>

lemma run_unlimited:
  "ok c \<Longrightarrow> limit c = 0 \<Longrightarrow> cache_run add get ops c = Some (outs, c') \<Longrightarrow>
   outs = map_run ops (lookup c)"
proof (induction ops arbitrary: c outs)
  case Nil
  then show ?case by simp
next
  case (Cons op ops)
  show ?case
  proof (cases op)
    case (CGet k)
    with Cons.prems Cons.IH [of "snd (get k c)"] show ?thesis
      by (auto simp: get_ok get_limit get_lookup get_result)
  next
    case (CAdd k v)
    with Cons.prems(3) obtain d where add: "add k v c = Some d"
      and run: "cache_run add get ops d = Some (outs, c')" by (auto split: option.splits)
    from Cons.prems(1,2) have "lookup d = (lookup c)(k \<mapsto> v)" by (rule add_keeps_all [OF _ add])
    moreover have "outs = map_run ops (lookup d)"
      using Cons.IH [OF _ _ run] Cons.prems(1,2)
      by (simp add: add_ok [OF _ add] add_limit [OF _ add])
    ultimately show ?thesis by (simp only: CAdd map_run.simps)
  qed
qed

end

subsection \<open>The cache satisfies the contract\<close>

lemma map_of_filter_key:
  "map_of (filter (\<lambda>p. fst p \<noteq> k) ps) = (map_of ps)(k := None)"
  by (induction ps) (auto simp: fun_eq_iff)

lemma map_of_spec_put: "map_of (spec_put k v ps) = (map_of ps)(k \<mapsto> v)"
  by (simp add: spec_put_def map_of_filter_key)

lemma map_of_spec_touch: "map_of (spec_touch k ps) = map_of ps"
  by (auto simp: spec_touch_def map_of_filter_key fun_eq_iff split: option.split)

lemma map_of_prefix:
  assumes "distinct (map fst (ps @ qs))"
  shows "map_of ps \<subseteq>\<^sub>m map_of (ps @ qs)"
  using assms by (auto simp: map_le_def map_add_def dom_map_of_conv_image_fst map_of_eq_None_iff
    split: option.split)

lemma spec_put_distinct: "distinct (map fst ps) \<Longrightarrow> distinct (map fst (spec_put k v ps))"
  by (induction ps) (auto simp: spec_put_def distinct_map_filter)

lemma spec_evict_unlimited: "spec_evict vlen 0 ps = (ps, [])"
  by (simp add: spec_evict_small over_limit_def)

text \<open>All that a call of \<^verbatim>\<open>Add\<close> does, on a cache whose limit is not negative.\<close>

lemma lru_Add_refines:
  fixes k :: string and v :: 'v
  assumes "lru_wf vlen c" and "0 \<le> sint (maxBytes c)"
  defines "spec \<equiv> spec_evict vlen (maxBytes c) (spec_put k v (lru_abs c))"
  shows "\<exists>c'. lru_Add vlen k v c w = Some (c', notify (onEvicted c) (snd spec) w) \<and>
    lru_abs c' = fst spec \<and> lru_wf vlen c' \<and> maxBytes c' = maxBytes c \<and>
    onEvicted c' = onEvicted c"
  using lru_evict_refines [OF lru_put_refines(2) [OF assms(1)], of k v w] assms
  by (simp add: lru_Add_def lru_put_refines [OF assms(1)])

lemma lru_Add_Some:
  assumes "lru_wf vlen c" and "lru_Add vlen k v c w = Some r"
  shows "lru_abs (fst r) = fst (spec_evict vlen (maxBytes c) (spec_put k v (lru_abs c)))"
    and "lru_wf vlen (fst r)" and "maxBytes (fst r) = maxBytes c"
    and "onEvicted (fst r) = onEvicted c"
proof -
  let ?c = "lru_put vlen k v c"
  note put = lru_put_refines [OF assms(1)]
  have "fst (spec_evict vlen (maxBytes ?c) (lru_abs ?c)) \<noteq> [] \<or> \<not> sint (maxBytes ?c) < 0"
    using lru_evict_hangs [OF put(2), of k v w] assms(2) by (auto simp: lru_Add_def)
  from lru_evict_refines [OF put(2) this, of w] assms(2)
  show "lru_abs (fst r) = fst (spec_evict vlen (maxBytes c) (spec_put k v (lru_abs c)))"
    "lru_wf vlen (fst r)" "maxBytes (fst r) = maxBytes c" "onEvicted (fst r) = onEvicted c"
    by (auto simp: lru_Add_def put)
qed

text \<open>The state of the callback \<open>w0\<close> is left out: the users of the contract see the cache only.\<close>

interpretation lru: bounded_cache
  "\<lambda>k v c. map_option fst (lru_Add vlen k v c w0)" lru_Get "\<lambda>c. map_of (lru_abs c)" maxBytes
  "lru_wf vlen"
  for vlen :: "'v \<Rightarrow> int64" and w0 :: 'w
proof (unfold_locales, goal_cases)
  case (1 c k)
  then show ?case by (rule lru_Get_refines)
next
  case (2 c k)
  then show ?case by (simp add: lru_Get_refines map_of_spec_touch)
next
  case (3 c k)
  then show ?case by (rule lru_Get_refines)
next
  case (4 c k)
  then show ?case by (simp add: lru_Get_def Let_def split: option.split)
next
  case (5 c k v c')
  then obtain r where r: "lru_Add vlen k v c w0 = Some r" "c' = fst r" by auto
  obtain rs where rs: "spec_put k v (lru_abs c) = lru_abs c' @ rs"
    using lru_Add_Some(1) [OF 5(1) r(1)] r(2) spec_evict_kept_prefix by metis
  have "distinct (map fst (lru_abs c' @ rs))"
    using spec_put_distinct [OF lru_wf_keys [OF 5(1)]] rs by metis
  from map_of_prefix [OF this] show ?case
    by (metis rs map_of_spec_put)
next
  case (6 c k v c')
  then obtain r where r: "lru_Add vlen k v c w0 = Some r" "c' = fst r" by auto
  from 6 show ?case
    by (simp add: r(2) lru_Add_Some(1) [OF 6(1) r(1)] spec_evict_unlimited map_of_spec_put)
next
  case (7 c k v c')
  then show ?case using lru_Add_Some(2) [OF 7(1)] by auto
next
  case (8 c k v c')
  then show ?case using lru_Add_Some(3) [OF 8(1)] by auto
next
  case (9 c k v)
  then show ?case using lru_Add_refines [OF 9, of k v w0] by auto
qed

text \<open>Whether the entry just added survives, and what it means when it does not.\<close>

lemma lru_Add_retained:
  assumes "lru_wf vlen c" and "0 \<le> sint (maxBytes c)"
    and "sizes_ok vlen (spec_put k v (lru_abs c))"
  shows "\<exists>c' w'. lru_Add vlen k v c w = Some (c', w') \<and>
    (if maxBytes c = 0 \<or> pair_size vlen (k, v) \<le> sint (maxBytes c)
     then map_of (lru_abs c') k = Some v else lru_abs c' = [])"
proof -
  let ?ps = "spec_put k v (lru_abs c)"
  obtain c' w' where add: "lru_Add vlen k v c w = Some (c', w')"
    and abs: "lru_abs c' = fst (spec_evict vlen (maxBytes c) ?ps)"
    using lru_Add_refines [OF assms(1,2)] by metis
  obtain rs where rs: "?ps = lru_abs c' @ rs" using abs spec_evict_kept_prefix by metis
  have "lru_abs c' = [] \<longleftrightarrow> maxBytes c \<noteq> 0 \<and> sint (maxBytes c) < pair_size vlen (k, v)"
    using spec_evict_Cons_kept assms(3) by (simp add: abs spec_put_def)
  moreover have "map_of (lru_abs c') k = Some v" if "lru_abs c' \<noteq> []"
    using rs that by (cases "lru_abs c'") (auto simp: spec_put_def)
  ultimately show ?thesis using add by (auto simp: not_less)
qed

subsection \<open>Properties\<close>

text \<open>The value type of the witnesses: a string, whose \<^verbatim>\<open>Len\<close> is its length.\<close>

definition string_len :: "string \<Rightarrow> int64" where
  "string_len s = of_nat (length s)"

definition lru_example :: "int64 \<Rightarrow> (string, string list) lru" where
  "lru_example maxb = fst (the (lru_Add string_len ''k2'' ''v2''
     (fst (the (lru_Add string_len ''k1'' ''v1''
        (lru_New maxb (Some (\<lambda>k v w. w @ [k]))) []))) []))"

text \<open>
  Property C1. On a well-formed cache whose limit is not negative, \<^verbatim>\<open>Add\<close> returns, keeps
  the cache well-formed and refines the specification: the pair moves to the front, and
  the entries the specification drops, oldest first, are exactly those the eviction
  callback is called for.
\<close>

theorem lru_Add_correct:
  assumes "lru_wf vlen c" and "0 \<le> sint (maxBytes c)"
  shows "\<exists>c'. lru_Add vlen k v c w
      = Some (c', notify (onEvicted c)
          (snd (spec_evict vlen (maxBytes c) (spec_put k v (lru_abs c)))) w) \<and>
    lru_abs c' = fst (spec_evict vlen (maxBytes c) (spec_put k v (lru_abs c))) \<and>
    lru_wf vlen c' \<and> maxBytes c' = maxBytes c \<and> onEvicted c' = onEvicted c"
  using lru_Add_refines [OF assms] by blast

lemma lru_New_Add_spec:
  assumes "0 \<le> sint maxb"
  shows "\<exists>c'. lru_Add vlen k v (lru_New maxb f) w
      = Some (c', notify f (snd (spec_evict vlen maxb [(k, v)])) w) \<and>
    lru_abs c' = fst (spec_evict vlen maxb [(k, v)]) \<and> lru_wf vlen c' \<and>
    maxBytes c' = maxb \<and> onEvicted c' = f"
  using lru_Add_refines [OF lru_New_wf(1) [where maxb = maxb and f = f], of vlen k v w] assms
  by (simp add: lru_New_def lru_abs_def spec_put_def)

text \<open>The test \<^verbatim>\<open>TestOnEvicted\<close> of the package: two entries fill the cache.\<close>

lemma lru_example_8:
  "lru_abs (lru_example 8) = [(''k2'', ''v2''), (''k1'', ''v1'')]"
  "lru_wf string_len (lru_example 8)" "maxBytes (lru_example 8) = 8"
  "onEvicted (lru_example 8) = Some (\<lambda>k v w. w @ [k])"
proof -
  let ?f = "Some (\<lambda>k (v :: string) w. w @ [k])"
  obtain c1 where c1: "lru_Add string_len ''k1'' ''v1'' (lru_New 8 ?f) [] = Some (c1, [])"
    "lru_abs c1 = [(''k1'', ''v1'')]" "lru_wf string_len c1" "maxBytes c1 = 8" "onEvicted c1 = ?f"
    using lru_New_Add_spec [of 8 string_len "''k1''" "''v1''" ?f "[]"]
    by (auto simp: spec_evict_small over_limit_def pair_bytes_def string_len_def)
  obtain c2 where c2: "lru_Add string_len ''k2'' ''v2'' c1 [] = Some (c2, [])"
    "lru_abs c2 = [(''k2'', ''v2''), (''k1'', ''v1'')]" "lru_wf string_len c2" "maxBytes c2 = 8"
    "onEvicted c2 = ?f"
    using lru_Add_refines [OF c1(3), of "''k2''" "''v2''" "[]"] c1
    by (auto simp: spec_put_def spec_evict_small over_limit_def pair_bytes_def string_len_def)
  have "lru_example 8 = c2" by (simp add: lru_example_def c1(1) c2(1))
  with c2 show "lru_abs (lru_example 8) = [(''k2'', ''v2''), (''k1'', ''v1'')]"
    "lru_wf string_len (lru_example 8)" "maxBytes (lru_example 8) = 8"
    "onEvicted (lru_example 8) = ?f" by simp_all
qed

theorem lru_Add_correct_witness:
  "\<exists>c'. lru_Add string_len ''k3'' ''v3'' (lru_example 8) [] = Some (c', [''k1'']) \<and>
     lru_abs c' = [(''k3'', ''v3''), (''k2'', ''v2'')]"
  using lru_Add_correct [OF lru_example_8(2), of "''k3''" "''v3''" "[]"] lru_example_8
  by (auto simp: spec_put_def spec_evict.simps over_limit_def pair_bytes_def string_len_def
    notify_def)

text \<open>
  Property C29. When no \<^verbatim>\<open>Len\<close> is negative and the bytes of all entries fit in an
  \<^verbatim>\<open>int64\<close>, \<^verbatim>\<open>Add\<close> leaves at most \<^verbatim>\<open>maxBytes\<close> bytes in the cache, and it evicts no more
  than it has to: every longer prefix of the recency list exceeds the limit.
\<close>

theorem lru_Add_bound_minimal:
  assumes "lru_wf vlen c" and "0 < sint (maxBytes c)"
    and "sizes_ok vlen (spec_put k v (lru_abs c))"
  shows "\<exists>c' w'. lru_Add vlen k v c w = Some (c', w') \<and>
    pairs_size vlen (lru_abs c') \<le> sint (maxBytes c) \<and>
    (\<forall>qs rs. spec_put k v (lru_abs c) = qs @ rs \<and> length (lru_abs c') < length qs \<longrightarrow>
      sint (maxBytes c) < pairs_size vlen qs)"
proof -
  let ?ps = "spec_put k v (lru_abs c)"
  obtain c' w' where add: "lru_Add vlen k v c w = Some (c', w')"
    and abs: "lru_abs c' = fst (spec_evict vlen (maxBytes c) ?ps)"
    using lru_Add_refines [OF assms(1)] assms(2) by (metis less_imp_le)
  obtain rs where rs: "?ps = lru_abs c' @ rs" using abs spec_evict_kept_prefix by metis
  have limit: "over_limit (maxBytes c) (pairs_bytes vlen qs) \<longleftrightarrow> sint (maxBytes c) < pairs_size vlen qs"
    if "?ps = qs @ rs" for qs rs
    using over_limit_size sizes_ok_append(1) that assms(2,3) by fastforce
  have "pairs_size vlen (lru_abs c') \<le> sint (maxBytes c)"
    using limit [OF rs] spec_evict_fits [of vlen "maxBytes c" ?ps] abs assms(2)
    by (cases "lru_abs c' = []") (auto simp: not_less)
  moreover have "sint (maxBytes c) < pairs_size vlen qs"
    if "?ps = qs @ rs" "length (lru_abs c') < length qs" for qs rs
    using limit [OF that(1)] spec_evict_maximal [OF that(1)] that(2) abs by simp
  ultimately show ?thesis using add by blast
qed

theorem lru_Add_bound_minimal_witness:
  "\<exists>c' w'. lru_Add string_len ''k3'' ''v3'' (lru_example 8) [] = Some (c', w') \<and>
     pairs_size string_len (lru_abs c') \<le> 8"
  using lru_Add_bound_minimal [OF lru_example_8(2), of "''k3''" "''v3''" "[]"]
  by (auto simp: lru_example_8 sizes_ok_def spec_put_def pair_size_def string_len_def)

text \<open>
  After \<^verbatim>\<open>Add(k, v)\<close>, \<^verbatim>\<open>Get(k)\<close> returns \<^verbatim>\<open>v\<close>, unless the entry alone is larger
  than the limit: then the whole cache has been emptied, and \<^verbatim>\<open>Get\<close> misses on every key.
\<close>

theorem lru_Get_after_Add:
  assumes "lru_wf vlen c" and "0 \<le> sint (maxBytes c)"
    and "sizes_ok vlen (spec_put k v (lru_abs c))"
  shows "\<exists>c' w'. lru_Add vlen k v c w = Some (c', w') \<and>
    (if maxBytes c = 0 \<or> pair_size vlen (k, v) \<le> sint (maxBytes c)
     then fst (lru_Get k c') = Some v else (\<forall>k'. fst (lru_Get k' c') = None) \<and> lru_Len c' = 0)"
proof -
  obtain c' w' where add: "lru_Add vlen k v c w = Some (c', w')"
    and kept: "if maxBytes c = 0 \<or> pair_size vlen (k, v) \<le> sint (maxBytes c)
      then map_of (lru_abs c') k = Some v else lru_abs c' = []"
    using lru_Add_retained [OF assms] by blast
  have wf: "lru_wf vlen c'" using lru_Add_Some(2) [OF assms(1) add] by simp
  have "lru_Len c' = length (lru_abs c')" by (simp add: lru_Len_def lru_abs_def)
  with add kept show ?thesis by (auto simp: lru_Get_refines(1) [OF wf])
qed

theorem lru_Get_after_Add_witness:
  "(\<exists>c' w'. lru_Add string_len ''k3'' ''v3'' (lru_example 8) [] = Some (c', w') \<and>
      fst (lru_Get ''k3'' c') = Some ''v3'') \<and>
   (\<exists>c' w'. lru_Add string_len ''k3'' ''too long'' (lru_example 8) [] = Some (c', w') \<and>
      lru_Len c' = 0)"
  using lru_Get_after_Add [OF lru_example_8(2), of "''k3''" "''v3''" "[]"]
    lru_Get_after_Add [OF lru_example_8(2), of "''k3''" "''too long''" "[]"]
  by (auto simp: lru_example_8 sizes_ok_def spec_put_def pair_size_def string_len_def)

text \<open>
  A negative limit makes \<^verbatim>\<open>Add\<close> loop for ever: once the list is empty,
  \<^verbatim>\<open>usedBytes\<close> is 0, still above the limit, and \<^verbatim>\<open>RemoveOldest\<close> has nothing to remove.
\<close>

theorem lru_Add_negative_limit_hangs:
  assumes "lru_wf vlen c" and "sint (maxBytes c) < 0"
    and "sizes_ok vlen (spec_put k v (lru_abs c))"
  shows "lru_Add vlen k v c w = None"
proof -
  note put = lru_put_refines [OF assms(1), of k v]
  have "0 \<le> pair_size vlen (k, v)"
    using assms(3) by (auto simp: sizes_ok_def spec_put_def pair_size_def)
  then have "fst (spec_evict vlen (maxBytes c) (spec_put k v (lru_abs c))) = []"
    using spec_evict_Cons_kept [of vlen "(k, v)" "filter (\<lambda>p. fst p \<noteq> k) (lru_abs c)" "maxBytes c"]
      assms(2,3) by (auto simp: spec_put_def)
  then show ?thesis
    using lru_evict_hangs [OF put(2)] assms(2) by (simp add: lru_Add_def put)
qed

theorem lru_Add_negative_limit_hangs_witness:
  "lru_Add string_len ''k'' ''v'' (lru_New (- 1) None) () = None"
  by (rule lru_Add_negative_limit_hangs)
    (simp_all add: lru_New_wf, simp_all add: lru_New_def sizes_ok_def spec_put_def pair_size_def
      string_len_def)



end
