(* ===== verification/Singleflight.thy ===== *)
theory Singleflight
  imports Go_Prelude
begin

section \<open>Package singleflight: concurrent calls of Group.Do\<close>

text \<open>
  \<^verbatim>\<open>CCache/singleflight/singleflight.go\<close>. Goroutines are numbered; each is at one point of
  \<^verbatim>\<open>Do\<close> (type \<open>pc\<close>). A step of goroutine \<open>t\<close> is \<open>sf_act t\<close>, one rule per action: the
  code between \<^verbatim>\<open>g.mu.Lock\<close> and \<^verbatim>\<open>g.mu.Unlock\<close> is one action of the lock holder, which
  loses nothing since \<^verbatim>\<open>g.m\<close> is accessed under the lock only. The results of \<^verbatim>\<open>fn\<close>
  have type \<open>'r\<close> (a value and an error); \<^verbatim>\<open>fn\<close> may also panic.
\<close>

subsection \<open>State\<close>

text \<open>
  The struct \<^verbatim>\<open>call\<close>: the counter of its \<^verbatim>\<open>WaitGroup\<close>, and \<^verbatim>\<open>val\<close> and \<^verbatim>\<open>err\<close>, which
  are unset (\<open>None\<close>) until \<^verbatim>\<open>fn\<close> has returned.
\<close>

record 'r call =
  wg :: nat
  result :: "'r option"

datatype 'r pc =
    Idle                       \<comment> \<open>not in \<^verbatim>\<open>Do\<close>\<close>
  | WantLock string            \<comment> \<open>at the first \<^verbatim>\<open>g.mu.Lock()\<close>\<close>
  | Checking string            \<comment> \<open>holds the lock, before the lookup\<close>
  | Waiting string nat         \<comment> \<open>at \<^verbatim>\<open>c.wg.Wait()\<close>\<close>
  | Running string nat         \<comment> \<open>inside \<^verbatim>\<open>fn()\<close>\<close>
  | Ran string nat             \<comment> \<open>before \<^verbatim>\<open>c.wg.Done()\<close>\<close>
  | WantRelock string nat      \<comment> \<open>at the second \<^verbatim>\<open>g.mu.Lock()\<close>\<close>
  | Cleaning string nat        \<comment> \<open>holds the lock, before \<^verbatim>\<open>delete(g.m, key)\<close>\<close>
  | Returning string nat       \<comment> \<open>at \<^verbatim>\<open>return c.val, c.err\<close>\<close>
  | Returned string nat "'r option"
  | Crashed string nat         \<comment> \<open>\<^verbatim>\<open>fn()\<close> panicked\<close>

record 'r sf =
  sf_mu :: "nat option"
  sf_m :: "(string \<rightharpoonup> nat) option"
  sf_calls :: "nat \<rightharpoonup> 'r call"
  sf_next :: nat
  sf_pc :: "nat \<Rightarrow> 'r pc"

text \<open>The entries of \<^verbatim>\<open>g.m\<close>, which is nil until the first \<^verbatim>\<open>Do\<close>.\<close>

definition sf_map :: "'r sf \<Rightarrow> string \<rightharpoonup> nat" where
  "sf_map s = (case sf_m s of None \<Rightarrow> Map.empty | Some m \<Rightarrow> m)"

definition sf_start :: "'r sf" where
  "sf_start = \<lparr>sf_mu = None, sf_m = None, sf_calls = Map.empty, sf_next = 0, sf_pc = (\<lambda>_. Idle)\<rparr>"

definition sf_init :: "'r sf \<Rightarrow> bool" where
  "sf_init s \<longleftrightarrow> s = sf_start"

subsection \<open>Steps\<close>

inductive sf_act :: "nat \<Rightarrow> 'r sf \<Rightarrow> 'r sf \<Rightarrow> bool" where
  sf_enter: "sf_pc s t = Idle \<Longrightarrow>
    sf_act t s (s\<lparr>sf_pc := (sf_pc s)(t := WantLock k)\<rparr>)"
| sf_lock: "sf_pc s t = WantLock k \<Longrightarrow> sf_mu s = None \<Longrightarrow>
    sf_act t s (s\<lparr>sf_mu := Some t, sf_pc := (sf_pc s)(t := Checking k)\<rparr>)"
| sf_join: "sf_pc s t = Checking k \<Longrightarrow> sf_map s k = Some c \<Longrightarrow>
    sf_act t s (s\<lparr>sf_m := Some (sf_map s), sf_mu := None, sf_pc := (sf_pc s)(t := Waiting k c)\<rparr>)"
| sf_lead: "sf_pc s t = Checking k \<Longrightarrow> sf_map s k = None \<Longrightarrow> c = sf_next s \<Longrightarrow>
    sf_act t s (s\<lparr>sf_calls := (sf_calls s)(c \<mapsto> \<lparr>wg = 1, result = None\<rparr>), sf_next := Suc c,
      sf_m := Some ((sf_map s)(k \<mapsto> c)), sf_mu := None, sf_pc := (sf_pc s)(t := Running k c)\<rparr>)"
| sf_fn_returns: "sf_pc s t = Running k c \<Longrightarrow> sf_calls s c = Some cl \<Longrightarrow>
    sf_act t s (s\<lparr>sf_calls := (sf_calls s)(c \<mapsto> cl\<lparr>result := Some r\<rparr>),
      sf_pc := (sf_pc s)(t := Ran k c)\<rparr>)"
| sf_fn_panics: "sf_pc s t = Running k c \<Longrightarrow>
    sf_act t s (s\<lparr>sf_pc := (sf_pc s)(t := Crashed k c)\<rparr>)"
| sf_done: "sf_pc s t = Ran k c \<Longrightarrow> sf_calls s c = Some cl \<Longrightarrow>
    sf_act t s (s\<lparr>sf_calls := (sf_calls s)(c \<mapsto> cl\<lparr>wg := wg cl - 1\<rparr>),
      sf_pc := (sf_pc s)(t := WantRelock k c)\<rparr>)"
| sf_relock: "sf_pc s t = WantRelock k c \<Longrightarrow> sf_mu s = None \<Longrightarrow>
    sf_act t s (s\<lparr>sf_mu := Some t, sf_pc := (sf_pc s)(t := Cleaning k c)\<rparr>)"
| sf_clean: "sf_pc s t = Cleaning k c \<Longrightarrow>
    sf_act t s (s\<lparr>sf_m := Some ((sf_map s)(k := None)), sf_mu := None,
      sf_pc := (sf_pc s)(t := Returning k c)\<rparr>)"
| sf_wake: "sf_pc s t = Waiting k c \<Longrightarrow> sf_calls s c = Some cl \<Longrightarrow> wg cl = 0 \<Longrightarrow>
    sf_act t s (s\<lparr>sf_pc := (sf_pc s)(t := Returning k c)\<rparr>)"
| sf_return: "sf_pc s t = Returning k c \<Longrightarrow> sf_calls s c = Some cl \<Longrightarrow>
    sf_act t s (s\<lparr>sf_pc := (sf_pc s)(t := Returned k c (result cl))\<rparr>)"

definition sf_step :: "'r sf \<Rightarrow> 'r sf \<Rightarrow> bool" where
  "sf_step s s' \<longleftrightarrow> (\<exists>t. sf_act t s s')"

lemma sf_map_upd [simp]:
  "sf_map (s\<lparr>sf_pc := p\<rparr>) = sf_map s"
  "sf_map (s\<lparr>sf_mu := u\<rparr>) = sf_map s"
  "sf_map (s\<lparr>sf_calls := cs\<rparr>) = sf_map s"
  "sf_map (s\<lparr>sf_next := n\<rparr>) = sf_map s"
  "sf_map (s\<lparr>sf_m := Some m\<rparr>) = m"
  by (simp_all add: sf_map_def)

subsection \<open>Invariant\<close>

text \<open>The goroutine that runs \<^verbatim>\<open>fn\<close> for a call, from its start to the removal from \<^verbatim>\<open>g.m\<close>.\<close>

fun leads :: "'r pc \<Rightarrow> (string \<times> nat) option" where
  "leads (Running k c) = Some (k, c)"
| "leads (Ran k c) = Some (k, c)"
| "leads (WantRelock k c) = Some (k, c)"
| "leads (Cleaning k c) = Some (k, c)"
| "leads (Crashed k c) = Some (k, c)"
| "leads _ = None"

fun holds_lock :: "'r pc \<Rightarrow> bool" where
  "holds_lock (Checking k) \<longleftrightarrow> True"
| "holds_lock (Cleaning k c) \<longleftrightarrow> True"
| "holds_lock _ \<longleftrightarrow> False"

text \<open>What the program point of a goroutine says of the call it refers to.\<close>

fun call_ok :: "(nat \<rightharpoonup> 'r call) \<Rightarrow> 'r pc \<Rightarrow> bool" where
  "call_ok cs (Running k c) \<longleftrightarrow> cs c = Some \<lparr>wg = 1, result = None\<rparr>"
| "call_ok cs (Ran k c) \<longleftrightarrow> (\<exists>r. cs c = Some \<lparr>wg = 1, result = Some r\<rparr>)"
| "call_ok cs (WantRelock k c) \<longleftrightarrow> (\<exists>r. cs c = Some \<lparr>wg = 0, result = Some r\<rparr>)"
| "call_ok cs (Cleaning k c) \<longleftrightarrow> (\<exists>r. cs c = Some \<lparr>wg = 0, result = Some r\<rparr>)"
| "call_ok cs (Crashed k c) \<longleftrightarrow> cs c = Some \<lparr>wg = 1, result = None\<rparr>"
| "call_ok cs (Waiting k c) \<longleftrightarrow> cs c \<noteq> None"
| "call_ok cs (Returning k c) \<longleftrightarrow> (\<exists>r. cs c = Some \<lparr>wg = 0, result = Some r\<rparr>)"
| "call_ok cs (Returned k c res) \<longleftrightarrow> (\<exists>r. cs c = Some \<lparr>wg = 0, result = Some r\<rparr> \<and> res = Some r)"
| "call_ok cs _ \<longleftrightarrow> True"

definition sf_inv :: "'r sf \<Rightarrow> bool" where
  "sf_inv s \<longleftrightarrow>
     (\<forall>t. sf_mu s = Some t \<longleftrightarrow> holds_lock (sf_pc s t)) \<and>
     (\<forall>t k c. leads (sf_pc s t) = Some (k, c) \<longrightarrow> sf_map s k = Some c) \<and>
     (\<forall>k c. sf_map s k = Some c \<longrightarrow> (\<exists>t. leads (sf_pc s t) = Some (k, c))) \<and>
     (\<forall>t t' k k' c c'. leads (sf_pc s t) = Some (k, c) \<longrightarrow> leads (sf_pc s t') = Some (k', c') \<longrightarrow>
        k = k' \<or> c = c' \<longrightarrow> t = t') \<and>
     (\<forall>c. sf_calls s c \<noteq> None \<longrightarrow> c < sf_next s) \<and>
     (\<forall>t. call_ok (sf_calls s) (sf_pc s t)) \<and>
     (\<forall>c cl. sf_calls s c = Some cl \<longrightarrow> wg cl = 0 \<longrightarrow> result cl \<noteq> None) \<and>
     (\<forall>c cl. sf_calls s c = Some cl \<longrightarrow> wg cl \<noteq> 0 \<longrightarrow>
        (\<exists>t k. sf_pc s t \<in> {Running k c, Ran k c, Crashed k c}))"

lemma sf_inv_D:
  assumes "sf_inv s"
  shows "sf_mu s = Some t \<longleftrightarrow> holds_lock (sf_pc s t)"
    and "leads (sf_pc s t) = Some (k, c) \<Longrightarrow> sf_map s k = Some c"
    and "sf_map s k = Some c \<Longrightarrow> \<exists>t. leads (sf_pc s t) = Some (k, c)"
    and "leads (sf_pc s t) = Some (k, c) \<Longrightarrow> leads (sf_pc s t') = Some (k', c') \<Longrightarrow>
      k = k' \<or> c = c' \<Longrightarrow> t = t'"
    and "sf_calls s c \<noteq> None \<Longrightarrow> c < sf_next s"
    and "call_ok (sf_calls s) (sf_pc s t)"
    and "sf_calls s c = Some cl \<Longrightarrow> wg cl = 0 \<Longrightarrow> result cl \<noteq> None"
    and "sf_calls s c = Some cl \<Longrightarrow> wg cl \<noteq> 0 \<Longrightarrow>
      \<exists>t k. sf_pc s t \<in> {Running k c, Ran k c, Crashed k c}"
  using assms unfolding sf_inv_def by metis+

lemma leads_referenced:
  "leads p = Some (k, c) \<Longrightarrow> call_ok cs p \<Longrightarrow> cs c \<noteq> None"
  by (cases p) auto

text \<open>A change of the call record of a leader leaves what the other goroutines rely on.\<close>

lemma call_ok_new:
  "call_ok cs p \<Longrightarrow> cs c = None \<Longrightarrow> call_ok (cs(c \<mapsto> x)) p"
  by (cases p) auto

lemma call_ok_upd:
  assumes "call_ok cs p" and "cs c = Some cl" and "wg cl = 1"
    and "\<And>k. leads p \<noteq> Some (k, c)"
  shows "call_ok (cs(c \<mapsto> x)) p"
  using assms by (cases p) (auto split: if_splits)

lemma sf_inv_start: "sf_init s \<Longrightarrow> sf_inv s"
  by (simp add: sf_inv_def sf_init_def sf_start_def sf_map_def)

subsection \<open>Every action keeps the invariant\<close>

lemma sf_inv_lock:
  assumes "sf_inv s" "sf_act t s s'"
  shows "sf_mu s' = Some u \<longleftrightarrow> holds_lock (sf_pc s' u)"
  using assms(2) sf_inv_D(1) [OF assms(1), of u] sf_inv_D(1) [OF assms(1), of t]
  by (cases rule: sf_act.cases) (auto split: if_splits)

lemma sf_inv_leads_map:
  assumes "sf_inv s" "sf_act t s s'" "leads (sf_pc s' u) = Some (k, c)"
  shows "sf_map s' k = Some c"
  using assms(2,3) sf_inv_D(2) [OF assms(1)] sf_inv_D(4) [OF assms(1), of t _ _ u]
  by (cases rule: sf_act.cases) (fastforce split: if_splits)+

lemma sf_inv_map_leads:
  assumes "sf_inv s" "sf_act t s s'" "sf_map s' k = Some c"
  shows "\<exists>u. leads (sf_pc s' u) = Some (k, c)"
proof -
  have old: "\<exists>u. leads (sf_pc s' u) = Some (k, c)"
    if map: "sf_map s k = Some c"
      and same: "leads (sf_pc s t) = None \<or> leads (sf_pc s t) = leads (sf_pc s' t)"
  proof -
    obtain u where u: "leads (sf_pc s u) = Some (k, c)"
      using sf_inv_D(3) [OF assms(1) map] by blast
    have "sf_pc s' v = sf_pc s v" if "v \<noteq> t" for v
      using assms(2) that by (cases rule: sf_act.cases) auto
    with u same show ?thesis by (metis option.distinct(1))
  qed
  show ?thesis
    using assms(2)
  proof (cases rule: sf_act.cases)
    case (sf_lead k' c')
    with assms(3) old show ?thesis by (cases "k = k'") (auto intro: exI [where x = t])
  next
    case (sf_clean k' c')
    then have map: "sf_map s k = Some c" "k \<noteq> k'" using assms(3) by (auto split: if_splits)
    then obtain u where u: "leads (sf_pc s u) = Some (k, c)"
      using sf_inv_D(3) [OF assms(1)] by blast
    with map(2) sf_clean have "u \<noteq> t" by auto
    with u sf_clean(1) show ?thesis by (auto intro: exI [where x = u])
  qed (use assms(3) old in auto)
qed

lemma sf_inv_leads_unique:
  assumes "sf_inv s" "sf_act t s s'"
    and "leads (sf_pc s' u) = Some (k, c)" "leads (sf_pc s' v) = Some (k', c')" "k = k' \<or> c = c'"
  shows "u = v"
proof -
  have fresh: "leads (sf_pc s w) \<noteq> Some (x, sf_next s)" for w x
    using sf_inv_D(5,6) [OF assms(1)] leads_referenced by (metis less_irrefl)
  have absent: "leads (sf_pc s w) \<noteq> Some (x, d)" if "sf_map s x = None" for w x d
    using sf_inv_D(2) [OF assms(1)] that by force
  note unique = sf_inv_D(4) [OF assms(1), of u k c v k' c']
  show ?thesis
    using assms(2)
  proof (cases rule: sf_act.cases)
    case (sf_lead k0 c0)
    then show ?thesis
      using assms(3-5) unique fresh absent by (auto split: if_splits)
  qed (use assms(3-5) unique in \<open>auto split: if_splits\<close>)
qed

lemma sf_inv_calls_bound:
  assumes "sf_inv s" "sf_act t s s'" "sf_calls s' c \<noteq> None"
  shows "c < sf_next s'"
  using assms(2,3) sf_inv_D(5) [OF assms(1)]
  by (cases rule: sf_act.cases) (auto split: if_splits intro: less_SucI)

lemma sf_inv_call_ok:
  assumes "sf_inv s" "sf_act t s s'"
  shows "call_ok (sf_calls s') (sf_pc s' u)"
proof -
  note ok = sf_inv_D(6) [OF assms(1)]
  have ok_t: "call_ok (sf_calls s) (sf_pc s t)" by (rule ok)
  have next_free: "sf_calls s (sf_next s) = None"
    using sf_inv_D(5) [OF assms(1)] by blast
  have other: "call_ok ((sf_calls s)(c \<mapsto> x)) (sf_pc s u)"
    if "u \<noteq> t" "leads (sf_pc s t) = Some (k, c)" "sf_calls s c = Some cl" "wg cl = 1" for k c cl x
    using call_ok_upd [OF ok that(3,4)] sf_inv_D(4) [OF assms(1) that(2), of u] that(1) by metis
  show ?thesis
    using assms(2)
  proof (cases rule: sf_act.cases)
    case (sf_lead k c)
    then show ?thesis using ok [of u] next_free by (auto intro: call_ok_new)
  next
    case (sf_fn_returns k c cl r)
    then show ?thesis using ok_t other [of k c cl] by auto
  next
    case (sf_done k c cl)
    then show ?thesis using ok_t other [of k c cl] by auto
  next
    case (sf_wake k c cl)
    then have "result cl \<noteq> None" using sf_inv_D(7) [OF assms(1)] by blast
    with sf_wake show ?thesis using ok [of u] by (cases cl) auto
  next
    case (sf_join k c)
    then obtain v where "leads (sf_pc s v) = Some (k, c)" using sf_inv_D(3) [OF assms(1)] by blast
    with leads_referenced ok have "sf_calls s c \<noteq> None" by blast
    with sf_join show ?thesis using ok [of u] by auto
  qed (use ok [of u] ok_t in auto)
qed

lemma sf_inv_record:
  assumes "sf_inv s" "sf_act t s s'" "sf_calls s' c = Some cl" "wg cl = 0"
  shows "result cl \<noteq> None"
  using assms(2)
proof (cases rule: sf_act.cases)
  case (sf_done k d dl)
  then have "\<exists>r. result dl = Some r" using sf_inv_D(6) [OF assms(1), of t] by auto
  with sf_done show ?thesis
    using assms(3,4) sf_inv_D(7) [OF assms(1)] by (auto split: if_splits)
qed (use assms(3,4) sf_inv_D(7) [OF assms(1)] in \<open>auto split: if_splits\<close>)

lemma sf_inv_pending:
  assumes "sf_inv s" "sf_act t s s'" "sf_calls s' c = Some cl" "wg cl \<noteq> 0"
  shows "\<exists>u k. sf_pc s' u \<in> {Running k c, Ran k c, Crashed k c}"
proof -
  have move: "\<exists>u k. sf_pc s' u \<in> {Running k c, Ran k c, Crashed k c}"
    if old: "\<exists>cl. sf_calls s c = Some cl \<and> wg cl \<noteq> 0"
      and other: "\<And>v. v \<noteq> t \<Longrightarrow> sf_pc s' v = sf_pc s v"
      and pc: "\<And>k. sf_pc s t \<in> {Running k c, Ran k c, Crashed k c} \<Longrightarrow>
        sf_pc s' t \<in> {Running k c, Ran k c, Crashed k c}"
  proof -
    obtain u k where "sf_pc s u \<in> {Running k c, Ran k c, Crashed k c}"
      using sf_inv_D(8) [OF assms(1)] old by blast
    then show ?thesis using other pc by (cases "u = t") metis+
  qed
  note ok = sf_inv_D(6) [OF assms(1), of t]
  show ?thesis
    using assms(2)
  proof (cases rule: sf_act.cases)
    case (sf_lead k d)
    then show ?thesis
      by (cases "d = c") (use assms(3,4) move in \<open>auto intro: exI [where x = t]\<close>)
  next
    case (sf_fn_returns k d dl r)
    with ok show ?thesis
      by (cases "d = c") (use assms(3,4) move in \<open>auto intro: exI [where x = t]\<close>)
  next
    case (sf_done k d dl)
    with ok have "d \<noteq> c" using assms(3,4) by auto
    with sf_done show ?thesis using assms(3,4) by (intro move) auto
  next
    case (sf_fn_panics k d)
    then show ?thesis using assms(3,4) by (intro move) auto
  qed (insert assms(3,4), (rule move; fastforce)+)
qed

lemma sf_inv_act:
  assumes "sf_inv s" "sf_act t s s'"
  shows "sf_inv s'"
  unfolding sf_inv_def
  using sf_inv_lock [OF assms] sf_inv_leads_map [OF assms] sf_inv_map_leads [OF assms]
    sf_inv_leads_unique [OF assms] sf_inv_calls_bound [OF assms] sf_inv_call_ok [OF assms]
    sf_inv_record [OF assms] sf_inv_pending [OF assms]
  by (intro conjI allI impI) assumption+

interpretation sf: inductive_invariant sf_init sf_step sf_inv
  by unfold_locales (auto simp: sf_step_def intro: sf_inv_start sf_inv_act)

subsection \<open>Progress\<close>

fun in_progress :: "'r pc \<Rightarrow> bool" where
  "in_progress Idle \<longleftrightarrow> False"
| "in_progress (Returned k c r) \<longleftrightarrow> False"
| "in_progress (Crashed k c) \<longleftrightarrow> False"
| "in_progress _ \<longleftrightarrow> True"

text \<open>How many actions a goroutine has at most left.\<close>

fun sf_rank :: "'r pc \<Rightarrow> nat" where
  "sf_rank Idle = 8"
| "sf_rank (WantLock k) = 7"
| "sf_rank (Checking k) = 6"
| "sf_rank (Running k c) = 5"
| "sf_rank (Ran k c) = 4"
| "sf_rank (WantRelock k c) = 3"
| "sf_rank (Waiting k c) = 2"
| "sf_rank (Cleaning k c) = 2"
| "sf_rank (Returning k c) = 1"
| "sf_rank (Returned k c r) = 0"
| "sf_rank (Crashed k c) = 0"

lemma sf_act_rank:
  "sf_act t s s' \<Longrightarrow> sf_rank (sf_pc s' t) < sf_rank (sf_pc s t) \<and> (\<forall>u. u \<noteq> t \<longrightarrow> sf_pc s' u = sf_pc s u)"
  by (induction rule: sf_act.induct) auto

text \<open>
  A goroutine that needs neither a lock held by another one nor a running call can act,
  without a panic of \<^verbatim>\<open>fn\<close>.
\<close>

definition can_act :: "nat \<Rightarrow> 'r sf \<Rightarrow> bool" where
  "can_act t s \<longleftrightarrow> (\<exists>s'. sf_act t s s' \<and> (\<forall>k c. sf_pc s' t \<noteq> Crashed k c))"

lemma can_actI: "sf_act t s s' \<Longrightarrow> (\<And>k c. sf_pc s' t \<noteq> Crashed k c) \<Longrightarrow> can_act t s"
  unfolding can_act_def by blast

lemma sf_act_enabled:
  assumes "sf_inv s" "in_progress (sf_pc s t)"
    and "\<And>k. sf_pc s t = WantLock k \<Longrightarrow> sf_mu s = None"
    and "\<And>k c. sf_pc s t = WantRelock k c \<Longrightarrow> sf_mu s = None"
    and "\<And>k c cl. sf_pc s t = Waiting k c \<Longrightarrow> sf_calls s c = Some cl \<Longrightarrow> wg cl = 0"
  shows "can_act t s"
proof -
  have ok: "call_ok (sf_calls s) (sf_pc s t)" by (rule sf_inv_D(6) [OF assms(1)])
  show ?thesis
  proof (cases "sf_pc s t")
    case (WantLock k)
    then show ?thesis by (intro can_actI [OF sf_lock [OF WantLock]]) (use assms(3) in auto)
  next
    case (Checking k)
    then show ?thesis
    proof (cases "sf_map s k")
      case None
      then show ?thesis by (intro can_actI [OF sf_lead [OF Checking]]) auto
    next
      case (Some c)
      then show ?thesis by (intro can_actI [OF sf_join [OF Checking]]) auto
    qed
  next
    case (Waiting k c)
    then obtain cl where cl: "sf_calls s c = Some cl" using ok by auto
    with Waiting assms(5) show ?thesis by (intro can_actI [OF sf_wake [OF Waiting cl]]) auto
  next
    case (Running k c)
    then have cl: "sf_calls s c = Some \<lparr>wg = 1, result = None\<rparr>" using ok by simp
    show ?thesis by (intro can_actI [OF sf_fn_returns [OF Running cl]]) auto
  next
    case (Ran k c)
    then obtain cl where cl: "sf_calls s c = Some cl" using ok by auto
    show ?thesis by (intro can_actI [OF sf_done [OF Ran cl]]) auto
  next
    case (WantRelock k c)
    then show ?thesis by (intro can_actI [OF sf_relock [OF WantRelock]]) (use assms(4) in auto)
  next
    case (Cleaning k c)
    then show ?thesis by (intro can_actI [OF sf_clean [OF Cleaning]]) auto
  next
    case (Returning k c)
    then obtain cl where cl: "sf_calls s c = Some cl" using ok by auto
    show ?thesis by (intro can_actI [OF sf_return [OF Returning cl]]) auto
  qed (use assms(2) in simp_all)
qed

lemma holds_lock_in_progress: "holds_lock p \<Longrightarrow> in_progress p"
  by (cases p) auto

lemma sf_progress_inv:
  assumes "sf_inv s" "\<And>t k c. sf_pc s t \<noteq> Crashed k c" "in_progress (sf_pc s t)"
  shows "\<exists>u. in_progress (sf_pc s u) \<and> can_act u s"
proof (cases "sf_mu s")
  case (Some u)
  then have lock: "holds_lock (sf_pc s u)" using sf_inv_D(1) [OF assms(1)] by blast
  then have "in_progress (sf_pc s u)" by (rule holds_lock_in_progress)
  moreover have "can_act u s"
    by (rule sf_act_enabled [OF assms(1) calculation]) (use lock in auto)
  ultimately show ?thesis by blast
next
  case None
  show ?thesis
  proof (cases "\<exists>k c cl. sf_pc s t = Waiting k c \<and> sf_calls s c = Some cl \<and> wg cl \<noteq> 0")
    case True
    then obtain u k c where "sf_pc s u \<in> {Running k c, Ran k c, Crashed k c}"
      using sf_inv_D(8) [OF assms(1)] by blast
    then have u: "sf_pc s u \<in> {Running k c, Ran k c}" using assms(2) by auto
    then have "in_progress (sf_pc s u)" by auto
    moreover have "can_act u s"
      by (rule sf_act_enabled [OF assms(1) calculation]) (use u in auto)
    ultimately show ?thesis by blast
  next
    case False
    have "can_act t s"
      by (rule sf_act_enabled [OF assms(1,3)]) (use None False in auto)
    with assms(3) show ?thesis by blast
  qed
qed

subsection \<open>A panic in fn\<close>

lemma sf_crashed_act:
  assumes "sf_act u s s'" "sf_pc s t = Crashed k c"
  shows "sf_pc s' t = Crashed k c"
  using assms by (cases rule: sf_act.cases) auto

lemma sf_crashed_steps:
  "sf_step\<^sup>*\<^sup>* s s' \<Longrightarrow> sf_pc s t = Crashed k c \<Longrightarrow> sf_pc s' t = Crashed k c"
  by (induction rule: rtranclp_induct) (auto simp: sf_step_def intro: sf_crashed_act)

subsection \<open>Properties\<close>

text \<open>
  A run of three goroutines: 0 starts a call of \<^verbatim>\<open>fn\<close> for the key \<open>''a''\<close>, 1 joins it, and
  the call returns to both.
\<close>

definition sf_example_running :: "string sf" where
  "sf_example_running = \<lparr>sf_mu = None, sf_m = Some [''a'' \<mapsto> 0],
     sf_calls = [0 \<mapsto> \<lparr>wg = 1, result = None\<rparr>], sf_next = 1,
     sf_pc = (\<lambda>_. Idle)(0 := Running ''a'' 0, 1 := Waiting ''a'' 0)\<rparr>"

definition sf_example_returned :: "string sf" where
  "sf_example_returned = \<lparr>sf_mu = None, sf_m = Some Map.empty,
     sf_calls = [0 \<mapsto> \<lparr>wg = 0, result = Some ''v''\<rparr>], sf_next = 1,
     sf_pc = (\<lambda>_. Idle)(0 := Returned ''a'' 0 (Some ''v''), 1 := Returned ''a'' 0 (Some ''v''))\<rparr>"

lemma sf_reach_act: "reach sf_init sf_step s \<Longrightarrow> sf_act t s s' \<Longrightarrow> reach sf_init sf_step s'"
  by (rule reach_step) (auto simp: sf_step_def)

lemma sf_example_running_reach: "reach sf_init sf_step sf_example_running"
proof -
  note act = sf_reach_act
  have "reach sf_init sf_step sf_start" by (rule reach_init) (simp add: sf_init_def)
  from act [OF this sf_enter [where t = 0 and k = "''a''"]]
  have 1: "reach sf_init sf_step (sf_start\<lparr>sf_pc := (\<lambda>_. Idle)(0 := WantLock ''a'')\<rparr>)"
    by (simp add: sf_start_def)
  from act [OF 1 sf_lock [where t = 0 and k = "''a''"]]
  have 2: "reach sf_init sf_step (sf_start\<lparr>sf_mu := Some 0, sf_pc := (\<lambda>_. Idle)(0 := Checking ''a'')\<rparr>)"
    by (simp add: sf_start_def)
  from act [OF 2 sf_lead [where t = 0 and k = "''a''" and c = 0]]
  have 3: "reach sf_init sf_step \<lparr>sf_mu = None, sf_m = Some [''a'' \<mapsto> 0],
     sf_calls = [0 \<mapsto> \<lparr>wg = 1, result = None\<rparr>], sf_next = 1,
     sf_pc = (\<lambda>_. Idle)(0 := Running ''a'' 0)\<rparr>" (is "reach _ _ ?s")
    by (simp add: sf_start_def sf_map_def)
  from act [OF 3 sf_enter [where t = 1 and k = "''a''"]]
  have 4: "reach sf_init sf_step (?s\<lparr>sf_pc := (\<lambda>_. Idle)(0 := Running ''a'' 0, 1 := WantLock ''a'')\<rparr>)"
    by simp
  from act [OF 4 sf_lock [where t = 1 and k = "''a''"]]
  have 5: "reach sf_init sf_step (?s\<lparr>sf_mu := Some 1,
      sf_pc := (\<lambda>_. Idle)(0 := Running ''a'' 0, 1 := Checking ''a'')\<rparr>)"
    by simp
  from act [OF 5 sf_join [where t = 1 and k = "''a''" and c = 0]]
  show ?thesis by (simp add: sf_example_running_def sf_map_def)
qed

lemma sf_example_returned_reach: "reach sf_init sf_step sf_example_returned"
proof -
  note act = sf_reach_act
  let ?s = "\<lambda>m mu r w p q. \<lparr>sf_mu = mu, sf_m = Some m,
     sf_calls = [0 \<mapsto> \<lparr>wg = w, result = r\<rparr>], sf_next = 1,
     sf_pc = (\<lambda>_. Idle)(0 := p, 1 := q)\<rparr> :: string sf"
  have 1: "reach sf_init sf_step (?s [''a'' \<mapsto> 0] None None 1 (Running ''a'' 0) (Waiting ''a'' 0))"
    using sf_example_running_reach by (simp add: sf_example_running_def)
  from act [OF 1 sf_fn_returns [where t = 0 and r = "''v''" and k = "''a''" and c = 0 and cl = "\<lparr>wg = 1, result = None\<rparr>"]]
  have 2: "reach sf_init sf_step (?s [''a'' \<mapsto> 0] None (Some ''v'') 1 (Ran ''a'' 0) (Waiting ''a'' 0))"
    by (simp add: fun_upd_twist)
  from act [OF 2 sf_done [where t = 0 and k = "''a''" and c = 0 and cl = "\<lparr>wg = 1, result = Some ''v''\<rparr>"]]
  have 3: "reach sf_init sf_step (?s [''a'' \<mapsto> 0] None (Some ''v'') 0 (WantRelock ''a'' 0) (Waiting ''a'' 0))"
    by (simp add: fun_upd_twist)
  from act [OF 3 sf_wake [where t = 1 and k = "''a''" and c = 0 and cl = "\<lparr>wg = 0, result = Some ''v''\<rparr>"]]
  have 4: "reach sf_init sf_step (?s [''a'' \<mapsto> 0] None (Some ''v'') 0 (WantRelock ''a'' 0) (Returning ''a'' 0))"
    by (simp add: fun_upd_twist)
  from act [OF 4 sf_relock [where t = 0 and k = "''a''" and c = 0]]
  have 5: "reach sf_init sf_step (?s [''a'' \<mapsto> 0] (Some 0) (Some ''v'') 0 (Cleaning ''a'' 0) (Returning ''a'' 0))"
    by (simp add: fun_upd_twist)
  from act [OF 5 sf_clean [where t = 0 and k = "''a''" and c = 0]]
  have 6: "reach sf_init sf_step (?s Map.empty None (Some ''v'') 0 (Returning ''a'' 0) (Returning ''a'' 0))"
    by (simp add: fun_upd_twist sf_map_def)
  from act [OF 6 sf_return [where t = 0 and k = "''a''" and c = 0 and cl = "\<lparr>wg = 0, result = Some ''v''\<rparr>"]]
  have 7: "reach sf_init sf_step (?s Map.empty None (Some ''v'') 0 (Returned ''a'' 0 (Some ''v'')) (Returning ''a'' 0))"
    by (simp add: fun_upd_twist)
  from act [OF 7 sf_return [where t = 1 and k = "''a''" and c = 0 and cl = "\<lparr>wg = 0, result = Some ''v''\<rparr>"]]
  show ?thesis by (simp add: fun_upd_twist sf_example_returned_def)
qed

text \<open>
  Property C10. At most one goroutine executes \<^verbatim>\<open>fn\<close> for a key at a time, in every
  interleaving: from the start of \<^verbatim>\<open>fn\<close> until the key is removed from \<^verbatim>\<open>g.m\<close>, no other
  goroutine leads a call for that key.
\<close>

theorem sf_single_flight:
  assumes "reach sf_init sf_step s"
    and "leads (sf_pc s t) = Some (k, c)" and "leads (sf_pc s t') = Some (k, c')"
  shows "t = t' \<and> c = c' \<and> sf_map s k = Some c"
  using sf_inv_D(2,4) [OF sf.inv_reach [OF assms(1)]] assms(2,3) by fastforce

theorem sf_single_flight_witness:
  "(0::nat) = 0 \<and> (0::nat) = 0 \<and> sf_map sf_example_running ''a'' = Some 0"
  by (rule sf_single_flight [OF sf_example_running_reach, of 0 "''a''" 0 0 0])
    (simp_all add: sf_example_running_def)

text \<open>
  Property C21. All goroutines that share a call return the same result, which is the one
  \<^verbatim>\<open>fn\<close> returned to the goroutine that led the call: no caller sees the unset fields.
\<close>

theorem sf_callers_agree:
  assumes "reach sf_init sf_step s"
    and "sf_pc s t = Returned k c res" and "sf_pc s t' = Returned k' c res'"
  shows "res = res' \<and> (\<exists>r. res = Some r \<and> sf_calls s c = Some \<lparr>wg = 0, result = Some r\<rparr>)"
  using sf_inv_D(6) [OF sf.inv_reach [OF assms(1)], of t]
    sf_inv_D(6) [OF sf.inv_reach [OF assms(1)], of t'] assms(2,3) by auto

theorem sf_callers_agree_witness:
  "Some ''v'' = Some ''v'' \<and>
   (\<exists>r. Some ''v'' = Some r \<and> sf_calls sf_example_returned 0 = Some \<lparr>wg = 0, result = Some r\<rparr>)"
  by (rule sf_callers_agree [OF sf_example_returned_reach, of 0 "''a''" 0 _ 1 "''a''"])
    (simp_all add: sf_example_returned_def)

text \<open>
  Property C30. \<^verbatim>\<open>Do\<close> does not deadlock: as long as \<^verbatim>\<open>fn\<close> has not panicked, some goroutine
  inside \<^verbatim>\<open>Do\<close> can act; each action brings its goroutine closer to its return and moves no
  other, so a bounded number of actions lets every caller return.
\<close>

theorem sf_no_deadlock:
  assumes "reach sf_init sf_step s" and "\<forall>t k c. sf_pc s t \<noteq> Crashed k c"
    and "in_progress (sf_pc s t)"
  shows "\<exists>u s'. in_progress (sf_pc s u) \<and> sf_act u s s' \<and> (\<forall>t k c. sf_pc s' t \<noteq> Crashed k c) \<and>
    sf_rank (sf_pc s' u) < sf_rank (sf_pc s u) \<and> (\<forall>v. v \<noteq> u \<longrightarrow> sf_pc s' v = sf_pc s v)"
proof -
  obtain u s' where u: "in_progress (sf_pc s u)" "sf_act u s s'"
    and safe: "\<forall>k c. sf_pc s' u \<noteq> Crashed k c"
    using sf_progress_inv [OF sf.inv_reach [OF assms(1)]] assms(2,3) unfolding can_act_def by blast
  note rank = sf_act_rank [OF u(2)]
  have "sf_pc s' v \<noteq> Crashed k c" for v k c
    using safe rank assms(2) by (cases "v = u") simp_all
  with u rank show ?thesis by blast
qed

theorem sf_no_deadlock_witness:
  "\<exists>u s'. in_progress (sf_pc sf_example_running u) \<and> sf_act u sf_example_running s' \<and>
    sf_rank (sf_pc s' u) < sf_rank (sf_pc sf_example_running u)"
proof -
  have "\<forall>t k c. sf_pc sf_example_running t \<noteq> Crashed k c"
    and "in_progress (sf_pc sf_example_running 1)" by (simp_all add: sf_example_running_def)
  from sf_no_deadlock [OF sf_example_running_reach this] show ?thesis by metis
qed

text \<open>
  Property C37. A panic of \<^verbatim>\<open>fn\<close> poisons its key: \<^verbatim>\<open>c.wg.Done\<close> and the removal from \<^verbatim>\<open>g.m\<close>
  are skipped, so in every later state the key is still in the map and each goroutine that
  joined the call waits and can never act again.
\<close>

theorem sf_panic_poisons_key:
  assumes "reach sf_init sf_step s" and "sf_pc s t = Crashed k c" and "sf_step\<^sup>*\<^sup>* s s'"
  shows "sf_map s' k = Some c \<and> (\<forall>u. sf_pc s' u = Waiting k c \<longrightarrow> (\<forall>s''. \<not> sf_act u s' s'')) \<and>
    (\<forall>u res. sf_pc s' u \<noteq> Returned k c res)"
proof -
  have inv: "sf_inv s'" by (rule sf.inv_steps [OF assms(3) sf.inv_reach [OF assms(1)]])
  have crashed: "sf_pc s' t = Crashed k c" by (rule sf_crashed_steps [OF assms(3,2)])
  then have call: "sf_calls s' c = Some \<lparr>wg = 1, result = None\<rparr>"
    using sf_inv_D(6) [OF inv, of t] by simp
  have "sf_map s' k = Some c" using sf_inv_D(2) [OF inv, of t k c] crashed by simp
  moreover have "\<not> sf_act u s' s''" if "sf_pc s' u = Waiting k c" for u s''
  proof
    assume "sf_act u s' s''"
    then show False by (cases rule: sf_act.cases) (use that call in auto)
  qed
  moreover have "sf_pc s' u \<noteq> Returned k c res" for u res
    using sf_inv_D(6) [OF inv, of u] call by auto
  ultimately show ?thesis by blast
qed

lemma sf_example_crashed_reach:
  "reach sf_init sf_step (sf_example_running\<lparr>sf_pc := (sf_pc sf_example_running)(0 := Crashed ''a'' 0)\<rparr>)"
  by (rule sf_reach_act [OF sf_example_running_reach sf_fn_panics])
    (simp add: sf_example_running_def)

theorem sf_panic_poisons_key_witness:
  "\<forall>s''. \<not> sf_act 1 (sf_example_running\<lparr>sf_pc := (sf_pc sf_example_running)(0 := Crashed ''a'' 0)\<rparr>) s''"
  using sf_panic_poisons_key [OF sf_example_crashed_reach, of 0 "''a''" 0, OF _ rtranclp.rtrancl_refl]
  by (simp add: sf_example_running_def)

end
