(* ===== verification/Consistent_Hash.thy ===== *)
theory Consistent_Hash
  imports Go_Prelude "HOL-Library.Multiset"
begin

section \<open>Package consistenthash: the hash ring\<close>

text \<open>
  \<^verbatim>\<open>CCache/consistenthash/consistent_hash.go\<close>. The record \<open>ring\<close> is the struct
  \<^verbatim>\<open>Map\<close>: the sorted list of the points of the ring, the real node of each point, and the
  number of points per node. Go \<^verbatim>\<open>int\<close> values are integers here: all points come from
  \<^verbatim>\<open>uint32\<close> hashes and are kept in the range of a 64-bit \<^verbatim>\<open>int\<close>.
  \<^verbatim>\<open>sort.Search\<close> is modelled as its binary search and \<^verbatim>\<open>crc32.ChecksumIEEE\<close> bit by bit.

  The specification of \<^verbatim>\<open>Get\<close> is the successor of the hash on the circle
  (\<open>successor\<close>); the lemmas show that the binary search finds it.
\<close>

unbundle bit_operations_syntax

subsection \<open>hash/crc32\<close>

fun crc32_shift :: "nat \<Rightarrow> uint32 \<Rightarrow> uint32" where
  "crc32_shift 0 c = c"
| "crc32_shift (Suc n) c =
     crc32_shift n (if bit c 0 then drop_bit 1 c XOR 0xEDB88320 else drop_bit 1 c)"

definition crc32_ChecksumIEEE :: "string \<Rightarrow> uint32" where
  "crc32_ChecksumIEEE bs =
     NOT (fold (\<lambda>b c. crc32_shift 8 (c XOR of_char b)) bs 0xFFFFFFFF)"

subsection \<open>Package sort\<close>

text \<open>The loop of \<^verbatim>\<open>sort.Search\<close> on the interval from \<open>i\<close> to \<open>j\<close>.\<close>

function search_loop :: "(nat \<Rightarrow> bool) \<Rightarrow> nat \<Rightarrow> nat \<Rightarrow> nat" where
  "search_loop f i j =
     (if i < j
      then (let h = (i + j) div 2
            in if \<not> f h then search_loop f (Suc h) j else search_loop f i h)
      else i)"
  by pat_completeness auto
termination
  by (relation "measure (\<lambda>(f, i, j). j - i)") auto

declare search_loop.simps [simp del]

definition sort_Search :: "nat \<Rightarrow> (nat \<Rightarrow> bool) \<Rightarrow> nat" where
  "sort_Search n f = search_loop f 0 n"

subsection \<open>State and operations\<close>

record ring =
  ring_hash :: "string \<Rightarrow> uint32"
  ring_keys :: "int list"
  ring_hashMap :: "int \<rightharpoonup> string"
  ring_replicas :: int

definition ring_NewMap :: "int \<Rightarrow> (string \<Rightarrow> uint32) option \<Rightarrow> ring" where
  "ring_NewMap replicas hash =
     \<lparr>ring_hash = (case hash of None \<Rightarrow> crc32_ChecksumIEEE | Some h \<Rightarrow> h),
      ring_keys = [], ring_hashMap = Map.empty, ring_replicas = replicas\<rparr>"

text \<open>The hash of the \<open>i\<close>-th point of a node, as an \<^verbatim>\<open>int\<close>.\<close>

definition ring_point :: "ring \<Rightarrow> string \<Rightarrow> int \<Rightarrow> int" where
  "ring_point m key i = uint (ring_hash m (itoa i @ key))"

text \<open>The body of the inner loop of \<^verbatim>\<open>Add\<close>.\<close>

definition ring_add_point :: "string \<Rightarrow> int \<Rightarrow> ring \<Rightarrow> ring" where
  "ring_add_point key i m =
     m\<lparr>ring_keys := ring_keys m @ [ring_point m key i],
       ring_hashMap := (ring_hashMap m)(ring_point m key i \<mapsto> key)\<rparr>"

definition ring_add_node :: "string \<Rightarrow> ring \<Rightarrow> ring" where
  "ring_add_node key m = fold (ring_add_point key) [0..ring_replicas m - 1] m"

definition ring_Add :: "string list \<Rightarrow> ring \<Rightarrow> ring" where
  "ring_Add keys m =
     (let m1 = fold ring_add_node keys m in m1\<lparr>ring_keys := sort (ring_keys m1)\<rparr>)"

definition ring_Get :: "ring \<Rightarrow> string \<Rightarrow> string" where
  "ring_Get m key =
     (if length (ring_keys m) = 0 then ''''
      else
        (let hashed = uint (ring_hash m key);
             idx = sort_Search (length (ring_keys m)) (\<lambda>i. ring_keys m ! i \<ge> hashed)
         in case ring_hashMap m (ring_keys m ! (idx mod length (ring_keys m))) of
              None \<Rightarrow> ''''
            | Some node \<Rightarrow> node))"

subsection \<open>The binary search\<close>

lemma search_loop_correct:
  assumes "i \<le> j" and "j \<le> n" and "\<And>x y. x \<le> y \<Longrightarrow> y < n \<Longrightarrow> f x \<Longrightarrow> f y"
    and "\<And>x. x < i \<Longrightarrow> \<not> f x" and "\<And>x. j \<le> x \<Longrightarrow> x < n \<Longrightarrow> f x"
  shows "search_loop f i j \<le> n \<and> (\<forall>x < search_loop f i j. \<not> f x) \<and>
    (search_loop f i j < n \<longrightarrow> f (search_loop f i j))"
  using assms
proof (induction f i j rule: search_loop.induct)
  case (1 f i j)
  let ?h = "(i + j) div 2"
  show ?case
  proof (cases "i < j")
    case False
    then have "search_loop f i j = i" by (subst search_loop.simps) simp
    moreover have "i = j" using False "1.prems"(1) by simp
    ultimately show ?thesis using "1.prems"(2,4,5) by simp
  next
    case True
    then have h: "?h < j" "i \<le> ?h" by auto
    show ?thesis
    proof (cases "f ?h")
      case f: True
      have eq: "search_loop f i j = search_loop f i ?h"
        using True f by (subst search_loop.simps) (simp add: Let_def)
      have "f x" if "?h \<le> x" "x < n" for x using "1.prems"(3) f that by blast
      then have "search_loop f i ?h \<le> n \<and> (\<forall>x < search_loop f i ?h. \<not> f x) \<and>
        (search_loop f i ?h < n \<longrightarrow> f (search_loop f i ?h))"
        by (intro "1.IH"(2) [OF True refl]) (use f h "1.prems"(1,2,4) in auto, rule "1.prems"(3))
      then show ?thesis unfolding eq .
    next
      case nf: False
      have eq: "search_loop f i j = search_loop f (Suc ?h) j"
        using True nf by (subst search_loop.simps) (simp add: Let_def)
      have "\<not> f x" if "x < Suc ?h" for x
        using "1.prems"(2,3) nf that h by (metis less_Suc_eq_le order_less_le_trans)
      then have "search_loop f (Suc ?h) j \<le> n \<and> (\<forall>x < search_loop f (Suc ?h) j. \<not> f x) \<and>
        (search_loop f (Suc ?h) j < n \<longrightarrow> f (search_loop f (Suc ?h) j))"
        by (intro "1.IH"(1) [OF True refl nf]) (use h(1) "1.prems"(2,5) in auto, rule "1.prems"(3))
      then show ?thesis unfolding eq .
    qed
  qed
qed

lemma sort_Search_least:
  assumes "\<And>x y. x \<le> y \<Longrightarrow> y < n \<Longrightarrow> f x \<Longrightarrow> f y"
  shows "sort_Search n f \<le> n" "x < sort_Search n f \<Longrightarrow> \<not> f x"
    "sort_Search n f < n \<Longrightarrow> f (sort_Search n f)"
  using search_loop_correct [of 0 n n f] assms unfolding sort_Search_def by auto

subsection \<open>The points of the nodes\<close>

definition node_points :: "ring \<Rightarrow> string \<Rightarrow> int set" where
  "node_points m key = ring_point m key ` {0..<ring_replicas m}"

lemma ring_add_points:
  "fold (ring_add_point key) is m
    = m\<lparr>ring_keys := ring_keys m @ map (ring_point m key) is,
        ring_hashMap := (\<lambda>p. if p \<in> ring_point m key ` set is then Some key else ring_hashMap m p)\<rparr>"
proof (induction "is" arbitrary: m)
  case Nil
  then show ?case by simp
next
  case (Cons i "is")
  have "ring_point (ring_add_point key i m) key = ring_point m key"
    by (simp add: ring_add_point_def ring_point_def fun_eq_iff)
  then show ?case
    using Cons [of "ring_add_point key i m"] by (auto simp: ring_add_point_def fun_eq_iff)
qed

text \<open>The last of a list of nodes that has a point claims it.\<close>

definition last_owner :: "ring \<Rightarrow> string list \<Rightarrow> int \<Rightarrow> string option" where
  "last_owner m keys p = find (\<lambda>k. p \<in> node_points m k) (rev keys)"

definition all_points :: "ring \<Rightarrow> string list \<Rightarrow> int list" where
  "all_points m keys = concat (map (\<lambda>k. map (ring_point m k) [0..ring_replicas m - 1]) keys)"

lemma upto_replicas: "set [0..n - 1] = {0..<n :: int}"
  by auto

lemma set_all_points: "set (all_points m keys) = (\<Union>k \<in> set keys. node_points m k)"
  unfolding all_points_def node_points_def upto_replicas [symmetric] by simp

lemma ring_points_cong:
  assumes "ring_hash m = ring_hash m'" and "ring_replicas m = ring_replicas m'"
  shows "node_points m = node_points m'" "all_points m = all_points m'"
    "last_owner m = last_owner m'"
proof -
  have point: "ring_point m = ring_point m'" using assms(1) by (simp add: ring_point_def fun_eq_iff)
  show nodes: "node_points m = node_points m'" "all_points m = all_points m'"
    by (simp_all add: node_points_def all_points_def point assms(2) fun_eq_iff)
  show "last_owner m = last_owner m'"
    by (simp add: last_owner_def nodes fun_eq_iff)
qed

lemma ring_add_node_eq:
  "ring_add_node key m
    = m\<lparr>ring_keys := ring_keys m @ all_points m [key],
        ring_hashMap := (\<lambda>p. if p \<in> node_points m key then Some key else ring_hashMap m p)\<rparr>"
  unfolding ring_add_node_def ring_add_points node_points_def all_points_def upto_replicas by simp

lemma ring_add_nodes_eq:
  "fold ring_add_node keys m
    = m\<lparr>ring_keys := ring_keys m @ all_points m keys,
        ring_hashMap := (\<lambda>p. case last_owner m keys p of None \<Rightarrow> ring_hashMap m p | Some k \<Rightarrow> Some k)\<rparr>"
proof (induction keys arbitrary: m)
  case Nil
  then show ?case by (simp add: all_points_def last_owner_def)
next
  case (Cons k keys)
  have cong: "all_points (ring_add_node k m) = all_points m"
    "last_owner (ring_add_node k m) = last_owner m"
    by (rule ring_points_cong; simp add: ring_add_node_eq)+
  have owner: "last_owner m (k # keys) p
    = (case last_owner m keys p of None \<Rightarrow> if p \<in> node_points m k then Some k else None | Some l \<Rightarrow> Some l)" for p
    by (simp add: last_owner_def find_append split: option.split)
  show ?case
    by (simp add: Cons cong owner) (simp add: ring_add_node_eq all_points_def fun_eq_iff
      split: option.split)
qed

lemma ring_Add_eq:
  "ring_Add keys m
    = m\<lparr>ring_keys := sort (ring_keys m @ all_points m keys),
        ring_hashMap := (\<lambda>p. case last_owner m keys p of None \<Rightarrow> ring_hashMap m p | Some k \<Rightarrow> Some k)\<rparr>"
  by (simp add: ring_Add_def Let_def ring_add_nodes_eq)

lemma ring_Add_frame [simp]:
  "ring_hash (ring_Add keys m) = ring_hash m" "ring_replicas (ring_Add keys m) = ring_replicas m"
  by (simp_all add: ring_Add_eq)

lemma ring_Add_keys:
  "set (ring_keys (ring_Add keys m)) = set (ring_keys m) \<union> (\<Union>k \<in> set keys. node_points m k)"
  by (simp add: ring_Add_eq set_all_points)

lemma last_owner_Some: "last_owner m keys p = Some k \<Longrightarrow> k \<in> set keys \<and> p \<in> node_points m k"
  by (auto simp: last_owner_def find_Some_iff) (metis nth_mem set_rev length_rev)

lemma last_owner_None: "last_owner m keys p = None \<longleftrightarrow> (\<forall>k \<in> set keys. p \<notin> node_points m k)"
  by (auto simp: last_owner_def find_None_iff)

lemma sort_append_sort: "sort (sort xs @ ys) = sort (xs @ ys)"
  by (rule properties_for_sort) simp_all

text \<open>Adding nodes in two calls is adding them in one.\<close>

lemma ring_Add_append: "ring_Add (ks @ ls) m = ring_Add ls (ring_Add ks m)"
proof -
  have cong: "all_points (ring_Add ks m) = all_points m" "last_owner (ring_Add ks m) = last_owner m"
    by (rule ring_points_cong; simp)+
  have "all_points m (ks @ ls) = all_points m ks @ all_points m ls"
    by (simp add: all_points_def)
  moreover have "last_owner m (ks @ ls) p
    = (case last_owner m ls p of None \<Rightarrow> last_owner m ks p | Some l \<Rightarrow> Some l)" for p
    by (simp add: last_owner_def find_append split: option.split)
  ultimately show ?thesis
    unfolding ring_Add_eq [of ls "ring_Add ks m"] cong
    by (simp add: ring_Add_eq sort_append_sort fun_eq_iff split: option.split)
qed

subsection \<open>Well-formed rings\<close>

definition ring_wf :: "ring \<Rightarrow> bool" where
  "ring_wf m \<longleftrightarrow> sorted (ring_keys m) \<and> dom (ring_hashMap m) = set (ring_keys m)"

lemma ring_NewMap_wf: "ring_wf (ring_NewMap r h)"
  by (simp add: ring_wf_def ring_NewMap_def)

lemma ring_Add_wf: "ring_wf m \<Longrightarrow> ring_wf (ring_Add keys m)"
  unfolding ring_wf_def
  by (auto simp: ring_Add_eq set_all_points dom_def last_owner_None dest: last_owner_Some
    split: option.splits)

subsection \<open>Get is the successor on the circle\<close>

text \<open>The first point at or after a hash, or the first point of all when there is none.\<close>

definition successor :: "int set \<Rightarrow> int \<Rightarrow> int" where
  "successor S h = (if \<exists>p \<in> S. h \<le> p then Min {p \<in> S. h \<le> p} else Min S)"

lemma successor_in: "finite S \<Longrightarrow> S \<noteq> {} \<Longrightarrow> successor S h \<in> S"
  unfolding successor_def using Min_in [of S] Min_in [of "{p \<in> S. h \<le> p}"] by auto

text \<open>A larger set of points changes a successor only to a new point.\<close>

lemma successor_grow:
  assumes "finite S" "finite T" "S \<noteq> {}" "successor (S \<union> T) h \<in> S"
  shows "successor (S \<union> T) h = successor S h"
proof (cases "\<exists>p \<in> S \<union> T. h \<le> p")
  case True
  let ?U = "{p \<in> S \<union> T. h \<le> p}"
  have "Min ?U \<in> ?U" by (rule Min_in) (use assms True in auto)
  moreover have "successor (S \<union> T) h = Min ?U" using True by (simp add: successor_def)
  ultimately have mem: "Min ?U \<in> {p \<in> S. h \<le> p}" using assms(4) by simp
  have "Min {p \<in> S. h \<le> p} = Min ?U"
    by (rule Min_eqI) (use assms mem in \<open>auto intro: Min_le\<close>)
  with mem True show ?thesis by (auto simp: successor_def)
next
  case False
  then have "successor (S \<union> T) h = Min (S \<union> T)" "successor S h = Min S"
    by (auto simp: successor_def)
  moreover have "Min S = Min (S \<union> T)"
    by (rule Min_eqI) (use assms calculation in auto)
  ultimately show ?thesis by simp
qed

lemma sorted_search_successor:
  assumes "sorted ks" "ks \<noteq> []"
  shows "ks ! (sort_Search (length ks) (\<lambda>i. ks ! i \<ge> h) mod length ks) = successor (set ks) h"
proof -
  let ?f = "\<lambda>i. ks ! i \<ge> h" and ?n = "length ks"
  define i where "i = sort_Search ?n ?f"
  have mono: "?f y" if "x \<le> y" "y < ?n" "?f x" for x y
    using that(3) sorted_nth_mono [OF assms(1) that(1,2)] by (rule order_trans)
  have least: "i \<le> ?n" "\<And>x. x < i \<Longrightarrow> \<not> ?f x" "i < ?n \<Longrightarrow> ?f i"
    unfolding i_def by (rule sort_Search_least [of ?n ?f, OF mono]; assumption)+
  show ?thesis
  proof (cases "i < ?n")
    case True
    have le: "ks ! i \<le> p" if p: "p \<in> set ks" "h \<le> p" for p
    proof -
      obtain j where j: "p = ks ! j" "j < ?n" using p(1) by (auto simp: in_set_conv_nth)
      then have "i \<le> j" using least(2) [of j] p(2) by (cases "j < i") auto
      then show ?thesis unfolding j(1) by (rule sorted_nth_mono [OF assms(1) _ j(2)])
    qed
    have mem: "ks ! i \<in> {p \<in> set ks. h \<le> p}" using True least(3) by simp
    then have "Min {p \<in> set ks. h \<le> p} = ks ! i"
      using le by (intro Min_eqI) auto
    moreover have "\<exists>p \<in> set ks. h \<le> p" using mem by blast
    ultimately show ?thesis using True unfolding successor_def i_def [symmetric] by simp
  next
    case False
    then have n: "i = ?n" using least(1) by simp
    have "\<not> h \<le> p" if p: "p \<in> set ks" for p
      using p least(2) unfolding n in_set_conv_nth by blast
    then have "successor (set ks) h = Min (set ks)" by (auto simp: successor_def)
    also have "\<dots> = ks ! 0"
    proof (rule Min_eqI)
      show "ks ! 0 \<in> set ks" using assms(2) by simp
      show "ks ! 0 \<le> p" if p: "p \<in> set ks" for p
      proof -
        obtain j where j: "p = ks ! j" "j < ?n" using p by (auto simp: in_set_conv_nth)
        show ?thesis unfolding j(1) by (rule sorted_nth_mono [OF assms(1) _ j(2)]) simp
      qed
    qed simp
    finally show ?thesis using n unfolding i_def [symmetric] by simp
  qed
qed

lemma ring_Get_successor:
  assumes "ring_wf m" "ring_keys m \<noteq> []"
  shows "ring_hashMap m (successor (set (ring_keys m)) (uint (ring_hash m key)))
    = Some (ring_Get m key)"
proof -
  let ?p = "successor (set (ring_keys m)) (uint (ring_hash m key))"
  have "?p \<in> dom (ring_hashMap m)"
    using successor_in [of "set (ring_keys m)"] assms by (simp add: ring_wf_def)
  then obtain node where "ring_hashMap m ?p = Some node" by blast
  moreover from this have "ring_Get m key = node"
    using sorted_search_successor [of "ring_keys m" "uint (ring_hash m key)"] assms
    by (simp add: ring_Get_def Let_def ring_wf_def)
  ultimately show ?thesis by simp
qed

lemma ring_Get_empty: "ring_keys m = [] \<Longrightarrow> ring_Get m key = ''''"
  by (simp add: ring_Get_def)

subsection \<open>What adding nodes changes\<close>

lemma ring_Get_grow:
  assumes "ring_wf m"
  shows "ring_Get (ring_Add ks m) key \<in> insert (ring_Get m key) (set ks)"
proof -
  let ?m = "ring_Add ks m" and ?T = "\<Union>k \<in> set ks. node_points m k" and ?S = "set (ring_keys m)"
  let ?h = "uint (ring_hash m key)"
  have wf: "ring_wf ?m" by (rule ring_Add_wf [OF assms])
  have points: "set (ring_keys ?m) = ?S \<union> ?T" by (rule ring_Add_keys)
  have finT: "finite ?T" by (simp add: node_points_def)
  have owner: "ring_hashMap ?m p = (case last_owner m ks p of None \<Rightarrow> ring_hashMap m p | Some k \<Rightarrow> Some k)" for p
    by (simp add: ring_Add_eq)
  show ?thesis
  proof (cases "ring_keys ?m = []")
    case True
    then have "ring_keys m = []" using points by auto
    with True show ?thesis by (simp add: ring_Get_empty)
  next
    case False
    note get = ring_Get_successor [OF wf False, of key, unfolded points ring_Add_frame]
    show ?thesis
    proof (cases "last_owner m ks (successor (?S \<union> ?T) ?h)")
      case (Some k)
      with get owner have "ring_Get ?m key = k" by simp
      with last_owner_Some [OF Some] show ?thesis by simp
    next
      case None
      then have "successor (?S \<union> ?T) ?h \<notin> ?T" by (auto simp: last_owner_None)
      moreover have "successor (?S \<union> ?T) ?h \<in> ?S \<union> ?T"
      proof (rule successor_in)
        show "?S \<union> ?T \<noteq> {}" using False points by (metis set_empty)
      qed (use finT in simp)
      ultimately have S: "successor (?S \<union> ?T) ?h \<in> ?S" by blast
      then have ne: "?S \<noteq> {}" by auto
      have "successor (?S \<union> ?T) ?h = successor ?S ?h"
        by (rule successor_grow [OF _ finT ne S]) simp
      with get None owner ring_Get_successor [OF assms, of key] ne show ?thesis by simp
    qed
  qed
qed

text \<open>No point of one node is a point of another one.\<close>

definition no_collisions :: "ring \<Rightarrow> string list \<Rightarrow> bool" where
  "no_collisions m ks \<longleftrightarrow>
     (\<forall>k \<in> set ks. \<forall>l \<in> set ks. k \<noteq> l \<longrightarrow>
        (\<forall>i \<in> set [0..ring_replicas m - 1]. \<forall>j \<in> set [0..ring_replicas m - 1].
           ring_point m k i \<noteq> ring_point m l j))"

lemma no_collisions_owner:
  assumes "no_collisions m ks" "k \<in> set ks" "p \<in> node_points m k"
  shows "last_owner m ks p = Some k"
proof (cases "last_owner m ks p")
  case None
  with assms show ?thesis by (auto simp: last_owner_None)
next
  case (Some l)
  then have "l \<in> set ks" "p \<in> node_points m l" using last_owner_Some by blast+
  with assms have "k = l"
    unfolding no_collisions_def node_points_def upto_replicas by (auto 0 3)
  with Some show ?thesis by simp
qed

lemma ring_Add_order:
  assumes "no_collisions m ks" "mset ks = mset ls"
  shows "ring_Add ks m = ring_Add ls m"
proof -
  have set: "set ks = set ls" using assms(2) by (metis set_mset_mset)
  have "mset (all_points m ks) = mset (all_points m ls)"
    unfolding all_points_def mset_concat by (simp add: assms(2) flip: sum_mset_sum_list)
  then have "sort (ring_keys m @ all_points m ks) = sort (ring_keys m @ all_points m ls)"
    by (intro properties_for_sort) simp_all
  moreover have "last_owner m ks p = last_owner m ls p" for p
  proof (cases "last_owner m ks p")
    case None
    then have "last_owner m ls p = None" by (simp add: last_owner_None set)
    with None show ?thesis by simp
  next
    case (Some k)
    have "no_collisions m ls" using assms(1) by (simp add: no_collisions_def set)
    with last_owner_Some [OF Some] set have "last_owner m ls p = Some k"
      by (auto intro: no_collisions_owner)
    with Some show ?thesis by simp
  qed
  ultimately show ?thesis by (simp add: ring_Add_eq)
qed

subsection \<open>The contract of a ring\<close>

text \<open>
  What the pool of peers relies on: the ring built from a list of peers answers with one of
  them, or with the empty string, and a further peer takes keys over only for itself.
\<close>

locale peer_ring =
  fixes build :: "string list \<Rightarrow> 'm"
    and pick :: "'m \<Rightarrow> string \<Rightarrow> string"
  assumes pick_member: "pick (build ps) k \<noteq> '''' \<Longrightarrow> pick (build ps) k \<in> set ps"
    and pick_grow: "pick (build (ps @ [p])) k \<in> {pick (build ps) k, p}"
begin

lemma pick_grow_list: "pick (build (ps @ qs)) k \<in> insert (pick (build ps) k) (set qs)"
proof (induction qs rule: rev_induct)
  case Nil
  then show ?case by simp
next
  case (snoc q qs)
  then show ?case using pick_grow [of "ps @ qs" q k] by auto
qed

lemma pick_stable:
  "pick (build (ps @ qs)) k \<notin> set qs \<Longrightarrow> pick (build (ps @ qs)) k = pick (build ps) k"
  using pick_grow_list [of ps qs k] by blast

end

lemma ring_Get_member:
  assumes "ring_wf m" "ring_keys m = []"
  shows "ring_Get (ring_Add ks m) key = '''' \<or> ring_Get (ring_Add ks m) key \<in> set ks"
  using ring_Get_grow [OF assms(1), of ks key] assms(2) by (auto simp: ring_Get_empty)

interpretation ring: peer_ring "\<lambda>ps. ring_Add ps (ring_NewMap r h)" ring_Get
  for r :: int and h :: "(string \<Rightarrow> uint32) option"
proof
  show "ring_Get (ring_Add ps (ring_NewMap r h)) k \<in> set ps"
    if "ring_Get (ring_Add ps (ring_NewMap r h)) k \<noteq> ''''" for ps k
    using ring_Get_member [OF ring_NewMap_wf, of r h ps k] that by (simp add: ring_NewMap_def)
  show "ring_Get (ring_Add (ps @ [p]) (ring_NewMap r h)) k
    \<in> {ring_Get (ring_Add ps (ring_NewMap r h)) k, p}" for ps p k
    using ring_Get_grow [OF ring_Add_wf [OF ring_NewMap_wf], of "[p]" ps r h k]
    by (simp add: ring_Add_append)
qed

text \<open>With a positive number of replicas every key has a node.\<close>

lemma ring_Get_node:
  assumes "nodes \<noteq> []" and "0 < r"
  shows "ring_Get (ring_Add nodes (ring_NewMap r h)) key \<in> set nodes"
proof -
  let ?new = "ring_NewMap r h" and ?full = "ring_Add nodes (ring_NewMap r h)"
  have "set (ring_keys ?full) = set (ring_keys ?new) \<union> (\<Union>n \<in> set nodes. node_points ?new n)"
    by (rule ring_Add_keys)
  moreover have "ring_point ?new (hd nodes) 0 \<in> node_points ?new (hd nodes)"
    using assms(2) by (auto simp: node_points_def ring_NewMap_def)
  ultimately have "ring_keys ?full \<noteq> []" using hd_in_set [OF assms(1)] by force
  from ring_Get_successor [OF ring_Add_wf [OF ring_NewMap_wf] this, of key]
  show ?thesis
    by (auto simp: ring_Add_eq ring_NewMap_def dest: last_owner_Some split: option.splits)
qed

subsection \<open>Properties\<close>

text \<open>
  Property C14. On a ring built from any list of nodes, \<^verbatim>\<open>Get\<close> finds by binary search the
  node that owns the successor of the key's hash on the circle: the first point at or after
  the hash, or the lowest point when there is none. It is a node of the list, and the empty
  string exactly when the ring has no points.
\<close>

theorem ring_Get_correct:
  fixes nodes r h key
  defines "m \<equiv> ring_Add nodes (ring_NewMap r h)"
  shows "if (\<Union>n \<in> set nodes. node_points m n) = {} then ring_Get m key = ''''
    else ring_Get m key \<in> set nodes \<and>
      successor (\<Union>n \<in> set nodes. node_points m n) (uint (ring_hash m key))
        \<in> node_points m (ring_Get m key)"
proof -
  let ?m0 = "ring_NewMap r h"
  have cong: "node_points m = node_points ?m0" by (rule ring_points_cong) (simp_all add: m_def)
  have keys: "set (ring_keys m) = (\<Union>n \<in> set nodes. node_points ?m0 n)"
    unfolding m_def ring_Add_keys by (simp add: ring_NewMap_def)
  have wf: "ring_wf m" unfolding m_def by (rule ring_Add_wf [OF ring_NewMap_wf])
  have owner: "ring_hashMap m p = last_owner ?m0 nodes p" for p
    by (simp add: m_def ring_Add_eq ring_NewMap_def split: option.split)
  show ?thesis
  proof (cases "ring_keys m = []")
    case True
    then show ?thesis using keys by (simp add: cong ring_Get_empty)
  next
    case False
    note get = ring_Get_successor [OF wf False, of key, unfolded keys]
    with last_owner_Some [of ?m0 nodes] False keys show ?thesis by (auto simp: owner cong)
  qed
qed

text \<open>
  Consistency: adding a node to a ring moves a key only to the new node; every
  other key keeps its node, whatever the hash function and even when hashes collide.
\<close>

theorem ring_Add_moves_to_new_only:
  "ring_Get (ring_Add (nodes @ [new]) (ring_NewMap r h)) key = new \<or>
   ring_Get (ring_Add (nodes @ [new]) (ring_NewMap r h)) key
     = ring_Get (ring_Add nodes (ring_NewMap r h)) key"
  using ring.pick_grow [of nodes new r h key] by blast

text \<open>
  Property C35. Peers that add the same nodes in different orders agree on the node of every
  key, provided no two nodes share a point.
\<close>

theorem ring_order_independent:
  assumes "mset nodes = mset nodes'" and "no_collisions (ring_NewMap r h) nodes"
  shows "ring_Get (ring_Add nodes (ring_NewMap r h)) key
    = ring_Get (ring_Add nodes' (ring_NewMap r h)) key"
  using ring_Add_order [OF assms(2,1)] by simp

text \<open>The hash function of the package's test: the number that the key denotes.\<close>

definition atoi_hash :: "string \<Rightarrow> uint32" where
  "atoi_hash s = fold (\<lambda>c n. 10 * n + (of_char c - 48)) s 0"

definition test_ring :: "string list \<Rightarrow> ring" where
  "test_ring nodes = ring_Add nodes (ring_NewMap 3 (Some atoi_hash))"

lemma test_ring_eval:
  "[0..(2::int)] = [0, 1, 2]" "itoa 0 = ''0''" "itoa 1 = ''1''" "itoa 2 = ''2''"
  by code_simp+

text \<open>The expectations of \<^verbatim>\<open>TestConsistentHash\<close>, before and after the node 6 joins.\<close>

lemma test_ring_get:
  "map (ring_Get (test_ring [''1'', ''3'', ''5''])) [''2'', ''22'', ''24'', ''16'', ''26'']
    = [''3'', ''3'', ''5'', ''1'', ''1'']"
  "map (ring_Get (ring_Add [''6''] (test_ring [''1'', ''3'', ''5'']))) [''2'', ''22'', ''24'', ''16'', ''26'']
    = [''3'', ''3'', ''5'', ''6'', ''6'']"
  by code_simp+

text \<open>The checksum of a one-letter string, as published for CRC-32.\<close>

lemma crc32_a: "crc32_ChecksumIEEE ''a'' = 0xE8B7BE43"
  by code_simp

theorem ring_order_independent_witness:
  "ring_Get (ring_Add [''1'', ''3''] (ring_NewMap 3 (Some atoi_hash))) ''22''
     = ring_Get (ring_Add [''3'', ''1''] (ring_NewMap 3 (Some atoi_hash))) ''22''"
  by (rule ring_order_independent)
    (simp_all add: add_mset_commute no_collisions_def ring_NewMap_def ring_point_def
      test_ring_eval atoi_hash_def)

end
