(* ===== verification/CCache_Group.thy ===== *)
theory CCache_Group
  imports LRU_Cache Singleflight
begin

section \<open>Package ccache: byte views, the guarded cache and groups\<close>

text \<open>
  \<^verbatim>\<open>CCache/byteview.go\<close>, \<^verbatim>\<open>cache.go\<close>, \<^verbatim>\<open>peers.go\<close> and \<^verbatim>\<open>ccache.go\<close>.

  The first part models byte slices with their aliasing: a slice is the address of an array
  in a heap, so that the copies of \<^verbatim>\<open>cloneBytes\<close> are visible. The rest of the theory uses
  the contents of a view, which the first part shows to be constant.

  A group is a record of the fields of the struct \<^verbatim>\<open>Group\<close>. Its user-supplied getter and
  its peers act on a state of the environment, of type \<open>'w\<close>. The single-flight group is
  represented by the keys that are in its map: a call of \<^verbatim>\<open>Do\<close> by one goroutine for a key
  that is already there waits for ever, and a panic leaves the key there, as the theorem
  on a panic in the theory of the package singleflight shows. \<^verbatim>\<open>proto.Marshal\<close> is a
  parameter.
\<close>

subsection \<open>Byte slices and byteview.go\<close>

record byte_heap =
  arrays :: "nat \<Rightarrow> string"
  next_array :: nat

type_synonym slice = nat

text \<open>Evaluating \<^verbatim>\<open>cloneBytes(b)\<close>: a fresh array with the contents of \<^verbatim>\<open>b\<close>.\<close>

definition cloneBytes :: "slice \<Rightarrow> byte_heap \<Rightarrow> slice \<times> byte_heap" where
  "cloneBytes b h =
     (next_array h,
      h\<lparr>arrays := (arrays h)(next_array h := arrays h b), next_array := Suc (next_array h)\<rparr>)"

text \<open>The struct \<^verbatim>\<open>ByteView\<close> and its methods.\<close>

record ByteView =
  bv_b :: slice

definition bv_Len :: "ByteView \<Rightarrow> byte_heap \<Rightarrow> nat" where
  "bv_Len bv h = length (arrays h (bv_b bv))"

definition bv_String :: "ByteView \<Rightarrow> byte_heap \<Rightarrow> string" where
  "bv_String bv h = arrays h (bv_b bv)"

definition bv_ByteSlice :: "ByteView \<Rightarrow> byte_heap \<Rightarrow> slice \<times> byte_heap" where
  "bv_ByteSlice bv h = cloneBytes (bv_b bv) h"

text \<open>An assignment \<^verbatim>\<open>b[i] = c\<close> by any code that holds the slice; out of range it panics.\<close>

definition slice_write :: "slice \<Rightarrow> nat \<Rightarrow> char \<Rightarrow> byte_heap \<Rightarrow> byte_heap outcome" where
  "slice_write b i c h =
     (if i < length (arrays h b) then Ret (h\<lparr>arrays := (arrays h)(b := (arrays h b)[i := c])\<rparr>)
      else Panic ''index out of range'')"

fun slice_writes :: "slice \<Rightarrow> (nat \<times> char) list \<Rightarrow> byte_heap \<Rightarrow> byte_heap outcome" where
  "slice_writes b [] h = Ret h"
| "slice_writes b ((i, c) # ws) h = bind_outcome (slice_write b i c h) (slice_writes b ws)"

lemma slice_writes_frame:
  "slice_writes b ws h = Ret h' \<Longrightarrow> a \<noteq> b \<Longrightarrow> arrays h' a = arrays h a"
proof (induction ws arbitrary: h)
  case Nil
  then show ?case by simp
next
  case (Cons w ws)
  obtain i c where w: "w = (i, c)" by fastforce
  with Cons.prems obtain h1 where h1: "slice_write b i c h = Ret h1" "slice_writes b ws h1 = Ret h'"
    by (auto simp: bind_outcome_Ret_iff)
  from h1(1) Cons.prems(2) have "arrays h1 a = arrays h a"
    by (auto simp: slice_write_def split: if_splits)
  with Cons.IH [OF h1(2)] Cons.prems(2) show ?case by simp
qed

subsection \<open>cache.go\<close>

text \<open>The contents of a view, as the cache stores them; \<^verbatim>\<open>Len\<close> is the number of bytes.\<close>

type_synonym view = string

definition view_Len :: "view \<Rightarrow> int64" where
  "view_Len v = of_nat (length v)"

record cache =
  cache_lru :: "(view, unit) lru option"
  cacheBytes :: int64

text \<open>
  Both methods run under \<^verbatim>\<open>c.mu\<close>, so calls do not interleave. \<open>None\<close> is the eviction
  loop that never ends.
\<close>

definition cache_add :: "string \<Rightarrow> view \<Rightarrow> cache \<Rightarrow> cache option" where
  "cache_add key value c =
     (let l = (case cache_lru c of None \<Rightarrow> lru_New (cacheBytes c) None | Some l \<Rightarrow> l)
      in map_option (\<lambda>r. c\<lparr>cache_lru := Some (fst r)\<rparr>) (lru_Add view_Len key value l ()))"

definition cache_get :: "string \<Rightarrow> cache \<Rightarrow> view option \<times> cache" where
  "cache_get key c =
     (case cache_lru c of
        None \<Rightarrow> (None, c)
      | Some l \<Rightarrow> (fst (lru_Get key l), c\<lparr>cache_lru := Some (snd (lru_Get key l))\<rparr>))"

text \<open>What the cache holds, and its well-formedness.\<close>

definition cache_lookup :: "cache \<Rightarrow> string \<rightharpoonup> view" where
  "cache_lookup c = (case cache_lru c of None \<Rightarrow> Map.empty | Some l \<Rightarrow> map_of (lru_abs l))"

definition cache_ok :: "cache \<Rightarrow> bool" where
  "cache_ok c \<longleftrightarrow>
     (\<forall>l. cache_lru c = Some l \<longrightarrow> lru_wf view_Len l \<and> maxBytes l = cacheBytes c)"

lemma cache_add_lru:
  assumes "cache_ok c" "cache_add k v c = Some c'"
  obtains l l' where "cache_lru c' = Some l'" "cacheBytes c' = cacheBytes c"
    "lru_wf view_Len l" "maxBytes l = cacheBytes c" "map_of (lru_abs l) = cache_lookup c"
    "map_option fst (lru_Add view_Len k v l ()) = Some l'"
proof -
  let ?l = "case cache_lru c of None \<Rightarrow> lru_New (cacheBytes c) None | Some l \<Rightarrow> l"
  have "lru_wf view_Len ?l" "maxBytes ?l = cacheBytes c" "map_of (lru_abs ?l) = cache_lookup c"
    using assms(1) by (auto simp: cache_ok_def cache_lookup_def lru_New_wf split: option.split)
  moreover obtain r where "lru_Add view_Len k v ?l () = Some r" "c' = c\<lparr>cache_lru := Some (fst r)\<rparr>"
    using assms(2) by (auto simp: cache_add_def Let_def)
  ultimately show ?thesis by (intro that [of "fst r" ?l]) simp_all
qed

interpretation guarded: bounded_cache cache_add cache_get cache_lookup cacheBytes cache_ok
proof (unfold_locales, goal_cases)
  case (1 c k)
  then show ?case
    by (auto simp: cache_get_def cache_lookup_def cache_ok_def lru_Get_refines split: option.split)
next
  case (2 c k)
  then show ?case
    by (auto simp: cache_get_def cache_lookup_def cache_ok_def lru_Get_refines map_of_spec_touch
      split: option.split)
next
  case (3 c k)
  then show ?case
    by (auto simp: cache_get_def cache_ok_def lru_Get_refines lru.get_limit split: option.split)
next
  case (4 c k)
  then show ?case by (simp add: cache_get_def split: option.split)
next
  case (5 c k v c')
  then obtain l l' where new: "cache_lru c' = Some l'" and l: "lru_wf view_Len l"
    "map_of (lru_abs l) = cache_lookup c" "map_option fst (lru_Add view_Len k v l ()) = Some l'"
    by (rule cache_add_lru)
  from lru.add_lookup [OF l(1,3)] show ?case by (simp add: cache_lookup_def [of c'] new l(2))
next
  case (6 c k v c')
  from 6(1,2) obtain l l' where new: "cache_lru c' = Some l'" and l: "lru_wf view_Len l"
    "maxBytes l = cacheBytes c" "map_of (lru_abs l) = cache_lookup c"
    "map_option fst (lru_Add view_Len k v l ()) = Some l'"
    by (rule cache_add_lru)
  from lru.add_keeps_all [OF l(1,4)] 6(3) show ?case
    by (simp add: cache_lookup_def [of c'] new l(2,3))
next
  case (7 c k v c')
  then obtain l l' where new: "cache_lru c' = Some l'" "cacheBytes c' = cacheBytes c"
    and l: "lru_wf view_Len l" "maxBytes l = cacheBytes c"
    "map_option fst (lru_Add view_Len k v l ()) = Some l'"
    by (rule cache_add_lru)
  from lru.add_ok [OF l(1,3)] lru.add_limit [OF l(1,3)] show ?case
    by (simp add: cache_ok_def new l(2))
next
  case (8 c k v c')
  then show ?case by (rule cache_add_lru)
next
  case (9 c k v)
  let ?l = "case cache_lru c of None \<Rightarrow> lru_New (cacheBytes c) None | Some l \<Rightarrow> l"
  have "lru_wf view_Len ?l" "maxBytes ?l = cacheBytes c"
    using 9(1) by (auto simp: cache_ok_def lru_New_wf split: option.split)
  then show ?case
    using lru_Add_refines [of view_Len ?l k v "()"] 9(2) by (auto simp: cache_add_def Let_def)
qed

subsection \<open>peers.go and the messages of ccachepb\<close>

record pb_Request =
  pb_Group :: string
  pb_Key :: string

record pb_Response =
  pb_Value :: string

text \<open>
  The interface \<^verbatim>\<open>PeerGetter\<close>: a call acts on the environment and returns a pointer to a
  response, possibly nil, or an error; it may panic. The interface \<^verbatim>\<open>PeerPicker\<close> returns
  a getter or \<^verbatim>\<open>false\<close>.
\<close>

type_synonym 'w peer_getter =
  "pb_Request \<Rightarrow> 'w \<Rightarrow> (goerror + pb_Response option) outcome \<times> 'w"

type_synonym 'w peer_picker = "string \<Rightarrow> 'w \<Rightarrow> 'w peer_getter option"

subsection \<open>ccache.go\<close>

text \<open>The interface \<^verbatim>\<open>Getter\<close>; \<^verbatim>\<open>GetterFunc\<close> adapts a function to it.\<close>

type_synonym 'w getter = "string \<Rightarrow> 'w \<Rightarrow> (goerror + string) \<times> 'w"

definition GetterFunc_Get :: "(string \<Rightarrow> 'w \<Rightarrow> (goerror + string) \<times> 'w) \<Rightarrow> 'w getter" where
  "GetterFunc_Get f key = f key"

record 'w group =
  g_name :: string
  g_getter :: "'w getter"
  mainCache :: cache
  g_peers :: "'w peer_picker option"
  loading :: "string set"

type_synonym 'w groups = "string \<rightharpoonup> 'w group"

definition NewGroup ::
  "string \<Rightarrow> int64 \<Rightarrow> 'w getter option \<Rightarrow> 'w groups \<Rightarrow> ('w group \<times> 'w groups) outcome" where
  "NewGroup name bytes getter gs =
     (case getter of
        None \<Rightarrow> Panic ''nil getter''
      | Some f \<Rightarrow>
          (let g = \<lparr>g_name = name, g_getter = f,
                    mainCache = \<lparr>cache_lru = None, cacheBytes = bytes\<rparr>,
                    g_peers = None, loading = {}\<rparr>
           in Ret (g, gs(name \<mapsto> g))))"

definition GetGroup :: "string \<Rightarrow> 'w groups \<Rightarrow> 'w group option" where
  "GetGroup name gs = gs name"

definition RegisterPeers :: "'w peer_picker \<Rightarrow> 'w group \<Rightarrow> 'w group outcome" where
  "RegisterPeers peers g =
     (if g_peers g \<noteq> None then Panic ''register peers called more than once''
      else Ret (g\<lparr>g_peers := Some peers\<rparr>))"

definition populateCache :: "string \<Rightarrow> view \<Rightarrow> 'w group \<Rightarrow> 'w group outcome" where
  "populateCache key value g =
     (case cache_add key value (mainCache g) of
        None \<Rightarrow> Hang
      | Some c \<Rightarrow> Ret (g\<lparr>mainCache := c\<rparr>))"

text \<open>
  A method of a group returns its outcome, the group and the environment afterwards. In the
  state that a panic or a hang leaves behind, the group is the one at that point.
\<close>

type_synonym 'w group_result = "(goerror + view) outcome \<times> 'w group \<times> 'w"

definition getLocally :: "string \<Rightarrow> 'w group \<Rightarrow> 'w \<Rightarrow> 'w group_result" where
  "getLocally key g w =
     (case g_getter g key w of
        (Inl err, w1) \<Rightarrow> (Ret (Inl err), g, w1)
      | (Inr b, w1) \<Rightarrow>
          (case populateCache key b g of
             Ret g1 \<Rightarrow> (Ret (Inr b), g1, w1)
           | Panic m \<Rightarrow> (Panic m, g, w1)
           | Exit m \<Rightarrow> (Exit m, g, w1)
           | Hang \<Rightarrow> (Hang, g, w1)))"

definition getFromPeer ::
  "(pb_Response option \<Rightarrow> goerror + string) \<Rightarrow> 'w peer_getter \<Rightarrow> string \<Rightarrow> 'w group \<Rightarrow> 'w \<Rightarrow>
   'w group_result" where
  "getFromPeer marshal peer key g w =
     (case peer \<lparr>pb_Group = g_name g, pb_Key = key\<rparr> w of
        (Ret (Inl err), w1) \<Rightarrow> (Ret (Inl err), g, w1)
      | (Ret (Inr value), w1) \<Rightarrow>
          (case marshal value of
             Inl err \<Rightarrow> (Ret (Inl (''marshal proto msg err: '' @ err)), g, w1)
           | Inr bytes \<Rightarrow> (Ret (Inr bytes), g, w1))
      | (Panic m, w1) \<Rightarrow> (Panic m, g, w1)
      | (Exit m, w1) \<Rightarrow> (Exit m, g, w1)
      | (Hang, w1) \<Rightarrow> (Hang, g, w1))"

text \<open>\<^verbatim>\<open>g.peers\<close> is an interface; the method call panics when it is nil.\<close>

definition group_load ::
  "(pb_Response option \<Rightarrow> goerror + string) \<Rightarrow> string \<Rightarrow> 'w group \<Rightarrow> 'w \<Rightarrow> 'w group_result" where
  "group_load marshal key g w =
     (case g_peers g of
        None \<Rightarrow> (Panic ''nil pointer dereference'', g, w)
      | Some pick \<Rightarrow>
          (case pick key w of
             Some peer \<Rightarrow> getFromPeer marshal peer key g w
           | None \<Rightarrow> getLocally key g w))"

text \<open>The function that \<^verbatim>\<open>Get\<close> passes to \<^verbatim>\<open>Do\<close>.\<close>

definition group_lookup ::
  "(pb_Response option \<Rightarrow> goerror + string) \<Rightarrow> string \<Rightarrow> 'w group \<Rightarrow> 'w \<Rightarrow> 'w group_result" where
  "group_lookup marshal key g w =
     (case cache_get key (mainCache g) of
        (Some v, c) \<Rightarrow> (Ret (Inr v), g\<lparr>mainCache := c\<rparr>, w)
      | (None, c) \<Rightarrow> group_load marshal key (g\<lparr>mainCache := c\<rparr>) w)"

text \<open>
  \<^verbatim>\<open>Group.Get\<close>, called by one goroutine at a time: \<^verbatim>\<open>Do\<close> adds the key to its map, runs the
  function and removes the key when the function has returned.
\<close>

definition group_Get ::
  "(pb_Response option \<Rightarrow> goerror + string) \<Rightarrow> string \<Rightarrow> 'w group \<Rightarrow> 'w \<Rightarrow> 'w group_result" where
  "group_Get marshal key g w =
     (if key \<in> loading g then (Hang, g, w)
      else
        (case group_lookup marshal key (g\<lparr>loading := insert key (loading g)\<rparr>) w of
           (Ret r, g1, w1) \<Rightarrow> (Ret r, g1\<lparr>loading := loading g1 - {key}\<rparr>, w1)
         | (bad, g1, w1) \<Rightarrow> (bad, g1, w1)))"

subsection \<open>Lemmas\<close>

named_theorems group_defs \<open>the call chain of Group.Get\<close>

lemmas [group_defs] = group_Get_def group_lookup_def group_load_def getLocally_def getFromPeer_def
  populateCache_def

text \<open>Every value in the cache satisfies a predicate on its key.\<close>

definition cache_all :: "(string \<Rightarrow> view \<Rightarrow> bool) \<Rightarrow> cache \<Rightarrow> bool" where
  "cache_all P c \<longleftrightarrow> cache_ok c \<and> (\<forall>k v. cache_lookup c k = Some v \<longrightarrow> P k v)"

lemma cache_all_get:
  "cache_all P c \<Longrightarrow> cache_all P (snd (cache_get k c))"
  by (simp add: cache_all_def guarded.get_ok guarded.get_lookup)

lemma cache_all_add:
  assumes "cache_all P c" "cache_add k v c = Some c'" "P k v"
  shows "cache_all P c'"
  using guarded.add_lookup [of c k v c'] guarded.add_ok [of c k v c'] assms
  unfolding cache_all_def map_le_def by (metis domI fun_upd_apply option.inject)

lemma cache_get_hit:
  "cache_all P c \<Longrightarrow> fst (cache_get k c) = Some v \<Longrightarrow> P k v"
  by (simp add: cache_all_def guarded.get_result)

lemma group_load_cache:
  assumes "cache_all P (mainCache g)"
    and "\<And>k w b w'. g_getter g k w = (Inr b, w') \<Longrightarrow> P k b"
    and "group_load marshal key g w = (r, g', w')"
  shows "cache_all P (mainCache g')" "g_getter g' = g_getter g" "g_peers g' = g_peers g"
    "g_name g' = g_name g" "loading g' = loading g"
  using assms
  by (auto simp: group_load_def getLocally_def getFromPeer_def populateCache_def
    split: option.splits prod.splits sum.splits outcome.splits intro: cache_all_add)

lemma group_lookup_cache:
  assumes "cache_all P (mainCache g)"
    and "\<And>k w b w'. g_getter g k w = (Inr b, w') \<Longrightarrow> P k b"
    and "group_lookup marshal key g w = (r, g', w')"
  shows "cache_all P (mainCache g')" "g_getter g' = g_getter g" "g_peers g' = g_peers g"
    "g_name g' = g_name g" "loading g' = loading g"
proof -
  let ?c = "snd (cache_get key (mainCache g))"
  have c: "cache_all P ?c" by (rule cache_all_get [OF assms(1)])
  have "cache_all P (mainCache g') \<and> g_getter g' = g_getter g \<and> g_peers g' = g_peers g \<and>
    g_name g' = g_name g \<and> loading g' = loading g"
  proof (cases "fst (cache_get key (mainCache g))")
    case None
    with assms(3) have "group_load marshal key (g\<lparr>mainCache := ?c\<rparr>) w = (r, g', w')"
      by (cases "cache_get key (mainCache g)") (simp add: group_lookup_def)
    from group_load_cache [OF _ _ this, of P] c assms(2) show ?thesis by simp
  next
    case (Some v)
    with assms(3) c show ?thesis
      by (cases "cache_get key (mainCache g)") (auto simp: group_lookup_def)
  qed
  then show "cache_all P (mainCache g')" "g_getter g' = g_getter g" "g_peers g' = g_peers g"
    "g_name g' = g_name g" "loading g' = loading g" by simp_all
qed

text \<open>The entries of the cache, most recently used first.\<close>

definition cache_pairs :: "cache \<Rightarrow> view pairs" where
  "cache_pairs c = (case cache_lru c of None \<Rightarrow> [] | Some l \<Rightarrow> lru_abs l)"

text \<open>Room for an entry: it is within the limit of the cache, and the counts do not wrap.\<close>

definition cache_fits :: "string \<Rightarrow> view \<Rightarrow> cache \<Rightarrow> bool" where
  "cache_fits key v c \<longleftrightarrow>
     (cacheBytes c = 0 \<or> pair_size view_Len (key, v) \<le> sint (cacheBytes c)) \<and>
     0 \<le> sint (cacheBytes c) \<and> sizes_ok view_Len (spec_put key v (cache_pairs c))"

lemma cache_add_fits:
  assumes "cache_ok c" "cache_fits key v c"
  obtains c' where "cache_add key v c = Some c'" "cache_ok c'" "cache_lookup c' key = Some v"
proof -
  let ?l = "case cache_lru c of None \<Rightarrow> lru_New (cacheBytes c) None | Some l \<Rightarrow> l"
  have l: "lru_wf view_Len ?l" "maxBytes ?l = cacheBytes c" "lru_abs ?l = cache_pairs c"
    using assms(1) by (auto simp: cache_ok_def cache_pairs_def lru_New_wf split: option.split)
  obtain l' w' where l': "lru_Add view_Len key v ?l () = Some (l', w')"
    "map_of (lru_abs l') key = Some v"
    using lru_Add_retained [OF l(1), of key v "()"] assms(2) by (auto simp: cache_fits_def l)
  let ?c = "c\<lparr>cache_lru := Some l'\<rparr>"
  have "cache_add key v c = Some ?c" by (simp add: cache_add_def Let_def l'(1))
  moreover from this have "cache_ok ?c" by (rule guarded.add_ok [OF assms(1)])
  moreover have "cache_lookup ?c key = Some v" by (simp add: cache_lookup_def l'(2))
  ultimately show ?thesis by (rule that)
qed

lemma cache_get_pairs:
  "cache_ok c \<Longrightarrow> fst (cache_get k c) = None \<Longrightarrow> snd (cache_get k c) = c"
  by (auto simp: cache_get_def lru_Get_def Let_def split: option.splits)

lemma cache_get_miss:
  assumes "cache_ok c" "cache_lookup c k = None"
  shows "cache_get k c = (None, c)"
  using cache_get_pairs [OF assms(1), of k] guarded.get_result [OF assms(1), of k] assms(2)
  by (simp add: prod_eq_iff)

lemma cache_get_found:
  assumes "cache_ok c" "cache_lookup c k = Some v"
  obtains c' where "cache_get k c = (Some v, c')" "cache_lookup c' = cache_lookup c" "cache_ok c'"
  using guarded.get_result [OF assms(1), of k] guarded.get_lookup [OF assms(1), of k]
    guarded.get_ok [OF assms(1), of k] assms(2) by (metis prod.collapse)

text \<open>A miss of a key that no peer owns calls the getter and stores its value.\<close>

lemma group_Get_local_miss:
  assumes "cache_ok (mainCache g)" "cache_lookup (mainCache g) key = None" "key \<notin> loading g"
    and "g_peers g = Some pick" "pick key w = None" "g_getter g key w = (Inr b, w1)"
    and "cache_add key b (mainCache g) = Some c"
  shows "group_Get marshal key g w = (Ret (Inr b), g\<lparr>mainCache := c\<rparr>, w1)"
  using assms by (simp add: group_defs cache_get_miss)

lemma group_Get_hit:
  assumes "cache_ok (mainCache g)" "cache_lookup (mainCache g) key = Some v" "key \<notin> loading g"
  obtains c where "group_Get marshal key g w = (Ret (Inr v), g\<lparr>mainCache := c\<rparr>, w)"
    "cache_lookup c = cache_lookup (mainCache g)" "cache_ok c"
proof -
  obtain c where c: "cache_get key (mainCache g) = (Some v, c)"
    "cache_lookup c = cache_lookup (mainCache g)" "cache_ok c"
    using cache_get_found [OF assms(1,2)] by blast
  moreover have "group_Get marshal key g w = (Ret (Inr v), g\<lparr>mainCache := c\<rparr>, w)"
    using assms(3) c(1) by (simp add: group_Get_def group_lookup_def)
  ultimately show ?thesis using that by blast
qed

text \<open>A group of the witnesses: the database of the package's tests, no limit, no peer.\<close>

definition db_getter :: "nat getter" where
  "db_getter key calls =
     ((if key \<in> {''A'', ''B'', ''C''} then Inr key else Inl (''no '' @ key)), Suc calls)"

definition db_group :: "int64 \<Rightarrow> nat peer_picker option \<Rightarrow> nat group" where
  "db_group bytes peers =
     \<lparr>g_name = ''test'', g_getter = db_getter,
      mainCache = \<lparr>cache_lru = None, cacheBytes = bytes\<rparr>, g_peers = peers, loading = {}\<rparr>"

subsection \<open>Properties\<close>

text \<open>
  \<^verbatim>\<open>ByteSlice\<close> hands out a copy: it has the contents of the view, and no write
  through it, by any caller, changes what the view or any other view holds.
\<close>

theorem ByteSlice_isolated:
  assumes "bv_b bv < next_array h" and "bv_b other < next_array h"
    and "bv_ByteSlice bv h = (b, h1)" and "slice_writes b ws h1 = Ret h2"
  shows "arrays h1 b = bv_String bv h \<and> bv_String bv h2 = bv_String bv h \<and>
    bv_String other h2 = bv_String other h \<and> bv_Len bv h2 = bv_Len bv h"
proof -
  have h1: "b = next_array h" "arrays h1 = (arrays h)(b := arrays h (bv_b bv))"
    using assms(3) by (auto simp: bv_ByteSlice_def cloneBytes_def)
  have frame: "arrays h2 a = arrays h a" if "a < next_array h" for a
    using slice_writes_frame [OF assms(4), of a] that by (simp add: h1)
  show ?thesis
    using frame [OF assms(1)] frame [OF assms(2)] by (simp add: h1 bv_String_def bv_Len_def)
qed

theorem ByteSlice_isolated_witness:
  "bv_String \<lparr>bv_b = 0\<rparr> \<lparr>arrays = (\<lambda>_. ''xx'')(0 := ''ab'', 2 := ''zb''), next_array = 3\<rparr> = ''ab''"
proof -
  let ?h = "\<lparr>arrays = (\<lambda>_. ''xx'')(0 := ''ab''), next_array = 2\<rparr>"
  let ?h1 = "\<lparr>arrays = (\<lambda>_. ''xx'')(0 := ''ab'', 2 := ''ab''), next_array = 3\<rparr>"
  have "slice_writes 2 [(0, CHR ''z'')] ?h1
    = Ret \<lparr>arrays = (\<lambda>_. ''xx'')(0 := ''ab'', 2 := ''zb''), next_array = 3\<rparr>"
    by (simp add: slice_write_def)
  from ByteSlice_isolated [of "\<lparr>bv_b = 0\<rparr>" ?h "\<lparr>bv_b = 1\<rparr>" 2 ?h1, OF _ _ _ this]
  show ?thesis by (simp add: bv_ByteSlice_def cloneBytes_def bv_String_def)
qed

text \<open>
  Whatever the getter guarantees of the value it returns for a key (\<open>P\<close>) holds
  of every value that \<^verbatim>\<open>Get\<close> returns for a key of this node, whether it comes from the
  getter or from the cache, and of everything in the cache afterwards: \<^verbatim>\<open>Get\<close> keeps the
  group well-formed.
\<close>

theorem group_Get_faithful:
  assumes "cache_all P (mainCache g)"
    and "\<forall>k w b w'. g_getter g k w = (Inr b, w') \<longrightarrow> P k b"
    and "g_peers g = Some pick" and "pick key w = None"
    and "group_Get marshal key g w = (r, g', w')"
  shows "cache_all P (mainCache g') \<and> g_getter g' = g_getter g \<and> (\<forall>v. r = Ret (Inr v) \<longrightarrow> P key v)"
proof (cases "key \<in> loading g")
  case True
  with assms(1,5) show ?thesis by (auto simp: group_Get_def)
next
  case False
  let ?g = "g\<lparr>loading := insert key (loading g)\<rparr>"
  obtain r1 g1 w1 where lookup: "group_lookup marshal key ?g w = (r1, g1, w1)"
    by (cases "group_lookup marshal key ?g w")
  have result: "r = r1" "mainCache g' = mainCache g1" "g_getter g' = g_getter g1"
    using assms(5) False by (auto simp: group_Get_def lookup split: outcome.splits)
  have getter: "P k b" if "g_getter ?g k w = (Inr b, w')" for k w b w'
    using assms(2) that by auto
  have all: "cache_all P (mainCache ?g)" using assms(1) by simp
  note frame = group_lookup_cache [OF all getter lookup]
  have "P key v" if v: "r1 = Ret (Inr v)" for v
  proof (cases "cache_get key (mainCache g)")
    case (Pair found c)
    show ?thesis
    proof (cases found)
      case None
      with Pair lookup v assms(3,4) show ?thesis
        by (auto simp: group_lookup_def group_load_def getLocally_def populateCache_def
          split: prod.splits sum.splits option.splits intro: assms(2) [rule_format])
    next
      case (Some u)
      with Pair lookup v cache_get_hit [OF assms(1), of key u] show ?thesis
        by (simp add: group_lookup_def)
    qed
  qed
  with frame result show ?thesis by simp
qed

theorem group_Get_faithful_witness:
  "cache_all (=) (mainCache (fst (snd (group_Get (\<lambda>_. Inl ''unused'') ''A''
     (db_group 0 (Some (\<lambda>_ _. None))) 0))))"
proof -
  let ?g = "db_group 0 (Some (\<lambda>_ _. None))"
  obtain r g' w' where run: "group_Get (\<lambda>_. Inl ''unused'') ''A'' ?g 0 = (r, g', w')"
    by (cases "group_Get (\<lambda>_. Inl ''unused'') ''A'' ?g 0")
  have "cache_all (=) (mainCache ?g)"
    by (simp add: db_group_def cache_all_def cache_ok_def cache_lookup_def)
  moreover have "\<forall>k w b w'. g_getter ?g k w = (Inr b, w') \<longrightarrow> k = b"
    by (simp add: db_group_def db_getter_def)
  moreover have "g_peers ?g = Some (\<lambda>_ _. None)" by (simp add: db_group_def)
  ultimately have "cache_all (=) (mainCache g')" using group_Get_faithful [OF _ _ _ _ run] by blast
  with run show ?thesis by simp
qed

text \<open>
  A loaded value is served from the cache: when the getter has returned a value
  that fits, the next \<^verbatim>\<open>Get\<close> of the key returns the same value without calling the getter
  (the environment is unchanged), and in between \<^verbatim>\<open>Do\<close> has released the key.
\<close>

theorem group_Get_loads_once:
  assumes "cache_ok (mainCache g)" and "cache_lookup (mainCache g) key = None"
    and "key \<notin> loading g" and "g_peers g = Some pick" and "pick key w = None"
    and "g_getter g key w = (Inr b, w1)" and "cache_fits key b (mainCache g)"
  shows "\<exists>g1. group_Get marshal key g w = (Ret (Inr b), g1, w1) \<and> loading g1 = loading g \<and>
    (\<forall>w'. \<exists>g2. group_Get marshal key g1 w' = (Ret (Inr b), g2, w'))"
proof -
  obtain c where c: "cache_add key b (mainCache g) = Some c" "cache_ok c" "cache_lookup c key = Some b"
    using cache_add_fits [OF assms(1,7)] by blast
  let ?g = "g\<lparr>mainCache := c\<rparr>"
  have "\<exists>g2. group_Get marshal key ?g w' = (Ret (Inr b), g2, w')" for w'
    by (rule group_Get_hit [of ?g key b marshal w']) (use c assms(3) in auto)
  moreover have "loading ?g = loading g" by simp
  ultimately show ?thesis
    using group_Get_local_miss [OF assms(1-6) c(1)] by blast
qed

theorem group_Get_loads_once_witness:
  "\<exists>g1 g2. group_Get (\<lambda>_. Inl ''unused'') ''A'' (db_group 2048 (Some (\<lambda>_ _. None))) 0 = (Ret (Inr ''A''), g1, 1) \<and>
     group_Get (\<lambda>_. Inl ''unused'') ''A'' g1 1 = (Ret (Inr ''A''), g2, 1)"
  using group_Get_loads_once [of "db_group 2048 (Some (\<lambda>_ _. None))" "''A''" "\<lambda>_ _. None" 0 "''A''" 1
      "\<lambda>_. Inl ''unused''"]
  by (auto simp: db_group_def db_getter_def cache_ok_def cache_lookup_def cache_fits_def
    cache_pairs_def pair_size_def view_Len_def sizes_ok_def spec_put_def)

text \<open>
  Without registered peers a miss panics, since \<^verbatim>\<open>load\<close> calls a method of a nil
  interface; the panic leaves the key in the single-flight map, so every later \<^verbatim>\<open>Get\<close> of the
  key waits for ever.
\<close>

theorem group_Get_without_peers:
  assumes "cache_ok (mainCache g)" and "cache_lookup (mainCache g) key = None"
    and "key \<notin> loading g" and "g_peers g = None"
  shows "\<exists>g'. group_Get marshal key g w = (Panic ''nil pointer dereference'', g', w) \<and>
    (\<forall>w'. group_Get marshal key g' w' = (Hang, g', w'))"
  using assms by (simp add: group_Get_def group_lookup_def group_load_def cache_get_miss)

theorem group_Get_without_peers_witness:
  "\<exists>g'. group_Get (\<lambda>_. Inl ''unused'') ''A'' (db_group 0 None) 0
     = (Panic ''nil pointer dereference'', g', 0)"
  using group_Get_without_peers [of "db_group 0 None" "''A''" "\<lambda>_. Inl ''unused''" 0]
  by (auto simp: db_group_def cache_ok_def cache_lookup_def)

text \<open>
  A value fetched from a peer is the encoding of the whole response message, not
  its \<^verbatim>\<open>value\<close> field: with the protocol-buffer encoding of a non-empty bytes field (a tag
  byte, a length, the bytes) the caller always gets something else than the peer's value.
\<close>

theorem group_Get_peer_returns_encoding:
  assumes "cache_ok (mainCache g)" and "cache_lookup (mainCache g) key = None"
    and "key \<notin> loading g" and "g_peers g = Some pick" and "pick key w = Some peer"
    and "peer \<lparr>pb_Group = g_name g, pb_Key = key\<rparr> w = (Ret (Inr (Some \<lparr>pb_Value = v\<rparr>)), w1)"
    and "v \<noteq> ''''" and "\<And>v. v \<noteq> '''' \<Longrightarrow> \<exists>len. marshal (Some \<lparr>pb_Value = v\<rparr>) = Inr (CHR 0x0A # len @ v)"
  shows "\<exists>bytes. group_Get marshal key g w = (Ret (Inr bytes), g, w1) \<and> bytes \<noteq> v \<and>
    length bytes > length v"
proof -
  obtain len where len: "marshal (Some \<lparr>pb_Value = v\<rparr>) = Inr (CHR 0x0A # len @ v)"
    using assms(7,8) by blast
  have "group_Get marshal key g w = (Ret (Inr (CHR 0x0A # len @ v)), g, w1)"
    using assms(1-6) len by (simp add: group_defs cache_get_miss)
  moreover have "CHR 0x0A # len @ v \<noteq> v"
    by (metis append_Cons append_self_conv2 list.distinct(1))
  ultimately show ?thesis by simp
qed

theorem group_Get_peer_returns_encoding_witness:
  "\<exists>bytes. group_Get (\<lambda>r. Inr (CHR 0x0A # CHR 0x01 # pb_Value (the r))) ''A''
      (db_group 0 (Some (\<lambda>_ _. Some (\<lambda>_ w. (Ret (Inr (Some \<lparr>pb_Value = ''A''\<rparr>)), w))))) 0
      = (Ret (Inr bytes), db_group 0 (Some (\<lambda>_ _. Some (\<lambda>_ w. (Ret (Inr (Some \<lparr>pb_Value = ''A''\<rparr>)), w)))), 0) \<and>
     bytes \<noteq> ''A''"
  using group_Get_peer_returns_encoding
    [of "db_group 0 (Some (\<lambda>_ _. Some (\<lambda>_ w. (Ret (Inr (Some \<lparr>pb_Value = ''A''\<rparr>)), w))))" "''A''"
      "\<lambda>_ _. Some (\<lambda>_ w. (Ret (Inr (Some \<lparr>pb_Value = ''A''\<rparr>)), w))" 0
      "\<lambda>_ w. (Ret (Inr (Some \<lparr>pb_Value = ''A''\<rparr>)), w)" "''A''" 0
      "\<lambda>r. Inr (CHR 0x0A # CHR 0x01 # pb_Value (the r))"]
  by (auto simp: db_group_def cache_ok_def cache_lookup_def)

end
