(* ===== verification/CCache_Concurrent.thy ===== *)
theory CCache_Concurrent
  imports CCache_Group Singleflight
begin

section \<open>Package ccache: groups used by many goroutines\<close>

text \<open>
  \<^verbatim>\<open>Group.Get\<close> of \<^verbatim>\<open>CCache/ccache.go\<close> with all that it calls, for any number of goroutines: the step relation
  of \<^verbatim>\<open>singleflight\<close>, in which \<^verbatim>\<open>fn\<close> is now the function that \<^verbatim>\<open>Get\<close> passes to \<^verbatim>\<open>Do\<close>. A method of
  the cache holds its mutex from start to end and is one step; the getter and peers run
  without any lock and answer when they like. Peers are registered before the first \<^verbatim>\<open>Get\<close>,
  as \<^verbatim>\<open>main.go\<close> does. With a negative limit \<^verbatim>\<open>add\<close> need not return, and has no step then.
\<close>

subsection \<open>State\<close>

text \<open>Where a goroutine that leads a call is within the function.\<close>

datatype fn_pc =
    FnLookup                      \<comment> \<open>before \<^verbatim>\<open>g.mainCache.get(key)\<close>\<close>
  | FnLoad                        \<comment> \<open>in \<^verbatim>\<open>load\<close>, before \<^verbatim>\<open>g.peers.PickPeer(key)\<close>\<close>
  | FnPeer                        \<comment> \<open>in \<^verbatim>\<open>getFromPeer\<close>, at \<^verbatim>\<open>peer.Get(req)\<close>\<close>
  | FnGetter                      \<comment> \<open>in \<^verbatim>\<open>getLocally\<close>, at \<^verbatim>\<open>g.getter.Get(key)\<close>\<close>
  | FnPopulate view               \<comment> \<open>before \<^verbatim>\<open>g.populateCache(key, value)\<close>\<close>
  | FnResult "goerror + view"     \<comment> \<open>returning\<close>

text \<open>
  \<open>cn_loads\<close> records, beside the state of the code, the keys for which the getter has returned
  a value, with that value.
\<close>

record conc =
  cn_sf :: "(goerror + view) sf"
  cn_fn :: "nat \<Rightarrow> fn_pc"
  cn_cache :: cache
  cn_loads :: "(string \<times> view) list"

text \<open>
  What is given: the name of the group, the possible answers of \<^verbatim>\<open>PickPeer\<close> (\<open>None\<close> is the nil
  interface), of the peers and of the getter, and \<^verbatim>\<open>proto.Marshal\<close>.
\<close>

record conc_env =
  ce_name :: string
  ce_peers :: "(string \<Rightarrow> bool \<Rightarrow> bool) option"
  ce_peer :: "pb_Request \<Rightarrow> goerror + pb_Response option \<Rightarrow> bool"
  ce_getter :: "string \<Rightarrow> goerror + string \<Rightarrow> bool"
  ce_marshal :: "pb_Response option \<Rightarrow> goerror + string"

definition cn_start :: "int64 \<Rightarrow> conc" where
  "cn_start bytes =
     \<lparr>cn_sf = sf_start, cn_fn = (\<lambda>_. FnLookup), cn_cache = \<lparr>cache_lru = None, cacheBytes = bytes\<rparr>, cn_loads = []\<rparr>"

definition cn_init :: "conc \<Rightarrow> bool" where
  "cn_init y \<longleftrightarrow> (\<exists>bytes. y = cn_start bytes)"

text \<open>\<^verbatim>\<open>getFromPeer\<close> on the answer of the peer\<close>

definition peer_value :: "(pb_Response option \<Rightarrow> goerror + string) \<Rightarrow> goerror + pb_Response option \<Rightarrow> goerror + view" where
  "peer_value marshal answer =
     (case answer of
        Inl err \<Rightarrow> Inl err
      | Inr value \<Rightarrow>
          (case marshal value of
             Inl err \<Rightarrow> Inl (''marshal proto msg err: '' @ err)
           | Inr bytes \<Rightarrow> Inr bytes))"

lemma getFromPeer_value:
  "peer \<lparr>pb_Group = g_name g, pb_Key = key\<rparr> w = (Ret answer, w1) \<Longrightarrow>
   getFromPeer marshal peer key g w = (Ret (peer_value marshal answer), g, w1)"
  by (simp add: getFromPeer_def peer_value_def split: sum.split)

subsection \<open>Steps\<close>

text \<open>
  The steps of goroutine \<open>t\<close>: those of \<^verbatim>\<open>Do\<close> around the function, those of the function, and
  panics of the getter, of a peer and of the call on a nil \<^verbatim>\<open>g.peers\<close>.
\<close>

definition in_fn :: "nat \<Rightarrow> string \<Rightarrow> conc \<Rightarrow> bool" where
  "in_fn t k y \<longleftrightarrow> (\<exists>c. sf_pc (cn_sf y) t = Running k c)"

inductive cn_act :: "conc_env \<Rightarrow> nat \<Rightarrow> conc \<Rightarrow> conc \<Rightarrow> bool" for E t where
  cn_do:
    "sf_act t (cn_sf y) s \<Longrightarrow> \<forall>k. \<not> in_fn t k y \<Longrightarrow>
     cn_act E t y (y\<lparr>cn_sf := s, cn_fn := (cn_fn y)(t := FnLookup)\<rparr>)"
| cn_hit:
    "in_fn t k y \<Longrightarrow> cn_fn y t = FnLookup \<Longrightarrow> cache_get k (cn_cache y) = (Some v, c) \<Longrightarrow>
     cn_act E t y (y\<lparr>cn_cache := c, cn_fn := (cn_fn y)(t := FnResult (Inr v))\<rparr>)"
| cn_miss:
    "in_fn t k y \<Longrightarrow> cn_fn y t = FnLookup \<Longrightarrow> cache_get k (cn_cache y) = (None, c) \<Longrightarrow>
     cn_act E t y (y\<lparr>cn_cache := c, cn_fn := (cn_fn y)(t := FnLoad)\<rparr>)"
| cn_pick:
    "in_fn t k y \<Longrightarrow> cn_fn y t = FnLoad \<Longrightarrow> ce_peers E = Some pick \<Longrightarrow> pick k ok \<Longrightarrow>
     cn_act E t y (y\<lparr>cn_fn := (cn_fn y)(t := (if ok then FnPeer else FnGetter))\<rparr>)"
| cn_peer:
    "in_fn t k y \<Longrightarrow> cn_fn y t = FnPeer \<Longrightarrow> ce_peer E \<lparr>pb_Group = ce_name E, pb_Key = k\<rparr> answer \<Longrightarrow>
     cn_act E t y (y\<lparr>cn_fn := (cn_fn y)(t := FnResult (peer_value (ce_marshal E) answer))\<rparr>)"
| cn_getter_fails:
    "in_fn t k y \<Longrightarrow> cn_fn y t = FnGetter \<Longrightarrow> ce_getter E k (Inl err) \<Longrightarrow>
     cn_act E t y (y\<lparr>cn_fn := (cn_fn y)(t := FnResult (Inl err))\<rparr>)"
| cn_getter:
    "in_fn t k y \<Longrightarrow> cn_fn y t = FnGetter \<Longrightarrow> ce_getter E k (Inr b) \<Longrightarrow>
     cn_act E t y (y\<lparr>cn_fn := (cn_fn y)(t := FnPopulate b), cn_loads := cn_loads y @ [(k, b)]\<rparr>)"
| cn_populate:
    "in_fn t k y \<Longrightarrow> cn_fn y t = FnPopulate v \<Longrightarrow> cache_add k v (cn_cache y) = Some c \<Longrightarrow>
     cn_act E t y (y\<lparr>cn_cache := c, cn_fn := (cn_fn y)(t := FnResult (Inr v))\<rparr>)"
| cn_return:
    "sf_pc (cn_sf y) t = Running k c \<Longrightarrow> cn_fn y t = FnResult r \<Longrightarrow> sf_calls (cn_sf y) c = Some cl \<Longrightarrow>
     cn_act E t y (y\<lparr>cn_sf := (cn_sf y)\<lparr>sf_calls := (sf_calls (cn_sf y))(c \<mapsto> cl\<lparr>result := Some r\<rparr>),
       sf_pc := (sf_pc (cn_sf y))(t := Ran k c)\<rparr>\<rparr>)"
| cn_panic:
    "sf_pc (cn_sf y) t = Running k c \<Longrightarrow>
     cn_fn y t = FnPeer \<or> cn_fn y t = FnGetter \<or> cn_fn y t = FnLoad \<and> ce_peers E = None \<Longrightarrow>
     cn_act E t y (y\<lparr>cn_sf := (cn_sf y)\<lparr>sf_pc := (sf_pc (cn_sf y))(t := Crashed k c)\<rparr>\<rparr>)"

definition cn_step :: "conc_env \<Rightarrow> conc \<Rightarrow> conc \<Rightarrow> bool" where
  "cn_step E y z \<longleftrightarrow> (\<exists>t. cn_act E t y z)"

lemma cn_act_sf: "cn_act E t y z \<Longrightarrow> cn_sf z = cn_sf y \<or> sf_act t (cn_sf y) (cn_sf z)"
  by (induction rule: cn_act.induct) (auto intro: sf_fn_returns sf_fn_panics)

text \<open>The group uses \<^verbatim>\<open>singleflight\<close>: its interleavings are interleavings of \<^verbatim>\<open>Do\<close>.\<close>

interpretation flight: contains_component cn_init "cn_step E" cn_sf sf_init sf_step for E
  by unfold_locales (auto simp: cn_init_def cn_start_def sf_init_def cn_step_def sf_step_def dest: cn_act_sf)

subsection \<open>One key for each call\<close>

fun refers :: "'r pc \<Rightarrow> (string \<times> nat) option" where
  "refers (Waiting k c) = Some (k, c)"
| "refers (Running k c) = Some (k, c)"
| "refers (Ran k c) = Some (k, c)"
| "refers (WantRelock k c) = Some (k, c)"
| "refers (Cleaning k c) = Some (k, c)"
| "refers (Returning k c) = Some (k, c)"
| "refers (Returned k c r) = Some (k, c)"
| "refers (Crashed k c) = Some (k, c)"
| "refers _ = None"

definition sf_keyed :: "'r sf \<Rightarrow> bool" where
  "sf_keyed s \<longleftrightarrow> (\<forall>t u k k' c. refers (sf_pc s t) = Some (k, c) \<longrightarrow> refers (sf_pc s u) = Some (k', c) \<longrightarrow> k = k')"

lemma leads_refers: "leads p = Some x \<Longrightarrow> refers p = Some x"
  by (cases p) auto

lemma refers_call: "refers p = Some (k, c) \<Longrightarrow> call_ok cs p \<Longrightarrow> cs c \<noteq> None"
  by (cases p) auto

lemma keyed_act:
  assumes inv: "sf_inv s" and keyed: "sf_keyed s" and "sf_act t s s'"
  shows "sf_keyed s'"
proof -
  have same: "sf_keyed s'" if "\<And>u. refers (sf_pc s' u) = None \<or> refers (sf_pc s' u) = refers (sf_pc s u)"
    using keyed that unfolding sf_keyed_def by (metis option.distinct(1))
  have new: "sf_keyed s'" if pc: "sf_pc s' = (sf_pc s)(t := p)" and p: "refers p = Some (k, c)"
    and agree: "\<And>u k'. refers (sf_pc s u) = Some (k', c) \<Longrightarrow> k' = k" for p k c
    unfolding sf_keyed_def using keyed agree p by (auto simp: pc sf_keyed_def)
  from assms(3) show ?thesis
  proof cases
    case (sf_join k c)
    obtain v where "leads (sf_pc s v) = Some (k, c)" using sf_inv_D(3) [OF inv sf_join(3)] by blast
    then have "refers (sf_pc s v) = Some (k, c)" by (rule leads_refers)
    with keyed have "k' = k" if "refers (sf_pc s u) = Some (k', c)" for u k'
      using that unfolding sf_keyed_def by blast
    then show ?thesis by (intro new [of "Waiting k c" k c]) (simp_all add: sf_join(1))
  next
    case (sf_lead k c)
    have "sf_calls s c = None" using sf_inv_D(5) [OF inv, of c] sf_lead(4) by blast
    then have "refers (sf_pc s u) \<noteq> Some (k', c)" for u k'
      using refers_call [of "sf_pc s u" k' c "sf_calls s"] sf_inv_D(6) [OF inv, of u] by blast
    then show ?thesis by (intro new [of "Running k c" k c]) (simp_all add: sf_lead(1))
  qed (rule same; simp)+
qed

interpretation keyed: inductive_invariant sf_init sf_step "\<lambda>s. sf_inv s \<and> sf_keyed s"
proof
  show "sf_inv s \<and> sf_keyed s" if "sf_init s" for s :: "'a sf"
    using sf_inv_start [OF that] that by (simp add: sf_keyed_def sf_init_def sf_start_def)
  show "sf_inv s' \<and> sf_keyed s'" if "sf_inv s \<and> sf_keyed s" "sf_step s s'" for s s' :: "'a sf"
    using that sf_inv_act keyed_act unfolding sf_step_def by blast
qed

subsection \<open>Where values come from\<close>

definition remote_value :: "conc_env \<Rightarrow> string \<Rightarrow> view \<Rightarrow> bool" where
  "remote_value E k v \<longleftrightarrow> (\<exists>pick answer. ce_peers E = Some pick \<and> pick k True \<and>
     ce_peer E \<lparr>pb_Group = ce_name E, pb_Key = k\<rparr> answer \<and> peer_value (ce_marshal E) answer = Inr v)"

text \<open>A value is one that the getter has returned for the key, or it comes from a peer.\<close>

fun value_ok :: "conc_env \<Rightarrow> (string \<times> view) list \<Rightarrow> string \<Rightarrow> goerror + view \<Rightarrow> bool" where
  "value_ok E loads k (Inl err) \<longleftrightarrow> True"
| "value_ok E loads k (Inr v) \<longleftrightarrow> (k, v) \<in> set loads \<or> remote_value E k v"

definition fn_ok :: "conc_env \<Rightarrow> conc \<Rightarrow> nat \<Rightarrow> string \<Rightarrow> bool" where
  "fn_ok E y t k \<longleftrightarrow>
     (case cn_fn y t of
        FnResult r \<Rightarrow> value_ok E (cn_loads y) k r
      | FnPopulate v \<Rightarrow> (k, v) \<in> set (cn_loads y)
      | FnPeer \<Rightarrow> \<exists>pick. ce_peers E = Some pick \<and> pick k True
      | _ \<Rightarrow> True)"

definition values_ok :: "conc_env \<Rightarrow> conc \<Rightarrow> bool" where
  "values_ok E y \<longleftrightarrow>
     cache_all (\<lambda>k v. (k, v) \<in> set (cn_loads y)) (cn_cache y) \<and>
     (\<forall>(k, v) \<in> set (cn_loads y). ce_getter E k (Inr v)) \<and>
     (\<forall>t k. in_fn t k y \<longrightarrow> fn_ok E y t k) \<and>
     (\<forall>t k c cl r. refers (sf_pc (cn_sf y) t) = Some (k, c) \<longrightarrow> sf_calls (cn_sf y) c = Some cl \<longrightarrow>
        result cl = Some r \<longrightarrow> value_ok E (cn_loads y) k r)"

definition cn_inv :: "conc_env \<Rightarrow> conc \<Rightarrow> bool" where
  "cn_inv E y \<longleftrightarrow> sf_inv (cn_sf y) \<and> sf_keyed (cn_sf y) \<and> values_ok E y"

lemma value_ok_more: "value_ok E loads k r \<Longrightarrow> set loads \<subseteq> set loads' \<Longrightarrow> value_ok E loads' k r"
  by (cases r) auto

lemma cache_all_more: "cache_all P c \<Longrightarrow> (\<And>k v. P k v \<Longrightarrow> Q k v) \<Longrightarrow> cache_all Q c"
  by (auto simp: cache_all_def)

lemma in_fn_same: "cn_sf z = cn_sf y \<Longrightarrow> in_fn t k z \<longleftrightarrow> in_fn t k y"
  by (simp add: in_fn_def)

lemma in_fn_one: "in_fn t k y \<Longrightarrow> in_fn t k' y \<Longrightarrow> k' = k"
  by (auto simp: in_fn_def)

text \<open>A step inside the function of goroutine \<open>t\<close>.\<close>

lemma values_fn:
  assumes ok: "values_ok E y" and t: "in_fn t k y" and sf: "cn_sf z = cn_sf y" and fn: "cn_fn z = (cn_fn y)(t := f)"
    and loads: "set (cn_loads y) \<subseteq> set (cn_loads z)" "\<forall>(k, v) \<in> set (cn_loads z). ce_getter E k (Inr v)"
    and cache: "cache_all (\<lambda>k v. (k, v) \<in> set (cn_loads z)) (cn_cache z)" and here: "fn_ok E z t k"
  shows "values_ok E z"
proof -
  have "fn_ok E z u k'" if u: "in_fn u k' z" for u k'
  proof (cases "u = t")
    case True
    with u t have "k' = k" unfolding in_fn_same [OF sf] by (auto dest: in_fn_one)
    with True here show ?thesis by simp
  next
    case False
    have "fn_ok E y u k'" using ok u unfolding in_fn_same [OF sf] by (simp add: values_ok_def)
    then show ?thesis
      using False loads(1) by (auto simp: fn_ok_def fn split: fn_pc.splits intro: value_ok_more)
  qed
  moreover have "value_ok E (cn_loads z) k' r"
    if "refers (sf_pc (cn_sf z) u) = Some (k', c)" "sf_calls (cn_sf z) c = Some cl" "result cl = Some r" for u k' c cl r
  proof -
    have "value_ok E (cn_loads y) k' r" using ok that unfolding sf values_ok_def by blast
    then show ?thesis by (rule value_ok_more [OF _ loads(1)])
  qed
  ultimately show ?thesis using loads(2) cache unfolding values_ok_def by blast
qed

text \<open>A step of \<^verbatim>\<open>Do\<close> that leaves the results alone.\<close>

lemma values_do:
  assumes ok: "values_ok E y" and rest: "cn_cache z = cn_cache y" "cn_loads z = cn_loads y"
    and fn: "\<And>u k. in_fn u k z \<Longrightarrow> in_fn u k y \<and> cn_fn z u = cn_fn y u \<or> cn_fn z u = FnLookup"
    and results: "\<And>u k c cl r. refers (sf_pc (cn_sf z) u) = Some (k, c) \<Longrightarrow> sf_calls (cn_sf z) c = Some cl \<Longrightarrow>
      result cl = Some r \<Longrightarrow> value_ok E (cn_loads y) k r"
  shows "values_ok E z"
proof -
  have "fn_ok E z u k" if "in_fn u k z" for u k
    using fn [OF that]
  proof
    assume old: "in_fn u k y \<and> cn_fn z u = cn_fn y u"
    then have "fn_ok E y u k" using ok by (simp add: values_ok_def)
    with old show ?thesis unfolding fn_ok_def rest by simp
  qed (simp add: fn_ok_def)
  with ok results show ?thesis unfolding values_ok_def rest by blast
qed

lemma values_sf:
  assumes inv: "sf_inv s" and keyed: "sf_keyed s" and step: "sf_act t s s'" and out: "\<And>k c. sf_pc s t \<noteq> Running k c"
    and old: "\<And>u k c cl r. refers (sf_pc s u) = Some (k, c) \<Longrightarrow> sf_calls s c = Some cl \<Longrightarrow> result cl = Some r \<Longrightarrow> Q k r"
    and new: "refers (sf_pc s' u) = Some (k, c)" "sf_calls s' c = Some cl" "result cl = Some r"
  shows "Q k r"
  using step
proof cases
  case (sf_join k' c')
  obtain v where "leads (sf_pc s v) = Some (k', c')" using sf_inv_D(3) [OF inv sf_join(3)] by blast
  then have "refers (sf_pc s v) = Some (k', c')" by (rule leads_refers)
  with new old [of v k' c' cl r] old [of u k c cl r] show ?thesis
    by (auto simp: sf_join(1) split: if_splits)
next
  case (sf_lead k' c')
  with new old [of u k c cl r] show ?thesis
    using refers_call [of "sf_pc s u" k c "sf_calls s"] sf_inv_D(5,6) [OF inv]
    by (auto split: if_splits)
next
  case (sf_done k' c' cl')
  then have t: "refers (sf_pc s t) = Some (k', c')" by simp
  show ?thesis
  proof (cases "c = c'")
    case True
    have "refers (sf_pc s u) = Some (k, c)" using new(1) t True by (auto simp: sf_done(1) split: if_splits)
    moreover have "result cl' = Some r" using new(2,3) True by (auto simp: sf_done(1))
    ultimately show ?thesis using old [of u k c cl' r] sf_done(3) True by simp
  next
    case False
    with new old [of u k c cl r] t show ?thesis by (auto simp: sf_done(1) split: if_splits)
  qed
qed (use out new old [of u k c cl r] old [of t k c cl r] in \<open>auto split: if_splits\<close>)

lemma cn_act_values:
  assumes inv: "cn_inv E y" and step: "cn_act E t y z"
  shows "values_ok E z"
proof -
  have sf: "sf_inv (cn_sf y)" and keyed: "sf_keyed (cn_sf y)" and ok: "values_ok E y" using inv by (simp_all add: cn_inv_def)
  have cache: "cache_all (\<lambda>k v. (k, v) \<in> set (cn_loads y)) (cn_cache y)"
    and loads: "\<forall>(k, v) \<in> set (cn_loads y). ce_getter E k (Inr v)"
    and fn: "\<And>t k. in_fn t k y \<Longrightarrow> fn_ok E y t k"
    and old: "\<And>u k c cl r. refers (sf_pc (cn_sf y) u) = Some (k, c) \<Longrightarrow> sf_calls (cn_sf y) c = Some cl \<Longrightarrow>
      result cl = Some r \<Longrightarrow> value_ok E (cn_loads y) k r"
    using ok unfolding values_ok_def by blast+
  from step show ?thesis
  proof cases
    case (cn_do s)
    show ?thesis
    proof (rule values_do [OF ok])
      show "in_fn u k y \<and> cn_fn z u = cn_fn y u \<or> cn_fn z u = FnLookup" if "in_fn u k z" for u k
        using that sf_act_rank [OF cn_do(2)] by (cases "u = t") (auto simp: cn_do(1) in_fn_def)
      have "sf_pc (cn_sf y) t \<noteq> Running k c" for k c using cn_do(3) by (simp add: in_fn_def)
      then show "value_ok E (cn_loads y) k r"
        if "refers (sf_pc (cn_sf z) u) = Some (k, c)" "sf_calls (cn_sf z) c = Some cl" "result cl = Some r" for u k c cl r
        by (rule values_sf [OF sf keyed cn_do(2) _ old]) (use that in \<open>simp_all add: cn_do(1)\<close>)
    qed (simp_all add: cn_do(1))
  next
    case (cn_hit k v c)
    have "(k, v) \<in> set (cn_loads y)" using cache_get_hit [OF cache, of k v] cn_hit(4) by simp
    moreover have "cache_all (\<lambda>k v. (k, v) \<in> set (cn_loads y)) c" using cache_all_get [OF cache, of k] cn_hit(4) by simp
    ultimately show ?thesis
      using loads by (intro values_fn [OF ok cn_hit(2), of z "FnResult (Inr v)"]) (simp_all add: cn_hit(1) fn_ok_def)
  next
    case (cn_miss k c)
    have "cache_all (\<lambda>k v. (k, v) \<in> set (cn_loads y)) c" using cache_all_get [OF cache, of k] cn_miss(4) by simp
    then show ?thesis
      using loads by (intro values_fn [OF ok cn_miss(2), of z FnLoad]) (simp_all add: cn_miss(1) fn_ok_def)
  next
    case (cn_pick k pick ok')
    then show ?thesis
      using loads cache
      by (intro values_fn [OF ok cn_pick(2), of z "if ok' then FnPeer else FnGetter"]) (auto simp: fn_ok_def)
  next
    case (cn_peer k answer)
    have "value_ok E (cn_loads y) k (peer_value (ce_marshal E) answer)"
      using fn [OF cn_peer(2)] cn_peer(3,4)
      by (cases "peer_value (ce_marshal E) answer") (auto simp: fn_ok_def remote_value_def)
    then show ?thesis
      using loads cache
      by (intro values_fn [OF ok cn_peer(2), of z "FnResult (peer_value (ce_marshal E) answer)"])
        (simp_all add: cn_peer(1) fn_ok_def)
  next
    case (cn_getter_fails k err)
    then show ?thesis
      using loads cache by (intro values_fn [OF ok cn_getter_fails(2), of z "FnResult (Inl err)"]) (simp_all add: fn_ok_def)
  next
    case (cn_getter k b)
    have "cache_all (\<lambda>k v. (k, v) \<in> set (cn_loads z)) (cn_cache y)"
      by (rule cache_all_more [OF cache]) (simp add: cn_getter(1))
    with loads show ?thesis
      by (intro values_fn [OF ok cn_getter(2), of z "FnPopulate b"]) (auto simp: cn_getter(1,4) fn_ok_def)
  next
    case (cn_populate k v c)
    have v: "(k, v) \<in> set (cn_loads y)" using fn [OF cn_populate(2)] cn_populate(3) by (simp add: fn_ok_def)
    then have "cache_all (\<lambda>k v. (k, v) \<in> set (cn_loads y)) c" by (rule cache_all_add [OF cache cn_populate(4)])
    with v loads show ?thesis
      by (intro values_fn [OF ok cn_populate(2), of z "FnResult (Inr v)"]) (simp_all add: cn_populate(1) fn_ok_def)
  next
    case (cn_return k c r cl)
    have "in_fn t k y" using cn_return(2) by (auto simp: in_fn_def)
    then have r: "value_ok E (cn_loads y) k r" using fn cn_return(3) by (force simp: fn_ok_def)
    have key: "k' = k" if "refers (sf_pc (cn_sf y) u) = Some (k', c)" for u k'
      using keyed that cn_return(2) unfolding sf_keyed_def by (metis refers.simps(2))
    have now: "refers (sf_pc (cn_sf z) u) = refers (sf_pc (cn_sf y) u)" for u
      using cn_return(2) by (simp add: cn_return(1))
    show ?thesis
    proof (rule values_do [OF ok])
      show "in_fn u k' y \<and> cn_fn z u = cn_fn y u \<or> cn_fn z u = FnLookup" if "in_fn u k' z" for u k'
        using that by (auto simp: cn_return(1) in_fn_def split: if_splits)
      show "value_ok E (cn_loads y) k' r'"
        if "refers (sf_pc (cn_sf z) u) = Some (k', d)" "sf_calls (cn_sf z) d = Some dl" "result dl = Some r'" for u k' d dl r'
      proof (cases "d = c")
        case True
        with that(2,3) have "r' = r" by (auto simp: cn_return(1))
        with r key [of u k'] that(1) True show ?thesis by (simp add: now)
      next
        case False
        then show ?thesis using old [of u k' d dl r'] that by (simp add: now) (simp add: cn_return(1))
      qed
    qed (simp_all add: cn_return(1))
  next
    case (cn_panic k c)
    have now: "refers (sf_pc (cn_sf z) u) = refers (sf_pc (cn_sf y) u)" for u
      using cn_panic(2) by (simp add: cn_panic(1))
    show ?thesis
    proof (rule values_do [OF ok])
      show "in_fn u k' y \<and> cn_fn z u = cn_fn y u \<or> cn_fn z u = FnLookup" if "in_fn u k' z" for u k'
        using that by (auto simp: cn_panic(1) in_fn_def split: if_splits)
      show "value_ok E (cn_loads y) k' r'"
        if "refers (sf_pc (cn_sf z) u) = Some (k', d)" "sf_calls (cn_sf z) d = Some dl" "result dl = Some r'" for u k' d dl r'
        using old [of u k' d dl r'] that by (simp add: now) (simp add: cn_panic(1))
    qed (simp_all add: cn_panic(1))
  qed
qed

lemma cn_start_inv: "cn_init y \<Longrightarrow> cn_inv E y"
  by (auto simp: cn_init_def cn_inv_def cn_start_def values_ok_def in_fn_def cache_all_def cache_ok_def cache_lookup_def
    sf_keyed_def sf_start_def sf_init_def intro!: sf_inv_start)

interpretation caching: inductive_invariant cn_init "cn_step E" "cn_inv E" for E
proof
  show "cn_inv E y" if "cn_init y" for y by (rule cn_start_inv [OF that])
  show "cn_inv E z" if inv: "cn_inv E y" and step: "cn_step E y z" for y z
  proof -
    obtain t where t: "cn_act E t y z" using step by (auto simp: cn_step_def)
    have "sf_inv (cn_sf z) \<and> sf_keyed (cn_sf z)"
      using cn_act_sf [OF t] inv sf_inv_act keyed_act unfolding cn_inv_def by metis
    with cn_act_values [OF inv t] show ?thesis by (simp add: cn_inv_def)
  qed
qed

subsection \<open>One load for each key\<close>

definition loads_of :: "string \<Rightarrow> conc \<Rightarrow> nat" where
  "loads_of k y = length (filter (\<lambda>e. fst e = k) (cn_loads y))"

definition is_loading :: "fn_pc \<Rightarrow> bool" where
  "is_loading f \<longleftrightarrow> f \<in> {FnLoad, FnPeer, FnGetter}"

text \<open>
  In a cache without a limit a key that was loaded stays, or is about to be stored; whoever is
  loading a key has not found it, and nobody else can have stored it.
\<close>

definition once_inv :: "conc \<Rightarrow> bool" where
  "once_inv y \<longleftrightarrow> (cacheBytes (cn_cache y) = 0 \<longrightarrow>
     (\<forall>k. loads_of k y \<le> 1 \<and> (loads_of k y = 1 \<longrightarrow> cache_lookup (cn_cache y) k \<noteq> None \<or>
        (\<exists>t v. in_fn t k y \<and> cn_fn y t = FnPopulate v))) \<and>
     (\<forall>t k. in_fn t k y \<and> is_loading (cn_fn y t) \<longrightarrow> cache_lookup (cn_cache y) k = None))"

lemma in_fn_unique: "sf_inv (cn_sf y) \<Longrightarrow> in_fn t k y \<Longrightarrow> in_fn u k y \<Longrightarrow> u = t"
  unfolding in_fn_def using sf_inv_D(4) [of "cn_sf y" t k _ u k] by fastforce

lemma once_keep:
  assumes once: "once_inv y"
    and same: "cache_lookup (cn_cache z) = cache_lookup (cn_cache y)" "cacheBytes (cn_cache z) = cacheBytes (cn_cache y)"
      "cn_loads z = cn_loads y"
    and populate: "\<And>u k v. in_fn u k y \<Longrightarrow> cn_fn y u = FnPopulate v \<Longrightarrow> in_fn u k z \<and> cn_fn z u = FnPopulate v"
    and loading: "\<And>u k. in_fn u k z \<Longrightarrow> is_loading (cn_fn z u) \<Longrightarrow>
      in_fn u k y \<and> is_loading (cn_fn y u) \<or> cache_lookup (cn_cache y) k = None"
  shows "once_inv z"
proof -
  have "loads_of k z = loads_of k y" for k by (simp add: loads_of_def same(3))
  then show ?thesis
    using once populate loading unfolding once_inv_def same by metis
qed

lemma once_step:
  assumes inv: "cn_inv E y" and once: "once_inv y" and step: "cn_act E t y z"
  shows "once_inv z"
proof -
  have sf: "sf_inv (cn_sf y)" and ok: "cache_ok (cn_cache y)"
    using inv by (simp_all add: cn_inv_def values_ok_def cache_all_def)
  have inside: "once_inv z"
    if t: "in_fn t k y" "\<And>v. cn_fn y t \<noteq> FnPopulate v" and z: "cn_sf z = cn_sf y" "cn_fn z = (cn_fn y)(t := f)" "cn_loads z = cn_loads y"
      "cn_cache z = cn_cache y \<or> cn_cache z = snd (cache_get k (cn_cache y))"
      and f: "is_loading f \<Longrightarrow> is_loading (cn_fn y t) \<or> cache_lookup (cn_cache y) k = None" for k f
  proof (rule once_keep [OF once])
    show "cache_lookup (cn_cache z) = cache_lookup (cn_cache y)" "cacheBytes (cn_cache z) = cacheBytes (cn_cache y)"
      using z(4) ok by (auto simp: guarded.get_lookup guarded.get_limit)
    show "in_fn u k' z \<and> cn_fn z u = FnPopulate v" if "in_fn u k' y" "cn_fn y u = FnPopulate v" for u k' v
      using that t(2) z(1,2) by (auto simp: in_fn_def)
    show "in_fn u k' y \<and> is_loading (cn_fn y u) \<or> cache_lookup (cn_cache y) k' = None"
      if u: "in_fn u k' z" "is_loading (cn_fn z u)" for u k'
    proof (cases "u = t")
      case True
      then have "k' = k" using u(1) t(1) in_fn_one [of t k y k'] by (simp add: in_fn_same [OF z(1)])
      with True f u t(1) show ?thesis by (simp add: z(2))
    qed (use u in \<open>simp add: in_fn_same [OF z(1)] z(2)\<close>)
  qed (rule z(3))
  note loading = is_loading_def
  from step show ?thesis
  proof cases
    case (cn_do s)
    show ?thesis
    proof (rule once_keep [OF once])
      show "in_fn u k z \<and> cn_fn z u = FnPopulate v" if "in_fn u k y" "cn_fn y u = FnPopulate v" for u k v
        using that cn_do(3) sf_act_rank [OF cn_do(2)] by (cases "u = t") (auto simp: cn_do(1) in_fn_def)
      show "in_fn u k y \<and> is_loading (cn_fn y u) \<or> cache_lookup (cn_cache y) k = None"
        if "in_fn u k z" "is_loading (cn_fn z u)" for u k
        using that sf_act_rank [OF cn_do(2)] by (cases "u = t") (auto simp: cn_do(1) in_fn_def loading)
    qed (simp_all add: cn_do(1))
  next
    case (cn_hit k v c)
    then show ?thesis by (intro inside [of k "FnResult (Inr v)"]) (simp_all add: loading)
  next
    case (cn_miss k c)
    then have "cache_lookup (cn_cache y) k = None" using guarded.get_result [OF ok, of k] by simp
    with cn_miss show ?thesis by (intro inside [of k FnLoad]) simp_all
  next
    case (cn_pick k pick ok')
    then show ?thesis by (intro inside [of k "if ok' then FnPeer else FnGetter"]) (simp_all add: loading)
  next
    case (cn_peer k answer)
    then show ?thesis by (intro inside [of k "FnResult (peer_value (ce_marshal E) answer)"]) (simp_all add: loading)
  next
    case (cn_getter_fails k err)
    then show ?thesis by (intro inside [of k "FnResult (Inl err)"]) (simp_all add: loading)
  next
    case (cn_getter k b)
    show ?thesis
      unfolding once_inv_def
    proof (intro impI conjI allI)
      assume lim: "cacheBytes (cn_cache z) = 0"
      then have one: "\<And>k. loads_of k y \<le> 1 \<and> (loads_of k y = 1 \<longrightarrow> cache_lookup (cn_cache y) k \<noteq> None \<or>
          (\<exists>t v. in_fn t k y \<and> cn_fn y t = FnPopulate v))"
        and miss: "\<And>t k. in_fn t k y \<Longrightarrow> is_loading (cn_fn y t) \<Longrightarrow> cache_lookup (cn_cache y) k = None"
        using once by (simp_all add: once_inv_def cn_getter(1))
      have "cache_lookup (cn_cache y) k = None" by (rule miss [OF cn_getter(2)]) (simp add: loading cn_getter(3))
      moreover have "\<not> (in_fn u k y \<and> cn_fn y u = FnPopulate v)" for u v
        using in_fn_unique [OF sf cn_getter(2), of u] cn_getter(3) by auto
      ultimately have "loads_of k y \<noteq> 1" using one [of k] by blast
      then have none: "loads_of k y = 0" using one [of k] by linarith
      show "loads_of k' z \<le> 1" for k'
        using one [of k'] none by (auto simp: cn_getter(1) loads_of_def)
      show "cache_lookup (cn_cache z) k' \<noteq> None \<or> (\<exists>t v. in_fn t k' z \<and> cn_fn z t = FnPopulate v)"
        if "loads_of k' z = 1" for k'
      proof (cases "k' = k")
        case True
        then have "in_fn t k' z \<and> cn_fn z t = FnPopulate b" using cn_getter(2) by (simp add: cn_getter(1) in_fn_def)
        then show ?thesis by blast
      next
        case False
        then have "loads_of k' y = 1" using that by (simp add: cn_getter(1) loads_of_def)
        moreover have "in_fn u k' z \<and> cn_fn z u = FnPopulate v" if "in_fn u k' y" "cn_fn y u = FnPopulate v" for u v
          using that cn_getter(3) by (auto simp: cn_getter(1) in_fn_def)
        ultimately show ?thesis using one [of k'] by (fastforce simp: cn_getter(1))
      qed
      show "cache_lookup (cn_cache z) k' = None" if "in_fn u k' z \<and> is_loading (cn_fn z u)" for u k'
        using that miss [of u k'] by (auto simp: cn_getter(1) in_fn_def loading split: if_splits)
    qed
  next
    case (cn_populate k v c)
    show ?thesis
      unfolding once_inv_def
    proof (intro impI conjI allI)
      assume "cacheBytes (cn_cache z) = 0"
      then have lim: "cacheBytes (cn_cache y) = 0" using guarded.add_limit [OF ok cn_populate(4)] by (simp add: cn_populate(1))
      then have one: "\<And>k. loads_of k y \<le> 1 \<and> (loads_of k y = 1 \<longrightarrow> cache_lookup (cn_cache y) k \<noteq> None \<or>
          (\<exists>t v. in_fn t k y \<and> cn_fn y t = FnPopulate v))"
        and miss: "\<And>t k. in_fn t k y \<Longrightarrow> is_loading (cn_fn y t) \<Longrightarrow> cache_lookup (cn_cache y) k = None"
        using once by (simp_all add: once_inv_def)
      have look: "cache_lookup (cn_cache z) = (cache_lookup (cn_cache y))(k \<mapsto> v)"
        using guarded.add_keeps_all [OF ok cn_populate(4) lim] by (simp add: cn_populate(1))
      have same: "loads_of k' z = loads_of k' y" for k' by (simp add: loads_of_def cn_populate(1))
      show "loads_of k' z \<le> 1" for k' using one [of k'] by (simp add: same)
      show "cache_lookup (cn_cache z) k' \<noteq> None \<or> (\<exists>t v. in_fn t k' z \<and> cn_fn z t = FnPopulate v)"
        if "loads_of k' z = 1" for k'
      proof (cases "k' = k")
        case False
        have "in_fn u k' z \<and> cn_fn z u = FnPopulate v'" if "in_fn u k' y" "cn_fn y u = FnPopulate v'" for u v'
          using that False in_fn_one [OF cn_populate(2), of k'] by (auto simp: cn_populate(1) in_fn_def)
        with one [of k'] \<open>loads_of k' z = 1\<close> False show ?thesis by (fastforce simp: same look)
      qed (simp add: look)
      show "cache_lookup (cn_cache z) k' = None" if "in_fn u k' z \<and> is_loading (cn_fn z u)" for u k'
      proof -
        have u: "u \<noteq> t" "in_fn u k' y" "is_loading (cn_fn y u)"
          using that by (auto simp: cn_populate(1) in_fn_def loading split: if_splits)
        then have "k' \<noteq> k" using in_fn_unique [OF sf cn_populate(2), of u] by auto
        with miss [OF u(2,3)] show ?thesis by (simp add: look)
      qed
    qed
  next
    case (cn_return k c r cl)
    show ?thesis
      by (rule once_keep [OF once]) (use cn_return in \<open>auto simp: in_fn_def split: if_splits\<close>)
  next
    case (cn_panic k c)
    show ?thesis
      by (rule once_keep [OF once]) (use cn_panic in \<open>auto simp: in_fn_def split: if_splits\<close>)
  qed
qed

interpretation loading_once: inductive_invariant cn_init "cn_step E" "\<lambda>y. cn_inv E y \<and> once_inv y" for E
proof
  show "cn_inv E y \<and> once_inv y" if "cn_init y" for y
    using cn_start_inv [OF that] that by (auto simp: cn_init_def cn_start_def once_inv_def loads_of_def in_fn_def sf_start_def)
  show "cn_inv E z \<and> once_inv z" if "cn_inv E y \<and> once_inv y" "cn_step E y z" for y z
    using that caching.inv_step [of E y z] once_step unfolding cn_step_def by blast
qed

subsection \<open>One goroutine alone\<close>

text \<open>What a group of \<open>CCache_Group\<close> gives, in whatever state of the environment.\<close>

definition env_of :: "(pb_Response option \<Rightarrow> goerror + string) \<Rightarrow> 'w group \<Rightarrow> conc_env" where
  "env_of marshal g =
     \<lparr>ce_name = g_name g,
      ce_peers = map_option (\<lambda>pick k ok. \<exists>w. (pick k w \<noteq> None) = ok) (g_peers g),
      ce_peer = (\<lambda>req answer. \<exists>pick peer w w1. g_peers g = Some pick \<and> pick (pb_Key req) w = Some peer \<and>
        peer req w = (Ret answer, w1)),
      ce_getter = (\<lambda>k r. \<exists>w w1. g_getter g k w = (r, w1)),
      ce_marshal = marshal\<rparr>"

lemma cn_stepI: "cn_act E t y z \<Longrightarrow> (cn_step E)\<^sup>*\<^sup>* z u \<Longrightarrow> (cn_step E)\<^sup>*\<^sup>* y u"
  by (rule converse_rtranclp_into_rtranclp) (auto simp: cn_step_def)

text \<open>Before the function, and after it.\<close>

lemma Get_enters:
  assumes "sf_pc (cn_sf y) t = Idle" and "sf_mu (cn_sf y) = None" and "sf_map (cn_sf y) k = None" and "c = sf_next (cn_sf y)"
  shows "\<exists>z. (cn_step E)\<^sup>*\<^sup>* y z \<and> sf_pc (cn_sf z) t = Running k c \<and> cn_fn z t = FnLookup \<and> cn_cache z = cn_cache y \<and>
    sf_calls (cn_sf z) c = Some \<lparr>wg = 1, result = None\<rparr> \<and> sf_mu (cn_sf z) = None \<and>
    (\<forall>u. u \<noteq> t \<longrightarrow> sf_pc (cn_sf z) u = sf_pc (cn_sf y) u)"
proof -
  let ?s = "cn_sf y"
  let ?s1 = "?s\<lparr>sf_pc := (sf_pc ?s)(t := WantLock k)\<rparr>"
  let ?s2 = "?s1\<lparr>sf_mu := Some t, sf_pc := (sf_pc ?s1)(t := Checking k)\<rparr>"
  let ?s3 = "?s2\<lparr>sf_calls := (sf_calls ?s2)(c \<mapsto> \<lparr>wg = 1, result = None\<rparr>), sf_next := Suc c,
      sf_m := Some ((sf_map ?s2)(k \<mapsto> c)), sf_mu := None, sf_pc := (sf_pc ?s2)(t := Running k c)\<rparr>"
  let ?y = "\<lambda>s f. y\<lparr>cn_sf := s, cn_fn := f\<rparr>"
  let ?f = "(cn_fn y)(t := FnLookup)"
  have "cn_act E t y (?y ?s1 ?f)"
    using cn_do [OF sf_enter [OF assms(1), of k], of E] assms(1) by (simp add: in_fn_def)
  moreover have "cn_act E t (?y ?s1 ?f) (?y ?s2 ?f)"
    using cn_do [of t "?y ?s1 ?f" ?s2 E] sf_lock [of ?s1 t k] assms(2) by (simp add: in_fn_def)
  moreover have "cn_act E t (?y ?s2 ?f) (?y ?s3 ?f)"
    using cn_do [of t "?y ?s2 ?f" ?s3 E] sf_lead [of ?s2 t k c] assms(3,4) by (simp add: in_fn_def)
  ultimately have "(cn_step E)\<^sup>*\<^sup>* y (?y ?s3 ?f)" by (blast intro: cn_stepI)
  then show ?thesis by (intro exI [of _ "?y ?s3 ?f"]) simp
qed

lemma Get_leaves:
  assumes "sf_pc (cn_sf y) t = Running k c" and "cn_fn y t = FnResult r" and "sf_mu (cn_sf y) = None"
    and "sf_calls (cn_sf y) c = Some \<lparr>wg = 1, result = None\<rparr>"
  shows "\<exists>z. (cn_step E)\<^sup>*\<^sup>* y z \<and> sf_pc (cn_sf z) t = Returned k c (Some r) \<and> cn_cache z = cn_cache y \<and>
    sf_mu (cn_sf z) = None \<and> sf_map (cn_sf z) k = None \<and> (\<forall>u. u \<noteq> t \<longrightarrow> sf_pc (cn_sf z) u = sf_pc (cn_sf y) u)"
proof -
  let ?cl = "\<lambda>w. \<lparr>wg = w, result = Some r\<rparr>" and ?s = "cn_sf y"
  let ?s1 = "?s\<lparr>sf_calls := (sf_calls ?s)(c \<mapsto> ?cl 1), sf_pc := (sf_pc ?s)(t := Ran k c)\<rparr>"
  let ?s2 = "?s1\<lparr>sf_calls := (sf_calls ?s1)(c \<mapsto> ?cl 0), sf_pc := (sf_pc ?s1)(t := WantRelock k c)\<rparr>"
  let ?s3 = "?s2\<lparr>sf_mu := Some t, sf_pc := (sf_pc ?s2)(t := Cleaning k c)\<rparr>"
  let ?s4 = "?s3\<lparr>sf_m := Some ((sf_map ?s3)(k := None)), sf_mu := None, sf_pc := (sf_pc ?s3)(t := Returning k c)\<rparr>"
  let ?s5 = "?s4\<lparr>sf_pc := (sf_pc ?s4)(t := Returned k c (Some r))\<rparr>"
  let ?y = "\<lambda>s f. y\<lparr>cn_sf := s, cn_fn := f\<rparr>"
  let ?f = "(cn_fn y)(t := FnLookup)"
  have "cn_act E t y (y\<lparr>cn_sf := ?s1\<rparr>)" using cn_return [OF assms(1,2,4), of E] by simp
  moreover have "cn_act E t (y\<lparr>cn_sf := ?s1\<rparr>) (?y ?s2 ?f)"
    using cn_do [of t "y\<lparr>cn_sf := ?s1\<rparr>" ?s2 E] sf_done [of ?s1 t k c "?cl 1"] by (simp add: in_fn_def)
  moreover have "cn_act E t (?y ?s2 ?f) (?y ?s3 ?f)"
    using cn_do [of t "?y ?s2 ?f" ?s3 E] sf_relock [of ?s2 t k c] assms(3) by (simp add: in_fn_def)
  moreover have "cn_act E t (?y ?s3 ?f) (?y ?s4 ?f)"
    using cn_do [of t "?y ?s3 ?f" ?s4 E] sf_clean [of ?s3 t k c] by (simp add: in_fn_def)
  moreover have "cn_act E t (?y ?s4 ?f) (?y ?s5 ?f)"
    using cn_do [of t "?y ?s4 ?f" ?s5 E] sf_return [of ?s4 t k c "?cl 0"] by (simp add: in_fn_def)
  ultimately have "(cn_step E)\<^sup>*\<^sup>* y (?y ?s5 ?f)" by (blast intro: cn_stepI)
  then show ?thesis by (intro exI [of _ "?y ?s5 ?f"]) simp
qed

lemma getter_answers: "ce_getter (env_of marshal g) k (fst (g_getter g k w))"
  by (cases "g_getter g k w") (auto simp: env_of_def)

text \<open>The function itself.\<close>

lemma Get_function:
  assumes run: "group_lookup marshal k g w = (Ret r, g', w')" and y: "sf_pc (cn_sf y) t = Running k c" "cn_fn y t = FnLookup"
    "cn_cache y = mainCache g"
  shows "\<exists>z. (cn_step (env_of marshal g))\<^sup>*\<^sup>* y z \<and> cn_sf z = cn_sf y \<and> cn_fn z t = FnResult r \<and> cn_cache z = mainCache g'"
proof -
  let ?E = "env_of marshal g"
  have t: "in_fn t k y" using y(1) by (auto simp: in_fn_def)
  obtain found d where get: "cache_get k (mainCache g) = (found, d)" by fastforce
  show ?thesis
  proof (cases found)
    case (Some v)
    then have r: "r = Inr v" "g' = g\<lparr>mainCache := d\<rparr>" using run get by (simp_all add: group_lookup_def)
    have "cn_act ?E t y (y\<lparr>cn_cache := d, cn_fn := (cn_fn y)(t := FnResult (Inr v))\<rparr>)"
      by (rule cn_hit [OF t y(2)]) (simp add: y(3) get Some)
    then show ?thesis using r by (intro exI [of _ "y\<lparr>cn_cache := d, cn_fn := (cn_fn y)(t := FnResult (Inr v))\<rparr>"])
      (auto intro: cn_stepI)
  next
    case None
    let ?y1 = "y\<lparr>cn_cache := d, cn_fn := (cn_fn y)(t := FnLoad)\<rparr>" and ?g = "g\<lparr>mainCache := d\<rparr>"
    have 1: "cn_act ?E t y ?y1" by (rule cn_miss [OF t y(2)]) (simp add: y(3) get None)
    have load: "group_load marshal k ?g w = (Ret r, g', w')" using run get None by (simp add: group_lookup_def)
    then obtain pick where pick: "g_peers g = Some pick" by (auto simp: group_load_def split: option.splits)
    let ?y2 = "\<lambda>f. ?y1\<lparr>cn_fn := (cn_fn ?y1)(t := f)\<rparr>"
    have E: "ce_peers ?E = Some (\<lambda>k ok. \<exists>w. (pick k w \<noteq> None) = ok)" using pick by (simp add: env_of_def)
    have t1: "in_fn t k ?y1" and t2: "in_fn t k (?y2 f)" for f using y(1) by (auto simp: in_fn_def)
    have 2: "cn_act ?E t ?y1 (?y2 (if pick k w \<noteq> None then FnPeer else FnGetter))"
      using cn_pick [OF t1 _ E, of "pick k w \<noteq> None"] by fastforce
    show ?thesis
    proof (cases "pick k w")
      case (Some peer)
      with load pick have "getFromPeer marshal peer k ?g w = (Ret r, g', w')" by (simp add: group_load_def)
      then obtain answer where answer: "peer \<lparr>pb_Group = g_name g, pb_Key = k\<rparr> w = (Ret answer, w')"
        and r: "r = peer_value marshal answer" "g' = ?g"
        by (auto simp: getFromPeer_def peer_value_def split: prod.splits outcome.splits sum.splits)
      have "ce_peer ?E \<lparr>pb_Group = ce_name ?E, pb_Key = k\<rparr> answer"
        using pick Some answer by (auto simp: env_of_def)
      from cn_peer [OF t2 _ this] have "cn_act ?E t (?y2 FnPeer) (?y2 FnPeer\<lparr>cn_fn := (cn_fn (?y2 FnPeer))(t := FnResult r)\<rparr>)"
        using r(1) by (simp add: env_of_def)
      moreover have "cn_act ?E t ?y1 (?y2 FnPeer)" using 2 Some by simp
      ultimately have "(cn_step ?E)\<^sup>*\<^sup>* y (?y2 FnPeer\<lparr>cn_fn := (cn_fn (?y2 FnPeer))(t := FnResult r)\<rparr>)"
        using 1 by (blast intro: cn_stepI)
      with r(2) show ?thesis
        by (intro exI [of _ "?y2 FnPeer\<lparr>cn_fn := (cn_fn (?y2 FnPeer))(t := FnResult r)\<rparr>"]) simp
    next
      case None
      with load pick have local: "getLocally k ?g w = (Ret r, g', w')" by (simp add: group_load_def)
      show ?thesis
      proof (cases "fst (g_getter g k w)")
        case (Inl err)
        with local have r: "r = Inl err" "g' = ?g" by (auto simp: getLocally_def split: prod.splits)
        have "ce_getter ?E k (Inl err)" using getter_answers [of marshal g k w] Inl by simp
        from cn_getter_fails [OF t2 _ this]
        have "cn_act ?E t (?y2 FnGetter) (?y2 FnGetter\<lparr>cn_fn := (cn_fn (?y2 FnGetter))(t := FnResult r)\<rparr>)"
          using r(1) by simp
        moreover have "cn_act ?E t ?y1 (?y2 FnGetter)" using 2 None by simp
        ultimately have "(cn_step ?E)\<^sup>*\<^sup>* y (?y2 FnGetter\<lparr>cn_fn := (cn_fn (?y2 FnGetter))(t := FnResult r)\<rparr>)"
          using 1 by (blast intro: cn_stepI)
        with r(2) show ?thesis
          by (intro exI [of _ "?y2 FnGetter\<lparr>cn_fn := (cn_fn (?y2 FnGetter))(t := FnResult r)\<rparr>"]) simp
      next
        case (Inr b)
        with local obtain c' where c': "cache_add k b d = Some c'" and r: "r = Inr b" "g' = ?g\<lparr>mainCache := c'\<rparr>"
          by (auto simp: getLocally_def populateCache_def split: prod.splits option.splits)
        let ?y3 = "?y2 FnGetter\<lparr>cn_fn := (cn_fn (?y2 FnGetter))(t := FnPopulate b), cn_loads := cn_loads y @ [(k, b)]\<rparr>"
        have t3: "in_fn t k ?y3" using y(1) by (auto simp: in_fn_def)
        have "ce_getter ?E k (Inr b)" using getter_answers [of marshal g k w] Inr by simp
        from cn_getter [OF t2 _ this] have 3: "cn_act ?E t (?y2 FnGetter) ?y3" by simp
        have "cn_act ?E t ?y3 (?y3\<lparr>cn_cache := c', cn_fn := (cn_fn ?y3)(t := FnResult r)\<rparr>)"
          using cn_populate [OF t3, of b c' ?E] c' r(1) by simp
        moreover have "cn_act ?E t ?y1 (?y2 FnGetter)" using 2 None by simp
        ultimately have "(cn_step ?E)\<^sup>*\<^sup>* y (?y3\<lparr>cn_cache := c', cn_fn := (cn_fn ?y3)(t := FnResult r)\<rparr>)"
          using 1 3 by (blast intro: cn_stepI)
        with r(2) show ?thesis
          by (intro exI [of _ "?y3\<lparr>cn_cache := c', cn_fn := (cn_fn ?y3)(t := FnResult r)\<rparr>"]) simp
      qed
    qed
  qed
qed

text \<open>
  \<open>group_Get\<close>, the model of a single goroutine, is one of the interleavings: a goroutine that finds nobody
  else in \<^verbatim>\<open>Do\<close> for its key can return the same result and leave the same cache.
\<close>

lemma Get_alone:
  assumes "group_Get marshal k g w = (Ret r, g', w')"
    and "cn_cache y = mainCache g" and "sf_pc (cn_sf y) t = Idle" and "sf_mu (cn_sf y) = None"
    and "sf_map (cn_sf y) k = None"
  shows "\<exists>z c. (cn_step (env_of marshal g))\<^sup>*\<^sup>* y z \<and> sf_pc (cn_sf z) t = Returned k c (Some r) \<and>
    cn_cache z = mainCache g' \<and> sf_mu (cn_sf z) = None \<and> sf_map (cn_sf z) k = None \<and>
    (\<forall>u. u \<noteq> t \<longrightarrow> sf_pc (cn_sf z) u = sf_pc (cn_sf y) u)"
proof -
  let ?g = "g\<lparr>loading := insert k (loading g)\<rparr>" and ?E = "env_of marshal g"
  obtain g1 where look: "group_lookup marshal k ?g w = (Ret r, g1, w')" "mainCache g1 = mainCache g'"
    using assms(1) by (auto simp: group_Get_def split: if_splits prod.splits outcome.splits)
  have E: "env_of marshal ?g = ?E" by (simp add: env_of_def)
  obtain y1 where y1: "(cn_step ?E)\<^sup>*\<^sup>* y y1" "sf_pc (cn_sf y1) t = Running k (sf_next (cn_sf y))" "cn_fn y1 t = FnLookup"
      "cn_cache y1 = cn_cache y" "sf_calls (cn_sf y1) (sf_next (cn_sf y)) = Some \<lparr>wg = 1, result = None\<rparr>" "sf_mu (cn_sf y1) = None"
      "\<forall>u. u \<noteq> t \<longrightarrow> sf_pc (cn_sf y1) u = sf_pc (cn_sf y) u"
    using Get_enters [OF assms(3-5) refl] by blast
  have "cn_cache y1 = mainCache ?g" using y1(4) assms(2) by simp
  from Get_function [OF look(1) y1(2,3) this, unfolded E]
  obtain y2 where y2: "(cn_step ?E)\<^sup>*\<^sup>* y1 y2" "cn_sf y2 = cn_sf y1" "cn_fn y2 t = FnResult r" "cn_cache y2 = mainCache g'"
    using look(2) by auto
  obtain z where z: "(cn_step ?E)\<^sup>*\<^sup>* y2 z" "sf_pc (cn_sf z) t = Returned k (sf_next (cn_sf y)) (Some r)" "cn_cache z = cn_cache y2"
      "sf_mu (cn_sf z) = None" "sf_map (cn_sf z) k = None" "\<forall>u. u \<noteq> t \<longrightarrow> sf_pc (cn_sf z) u = sf_pc (cn_sf y2) u"
    using Get_leaves [of y2 t k "sf_next (cn_sf y)" r ?E] y1(2,5,6) y2(2,3) by auto
  have "(cn_step ?E)\<^sup>*\<^sup>* y z" using y1(1) y2(1) z(1) by (meson rtranclp_trans)
  with z(2-6) y1(7) y2(2,4) show ?thesis by auto
qed

subsection \<open>What callers of Get can rely on\<close>

lemma returned_value:
  assumes "cn_inv E y" and "sf_pc (cn_sf y) t = Returned k c (Some r)"
  shows "value_ok E (cn_loads y) k r"
proof -
  have "sf_calls (cn_sf y) c = Some \<lparr>wg = 0, result = Some r\<rparr>"
    using sf_inv_D(6) [of "cn_sf y" t] assms by (simp add: cn_inv_def)
  moreover have "refers (sf_pc (cn_sf y) t) = Some (k, c)" using assms(2) by simp
  ultimately show ?thesis using assms(1) unfolding cn_inv_def values_ok_def by fastforce
qed

text \<open>
  Property C3. Through every interleaving of any number of goroutines in \<^verbatim>\<open>Get\<close>: a value that is
  returned for a key was returned for this very key by the getter or, if a peer can own the key,
  decoded from the answer of a peer; everything in the cache came from the getter for its
  key; and for each key at most one goroutine at a time is between the lookup and the end of the
  load.
\<close>

theorem conc_Get_faithful:
  assumes "reach cn_init (cn_step E) y"
  shows "(sf_pc (cn_sf y) t = Returned k c (Some (Inr v)) \<longrightarrow> ce_getter E k (Inr v) \<or> remote_value E k v) \<and>
    (cache_lookup (cn_cache y) k = Some v \<longrightarrow> ce_getter E k (Inr v)) \<and>
    (in_fn t k y \<and> in_fn u k y \<longrightarrow> u = t)"
proof -
  have inv: "cn_inv E y" by (rule caching.inv_reach [OF assms])
  then have loads: "\<And>k v. (k, v) \<in> set (cn_loads y) \<Longrightarrow> ce_getter E k (Inr v)"
    and cache: "cache_all (\<lambda>k v. (k, v) \<in> set (cn_loads y)) (cn_cache y)" and sf: "sf_inv (cn_sf y)"
    by (auto simp: cn_inv_def values_ok_def)
  show ?thesis
    using returned_value [OF inv, of t k c "Inr v"] loads [of k v] cache in_fn_unique [OF sf, of t k u]
    by (auto simp: cache_all_def)
qed

text \<open>
  Property C20. One load for each key: in a cache without a limit, however many goroutines ask for
  a key, at the same time or later, the getter returns a value for it at most once; and if no
  peer owns the key all of them that get a value get the same one.
\<close>

theorem conc_loads_once:
  assumes "reach cn_init (cn_step E) y" and "cacheBytes (cn_cache y) = 0"
  shows "loads_of k y \<le> 1 \<and>
    ((\<forall>pick. ce_peers E = Some pick \<longrightarrow> \<not> pick k True) \<and> sf_pc (cn_sf y) t = Returned k c (Some (Inr v)) \<and>
       sf_pc (cn_sf y) u = Returned k d (Some (Inr w)) \<longrightarrow> v = w)"
proof (intro conjI impI)
  have inv: "cn_inv E y" and once: "once_inv y" using loading_once.inv_reach [OF assms(1)] by blast+
  then show one: "loads_of k y \<le> 1" using assms(2) by (simp add: once_inv_def)
  assume own: "(\<forall>pick. ce_peers E = Some pick \<longrightarrow> \<not> pick k True) \<and> sf_pc (cn_sf y) t = Returned k c (Some (Inr v)) \<and>
    sf_pc (cn_sf y) u = Returned k d (Some (Inr w))"
  then have "\<not> remote_value E k x" for x by (auto simp: remote_value_def)
  then have "(k, v) \<in> set (filter (\<lambda>e. fst e = k) (cn_loads y))" "(k, w) \<in> set (filter (\<lambda>e. fst e = k) (cn_loads y))"
    using returned_value [OF inv, of t k c "Inr v"] returned_value [OF inv, of u k d "Inr w"] own by auto
  then show "v = w"
    using one unfolding loads_of_def
    by (cases "filter (\<lambda>e. fst e = k) (cn_loads y)") auto
qed

text \<open>A key of the group \<open>db_group\<close> that two goroutines ask for, one after the other.\<close>

definition db_env :: conc_env where
  "db_env = env_of (\<lambda>_. Inl ''unused'') (db_group 0 (Some (\<lambda>_ _. None)))"

lemma env_of_Get:
  assumes "group_Get marshal k g w = (Ret r, g', w')" and "cache_ok (mainCache g)"
  shows "env_of marshal g' = env_of marshal g"
proof -
  let ?g = "g\<lparr>loading := insert k (loading g)\<rparr>"
  obtain g1 where look: "group_lookup marshal k ?g w = (Ret r, g1, w')" "g' = g1\<lparr>loading := loading g1 - {k}\<rparr>"
    using assms(1) by (auto simp: group_Get_def split: if_splits prod.splits outcome.splits)
  have "cache_all (\<lambda>_ _. True) (mainCache ?g)" using assms(2) by (simp add: cache_all_def)
  from group_lookup_cache [OF this TrueI look(1)] look(2) show ?thesis by (simp add: env_of_def)
qed

lemma cn_limit:
  assumes "cn_inv E y" and "cn_act E t y z"
  shows "cacheBytes (cn_cache z) = cacheBytes (cn_cache y)"
proof -
  have ok: "cache_ok (cn_cache y)" using assms(1) by (simp add: cn_inv_def values_ok_def cache_all_def)
  from assms(2) show ?thesis
  proof cases
    case (cn_hit k v c)
    with guarded.get_limit [OF ok, of k] show ?thesis by simp
  next
    case (cn_miss k c)
    with guarded.get_limit [OF ok, of k] show ?thesis by simp
  next
    case (cn_populate k v c)
    with guarded.add_limit [OF ok cn_populate(4)] show ?thesis by simp
  qed simp_all
qed

lemma cn_limit_steps:
  "(cn_step E)\<^sup>*\<^sup>* y z \<Longrightarrow> cn_inv E y \<Longrightarrow> cn_inv E z \<and> cacheBytes (cn_cache z) = cacheBytes (cn_cache y)"
proof (induction rule: rtranclp_induct)
  case (step z u)
  with cn_limit [of E z _ u] caching.inv_step [of E z u] show ?case by (auto simp: cn_step_def)
qed simp

lemma db_Get_twice:
  "\<exists>g1 g2. group_Get (\<lambda>_. Inl ''unused'') ''A'' (db_group 0 (Some (\<lambda>_ _. None))) 0 = (Ret (Inr ''A''), g1, 1) \<and>
     group_Get (\<lambda>_. Inl ''unused'') ''A'' g1 1 = (Ret (Inr ''A''), g2, 1)"
  using group_Get_loads_once [of "db_group 0 (Some (\<lambda>_ _. None))" "''A''" "\<lambda>_ _. None" 0 "''A''" 1
      "\<lambda>_. Inl ''unused''"]
  by (auto simp: db_group_def db_getter_def cache_ok_def cache_lookup_def cache_fits_def
    cache_pairs_def pair_size_def view_Len_def sizes_ok_def spec_put_def)

lemma two_Gets:
  "\<exists>y c d. reach cn_init (cn_step db_env) y \<and> cacheBytes (cn_cache y) = 0 \<and>
     sf_pc (cn_sf y) 0 = Returned ''A'' c (Some (Inr ''A'')) \<and> sf_pc (cn_sf y) 1 = Returned ''A'' d (Some (Inr ''A''))"
proof -
  let ?m = "\<lambda>_. Inl ''unused'' :: goerror + string" and ?g = "db_group 0 (Some (\<lambda>_ _. None))"
  obtain g1 g2 where g1: "group_Get ?m ''A'' ?g 0 = (Ret (Inr ''A''), g1, 1)"
    and g2: "group_Get ?m ''A'' g1 1 = (Ret (Inr ''A''), g2, 1)"
    using db_Get_twice by blast
  have ok: "cache_ok (mainCache ?g)" by (simp add: db_group_def cache_ok_def)
  have E: "env_of ?m ?g = db_env" "env_of ?m g1 = db_env" using env_of_Get [OF g1 ok] by (simp_all add: db_env_def)
  have init: "cn_init (cn_start 0)" by (auto simp: cn_init_def)
  obtain y c where y: "(cn_step db_env)\<^sup>*\<^sup>* (cn_start 0) y" "sf_pc (cn_sf y) 0 = Returned ''A'' c (Some (Inr ''A''))"
    "cn_cache y = mainCache g1" "sf_mu (cn_sf y) = None" "sf_map (cn_sf y) ''A'' = None" "sf_pc (cn_sf y) 1 = Idle"
    using Get_alone [OF g1, of "cn_start 0" 0] unfolding E
    by (auto simp: cn_start_def db_group_def sf_start_def sf_map_def)
  obtain z d where z: "(cn_step db_env)\<^sup>*\<^sup>* y z" "sf_pc (cn_sf z) 1 = Returned ''A'' d (Some (Inr ''A''))"
    "sf_pc (cn_sf z) 0 = sf_pc (cn_sf y) 0"
    using Get_alone [OF g2 y(3,6,4,5)] unfolding E by (metis zero_neq_one)
  have run: "(cn_step db_env)\<^sup>*\<^sup>* (cn_start 0) z" using y(1) z(1) by (rule rtranclp_trans)
  then have "cacheBytes (cn_cache z) = 0"
    using cn_limit_steps [OF run cn_start_inv [OF init]] by (simp add: cn_start_def)
  moreover have "reach cn_init (cn_step db_env) z"
    by (rule caching.reach_steps [OF _ run]) (rule reach.reach_init [of cn_init, OF init])
  ultimately show ?thesis using z(2,3) y(2) by auto
qed

text \<open>The getter of this group returns the key itself.\<close>

lemma db_env_answers [simp]:
  "ce_getter db_env k (Inr v) \<longleftrightarrow> k \<in> {''A'', ''B'', ''C''} \<and> v = k" "\<not> remote_value db_env k v"
  by (auto simp: db_env_def env_of_def db_group_def db_getter_def remote_value_def)

theorem conc_Get_faithful_witness:
  "\<exists>y c d. reach cn_init (cn_step db_env) y \<and> sf_pc (cn_sf y) 0 = Returned ''A'' c (Some (Inr ''A'')) \<and>
     sf_pc (cn_sf y) 1 = Returned ''A'' d (Some (Inr ''A'')) \<and>
     (ce_getter db_env ''A'' (Inr ''A'') \<or> remote_value db_env ''A'' ''A'')"
proof -
  obtain y c d where y: "reach cn_init (cn_step db_env) y" "sf_pc (cn_sf y) 0 = Returned ''A'' c (Some (Inr ''A''))"
    "sf_pc (cn_sf y) 1 = Returned ''A'' d (Some (Inr ''A''))"
    using two_Gets by blast
  from conc_Get_faithful [OF y(1), of 0 "''A''" c "''A''" 0] y(2)
  have "ce_getter db_env ''A'' (Inr ''A'') \<or> remote_value db_env ''A'' ''A''" by simp
  with y show ?thesis by blast
qed

theorem conc_loads_once_witness:
  "\<exists>y c d. reach cn_init (cn_step db_env) y \<and> sf_pc (cn_sf y) 0 = Returned ''A'' c (Some (Inr ''A'')) \<and>
     sf_pc (cn_sf y) 1 = Returned ''A'' d (Some (Inr ''A'')) \<and> loads_of ''A'' y \<le> 1"
proof -
  obtain y c d where y: "reach cn_init (cn_step db_env) y" "cacheBytes (cn_cache y) = 0"
    "sf_pc (cn_sf y) 0 = Returned ''A'' c (Some (Inr ''A''))" "sf_pc (cn_sf y) 1 = Returned ''A'' d (Some (Inr ''A''))"
    using two_Gets by blast
  have "loads_of ''A'' y \<le> 1" using conc_loads_once [OF y(1,2), of "''A''"] by simp
  with y(1,3,4) show ?thesis by blast
qed

end
