(* ===== verification/Go_HTTP.thy ===== *)
theory Go_HTTP
  imports Go_Prelude
begin

section \<open>Package net/http: response writers\<close>

text \<open>
  What the handlers of the repository use of \<^verbatim>\<open>http.ResponseWriter\<close>: the response under
  construction with its status, headers and body, and \<^verbatim>\<open>http.Error\<close>.
\<close>

text \<open>
  A response writer: the headers set so far, the status and headers that were sent, and the
  body. The first \<^verbatim>\<open>WriteHeader\<close> sends the headers, a later one has no effect.
\<close>

record response_writer =
  rw_header :: "string \<rightharpoonup> string"
  rw_sent :: "(nat \<times> (string \<rightharpoonup> string)) option"
  rw_body :: string

definition rw_new :: response_writer where
  "rw_new = \<lparr>rw_header = Map.empty, rw_sent = None, rw_body = ''''\<rparr>"

definition rw_Set :: "string \<Rightarrow> string \<Rightarrow> response_writer \<Rightarrow> response_writer" where
  "rw_Set k v w = w\<lparr>rw_header := (rw_header w)(k \<mapsto> v)\<rparr>"

definition rw_WriteHeader :: "nat \<Rightarrow> response_writer \<Rightarrow> response_writer" where
  "rw_WriteHeader code w =
     (if rw_sent w = None then w\<lparr>rw_sent := Some (code, rw_header w)\<rparr> else w)"

definition rw_Write :: "string \<Rightarrow> response_writer \<Rightarrow> response_writer" where
  "rw_Write b w = (let w1 = rw_WriteHeader 200 w in w1\<lparr>rw_body := rw_body w1 @ b\<rparr>)"

text \<open>\<^verbatim>\<open>http.Error(w, msg, code)\<close>\<close>

definition http_Error :: "string \<Rightarrow> nat \<Rightarrow> response_writer \<Rightarrow> response_writer" where
  "http_Error msg code w =
     rw_Write (msg @ [CHR 0x0A]) (rw_WriteHeader code
       (rw_Set ''X-Content-Type-Options'' ''nosniff''
         (rw_Set ''Content-Type'' ''text/plain; charset=utf-8'' w)))"

text \<open>When the handler returns without having written, the status is 200.\<close>

definition rw_finish :: "response_writer \<Rightarrow> response_writer" where
  "rw_finish w = rw_WriteHeader 200 w"

text \<open>\<^verbatim>\<open>w.Header().Get(k)\<close> of what was sent; the empty string if the header is missing.\<close>

definition sent_header :: "string \<Rightarrow> response_writer \<Rightarrow> string" where
  "sent_header k w =
     (case rw_sent w of None \<Rightarrow> '''' | Some (_, hs) \<Rightarrow> (case hs k of None \<Rightarrow> '''' | Some v \<Rightarrow> v))"

subsection \<open>Registration of handlers\<close>

text \<open>
  \<^verbatim>\<open>http.DefaultServeMux\<close>: the handlers by their patterns. \<^verbatim>\<open>http.Handle\<close> panics for a pattern
  that is empty or already there.
\<close>

type_synonym 'h mux = "string \<rightharpoonup> 'h"

definition http_Handle :: "string \<Rightarrow> 'h \<Rightarrow> ('h mux, unit) stm" where
  "http_Handle pattern handler m =
     (if pattern = '''' then (Panic ''http: invalid pattern'', m)
      else case m pattern of
          Some _ \<Rightarrow> (Panic (''http: multiple registrations for '' @ pattern), m)
        | None \<Rightarrow> (Ret (), m(pattern \<mapsto> handler)))"

lemma http_Handle_new [stm_simps]:
  "pattern \<noteq> '''' \<Longrightarrow> m pattern = None \<Longrightarrow> http_Handle pattern h m = (Ret (), m(pattern \<mapsto> h))"
  by (simp add: http_Handle_def)

lemma http_Handle_again [stm_simps]:
  "pattern \<noteq> '''' \<Longrightarrow> m pattern = Some h' \<Longrightarrow>
   http_Handle pattern h m = (Panic (''http: multiple registrations for '' @ pattern), m)"
  by (simp add: http_Handle_def)

end
