(* ===== verification/CCache_HTTP.thy ===== *)
theory CCache_HTTP
  imports CCache_Group Consistent_Hash Go_HTTP
begin

section \<open>Package ccache: the pool of HTTP peers\<close>

text \<open>
  \<^verbatim>\<open>CCache/http.go\<close>. The record \<open>http_pool\<close> is the struct \<^verbatim>\<open>HTTPPool\<close>; a getter
  (\<^verbatim>\<open>httpGetter\<close>) is its base URL. The server side (\<^verbatim>\<open>ServeHTTP\<close>) writes to the
  response writer of \<open>Go_HTTP\<close>. What comes from outside is a
  parameter: \<^verbatim>\<open>proto.Marshal\<close>, \<^verbatim>\<open>proto.Unmarshal\<close> and the answers of \<^verbatim>\<open>http.Get\<close>. The
  functions \<^verbatim>\<open>url.QueryEscape\<close> of the client and the decoding of the request path by the
  server's \<^verbatim>\<open>net/http\<close> are modelled byte by byte.
\<close>

subsection \<open>Escaping of URLs\<close>

definition is_unreserved :: "char \<Rightarrow> bool" where
  "is_unreserved c \<longleftrightarrow>
     (CHR ''a'' \<le> c \<and> c \<le> CHR ''z'') \<or> (CHR ''A'' \<le> c \<and> c \<le> CHR ''Z'') \<or>
     (CHR ''0'' \<le> c \<and> c \<le> CHR ''9'') \<or> c \<in> {CHR ''-'', CHR ''_'', CHR ''.'', CHR ''~''}"

definition hex_digit :: "nat \<Rightarrow> char" where
  "hex_digit n = (if n < 10 then char_of (48 + n) else char_of (55 + n))"

definition escape_char :: "char \<Rightarrow> string" where
  "escape_char c =
     (if is_unreserved c then [c]
      else if c = CHR '' '' then [CHR ''+'']
      else [CHR ''%'', hex_digit (of_char c div 16), hex_digit (of_char c mod 16)])"

text \<open>\<^verbatim>\<open>url.QueryEscape(s)\<close>\<close>

definition QueryEscape :: "string \<Rightarrow> string" where
  "QueryEscape s = concat (map escape_char s)"

definition unhex :: "char \<Rightarrow> nat option" where
  "unhex c =
     (if CHR ''0'' \<le> c \<and> c \<le> CHR ''9'' then Some (of_char c - 48)
      else if CHR ''A'' \<le> c \<and> c \<le> CHR ''F'' then Some (of_char c - 55)
      else if CHR ''a'' \<le> c \<and> c \<le> CHR ''f'' then Some (of_char c - 87)
      else None)"

text \<open>
  The decoding of a path by \<^verbatim>\<open>url.Parse\<close>: \<^verbatim>\<open>%XX\<close> is a byte, a plus sign stands for
  itself; \<open>None\<close> is an invalid escape.
\<close>

fun path_unescape :: "string \<Rightarrow> string option" where
  "path_unescape [] = Some []"
| "path_unescape (c # s) =
     (if c = CHR ''%'' then
        (case s of
           a # b # t \<Rightarrow>
             (case (unhex a, unhex b) of
                (Some x, Some y) \<Rightarrow> map_option (\<lambda>r. char_of (16 * x + y) # r) (path_unescape t)
              | _ \<Rightarrow> None)
         | _ \<Rightarrow> None)
      else map_option (\<lambda>r. c # r) (path_unescape s))"

subsection \<open>State and construction\<close>

type_synonym httpGetter = string

record http_pool =
  self :: string
  basePath :: string
  pool_peers :: "ring option"
  httpGetters :: "string \<rightharpoonup> httpGetter"
  opt_replicas :: int

definition defaultBasePath :: string where
  "defaultBasePath = ''/ccache/''"

definition defaultReplicas :: int where
  "defaultReplicas = 3"

definition NewHTTPPoolWithOpts :: "string \<Rightarrow> int \<Rightarrow> http_pool" where
  "NewHTTPPoolWithOpts me replicas =
     (let hp = \<lparr>self = me, basePath = defaultBasePath, pool_peers = None,
                httpGetters = Map.empty, opt_replicas = 0\<rparr>
      in if replicas = 0 then hp\<lparr>opt_replicas := defaultReplicas\<rparr> else hp)"

subsection \<open>Peers\<close>

definition pool_Set :: "string list \<Rightarrow> http_pool \<Rightarrow> http_pool" where
  "pool_Set peers p =
     (let p1 = p\<lparr>pool_peers := Some (ring_Add peers (ring_NewMap (opt_replicas p) None))\<rparr>
      in p1\<lparr>httpGetters :=
              fold (\<lambda>peer m. m(peer \<mapsto> peer @ basePath p)) peers (httpGetters p1)\<rparr>)"

text \<open>
  \<open>None\<close> is the result \<^verbatim>\<open>nil, false\<close>; \<open>Some None\<close> is a nil getter with \<^verbatim>\<open>true\<close>.
\<close>

definition pool_PickPeer :: "string \<Rightarrow> http_pool \<Rightarrow> httpGetter option option" where
  "pool_PickPeer key p =
     (case pool_peers p of
        None \<Rightarrow> None
      | Some r \<Rightarrow>
          (let peer = ring_Get r key
           in if peer \<noteq> '''' \<and> peer \<noteq> self p then Some (httpGetters p peer) else None))"

subsection \<open>The client: httpGetter.Get\<close>

record http_answer =
  StatusCode :: nat
  Status :: string
  Body :: "goerror + string"    \<comment> \<open>what \<^verbatim>\<open>ioutil.ReadAll(res.Body)\<close> returns\<close>

definition getter_url :: "httpGetter \<Rightarrow> pb_Request \<Rightarrow> string" where
  "getter_url baseURL req =
     baseURL @ QueryEscape (pb_Group req) @ ''/'' @ QueryEscape (pb_Key req)"

text \<open>
  The result \<^verbatim>\<open>response\<close> is a pointer that starts as nil and is never assigned:
  \<^verbatim>\<open>proto.Unmarshal\<close> is called with the nil pointer, and \<^verbatim>\<open>return\<close> returns it.
  \<open>unmarshal\<close> gives the error of \<^verbatim>\<open>proto.Unmarshal\<close>, if any, or a panic.
\<close>

definition httpGetter_Get ::
  "(string \<Rightarrow> 'w \<Rightarrow> (goerror + http_answer) \<times> 'w) \<Rightarrow>
   (string \<Rightarrow> pb_Response option \<Rightarrow> goerror option outcome) \<Rightarrow>
   httpGetter \<Rightarrow> 'w peer_getter" where
  "httpGetter_Get http_get unmarshal baseURL req w =
     (let response = None
      in case http_get (getter_url baseURL req) w of
        (Inl err, w1) \<Rightarrow> (Ret (Inl err), w1)
      | (Inr res, w1) \<Rightarrow>
          (if StatusCode res \<noteq> 200
           then (Ret (Inl (''server response status:'' @ Status res)), w1)
           else
             (case Body res of
                Inl err \<Rightarrow> (Ret (Inl (''reading response body:'' @ err)), w1)
              | Inr bytes \<Rightarrow>
                  (bind_outcome (unmarshal bytes response) (\<lambda>err.
                     case err of
                       Some e \<Rightarrow> Ret (Inl (''unmarshal to proto error: '' @ e))
                     | None \<Rightarrow> Ret (Inr response)), w1))))"

subsection \<open>The server: ServeHTTP\<close>

text \<open>
  The handler, on the path of a request, the registered groups and the environment of their
  getters. A call of \<^verbatim>\<open>Get\<close> changes the group in place.
\<close>

definition pool_ServeHTTP ::
  "(pb_Response option \<Rightarrow> goerror + string) \<Rightarrow> http_pool \<Rightarrow> string \<Rightarrow> 'w groups \<Rightarrow> 'w \<Rightarrow>
   response_writer outcome \<times> 'w groups \<times> 'w" where
  "pool_ServeHTTP marshal p path gs w =
     (if \<not> hasPrefix path defaultBasePath
      then (Panic (''HTTPPool serving unexpected path: '' @ path), gs, w)
      else if length path < length (basePath p)
      then (Panic ''slice bounds out of range'', gs, w)
      else
        (case splitN2 (CHR ''/'') (drop (length (basePath p)) path) of
           [groupname, key] \<Rightarrow>
             (case GetGroup groupname gs of
                None \<Rightarrow> (Ret (http_Error ''No such group'' 404 rw_new), gs, w)
              | Some grp \<Rightarrow>
                  (case group_Get marshal key grp w of
                     (Ret r, g1, w1) \<Rightarrow>
                       (let gs1 = gs(groupname \<mapsto> g1);
                            value = (case r of Inl err \<Rightarrow> '''' | Inr v \<Rightarrow> v);
                            rw = (case r of Inl err \<Rightarrow> http_Error err 500 rw_new | Inr v \<Rightarrow> rw_new)
                        in case marshal (Some \<lparr>pb_Value = value\<rparr>) of
                             Inl err \<Rightarrow> (Ret (http_Error err 500 rw), gs1, w1)
                           | Inr response \<Rightarrow>
                               (Ret (rw_Write response
                                  (rw_Set ''Content-Type'' ''application/x-protobuf'' rw)), gs1, w1))
                   | (Panic m, g1, w1) \<Rightarrow> (Panic m, gs(groupname \<mapsto> g1), w1)
                   | (Exit m, g1, w1) \<Rightarrow> (Exit m, gs(groupname \<mapsto> g1), w1)
                   | (Hang, g1, w1) \<Rightarrow> (Hang, gs(groupname \<mapsto> g1), w1)))
         | _ \<Rightarrow> (Ret (http_Error ''Bad Request'' 400 rw_new), gs, w)))"

subsection \<open>Escaping and decoding\<close>

text \<open>What the decoded path shows of an escaped byte: a space has become a plus sign.\<close>

definition space_to_plus :: "char \<Rightarrow> char" where
  "space_to_plus c = (if c = CHR '' '' then CHR ''+'' else c)"

lemma unhex_hex_digit: "n < 16 \<Longrightarrow> unhex (hex_digit n) = Some n"
proof -
  have "\<forall>n \<in> set [0..<16]. unhex (hex_digit n) = Some n" by code_simp
  then show "n < 16 \<Longrightarrow> unhex (hex_digit n) = Some n" by simp
qed

lemma percent_reserved: "\<not> is_unreserved (CHR ''%'')"
  by code_simp

lemma slash_reserved: "\<not> is_unreserved (CHR ''/'')"
  by code_simp

lemma path_unescape_other: "c \<noteq> CHR ''%'' \<Longrightarrow> path_unescape (c # s) = map_option (\<lambda>r. c # r) (path_unescape s)"
  by simp

lemma escape_char_digits:
  assumes "\<not> is_unreserved c" and "c \<noteq> CHR '' ''"
  obtains a b x y where "escape_char c = [CHR ''%'', a, b]" "unhex a = Some x" "unhex b = Some y"
    "char_of (16 * x + y) = c" "x < 16" "y < 16" "a = hex_digit x" "b = hex_digit y"
proof -
  let ?n = "of_char c :: nat"
  have n: "?n < 256" by (rule nat_of_char_less_256)
  then have small: "?n div 16 < 16" "?n mod 16 < 16" by linarith+
  note digits = small [THEN unhex_hex_digit]
  have whole: "char_of (16 * (?n div 16) + ?n mod 16) = c" by simp
  show ?thesis
    by (rule that [OF _ digits whole small refl refl]) (use assms in \<open>simp add: escape_char_def\<close>)
qed

lemma path_unescape_char:
  "path_unescape (escape_char c @ s) = map_option (\<lambda>r. space_to_plus c # r) (path_unescape s)"
proof -
  consider "is_unreserved c" | "\<not> is_unreserved c" "c = CHR '' ''"
    | "\<not> is_unreserved c" "c \<noteq> CHR '' ''" by blast
  then show ?thesis
  proof cases
    case 1
    then have "c \<noteq> CHR ''%''" "c \<noteq> CHR '' ''" using percent_reserved by (auto simp: is_unreserved_def)
    with 1 show ?thesis by (simp add: escape_char_def space_to_plus_def path_unescape_other)
  next
    case 2
    then show ?thesis by (simp add: escape_char_def space_to_plus_def)
  next
    case 3
    then obtain a b x y where "escape_char c = [CHR ''%'', a, b]" "unhex a = Some x" "unhex b = Some y"
      "char_of (16 * x + y) = c" by (rule escape_char_digits)
    with 3(2) show ?thesis by (simp add: space_to_plus_def)
  qed
qed

lemma path_unescape_QueryEscape:
  "path_unescape (QueryEscape s @ t) = map_option (\<lambda>r. map space_to_plus s @ r) (path_unescape t)"
proof (induction s)
  case Nil
  then show ?case by (simp add: QueryEscape_def option.map_ident)
next
  case (Cons c s)
  have "QueryEscape (c # s) @ t = escape_char c @ (QueryEscape s @ t)"
    by (simp add: QueryEscape_def)
  with Cons show ?case by (simp add: path_unescape_char option.map_comp comp_def)
qed

text \<open>The path of a request that a getter sends, as the server sees it.\<close>

lemma request_path:
  "path_unescape (defaultBasePath @ QueryEscape g @ ''/'' @ QueryEscape k)
    = Some (defaultBasePath @ map space_to_plus g @ ''/'' @ map space_to_plus k)"
proof -
  have "path_unescape (QueryEscape k) = Some (map space_to_plus k)"
    using path_unescape_QueryEscape [of k "[]"] by simp
  then have "path_unescape (QueryEscape g @ ''/'' @ QueryEscape k)
    = Some (map space_to_plus g @ ''/'' @ map space_to_plus k)"
    by (simp add: path_unescape_QueryEscape)
  then show ?thesis by (simp add: defaultBasePath_def)
qed

lemma space_to_plus_slash: "CHR ''/'' \<in> set (map space_to_plus g) \<longleftrightarrow> CHR ''/'' \<in> set g"
  by (auto simp: space_to_plus_def image_iff)

lemma request_split:
  "CHR ''/'' \<notin> set g \<Longrightarrow>
   splitN2 (CHR ''/'') (drop (length defaultBasePath)
     (defaultBasePath @ map space_to_plus g @ ''/'' @ map space_to_plus k))
     = [map space_to_plus g, map space_to_plus k]"
  by (simp add: splitN2_first space_to_plus_slash del: set_map)

subsection \<open>Getters of the pool\<close>

lemma fold_getters:
  "fold (\<lambda>peer m. m(peer \<mapsto> peer @ b)) peers m q
    = (if q \<in> set peers then Some (q @ b) else m q)"
  by (induction peers arbitrary: m) auto

lemma PickPeer_Set:
  "pool_PickPeer key (pool_Set peers p)
    = (let owner = ring_Get (ring_Add peers (ring_NewMap (opt_replicas p) None)) key
       in if owner = '''' \<or> owner = self p then None else Some (Some (owner @ basePath p)))"
  using ring.pick_member [of peers "opt_replicas p" None key]
  by (simp add: pool_PickPeer_def pool_Set_def Let_def fold_getters)

text \<open>
  The pool as the \<^verbatim>\<open>PeerPicker\<close> of a group. A method call on a nil getter would panic.
\<close>

definition pool_picker ::
  "(string \<Rightarrow> 'w \<Rightarrow> (goerror + http_answer) \<times> 'w) \<Rightarrow>
   (string \<Rightarrow> pb_Response option \<Rightarrow> goerror option outcome) \<Rightarrow> http_pool \<Rightarrow> 'w peer_picker" where
  "pool_picker http_get unmarshal p key w =
     (case pool_PickPeer key p of
        None \<Rightarrow> None
      | Some None \<Rightarrow> Some (\<lambda>req w. (Panic ''nil pointer dereference'', w))
      | Some (Some url) \<Rightarrow> Some (httpGetter_Get http_get unmarshal url))"

lemma httpGetter_Get_nil:
  "fst (httpGetter_Get http_get unmarshal url req w) = Ret (Inr resp) \<Longrightarrow> resp = None"
  by (auto simp: httpGetter_Get_def Let_def bind_outcome_Ret_iff
    split: prod.splits sum.splits if_splits option.splits)

subsection \<open>Properties\<close>

text \<open>
  Property C28. After \<^verbatim>\<open>Set(peers...)\<close>, \<^verbatim>\<open>PickPeer\<close> chooses the getter of the node that the
  ring of these peers assigns to the key, with that node's base URL and never a nil getter,
  and chooses no peer exactly when that node is the pool itself or the ring is empty. A
  further peer takes over keys for itself only; getters left from an earlier \<^verbatim>\<open>Set\<close> are never
  picked.
\<close>

theorem PickPeer_correct:
  "pool_PickPeer key (pool_Set peers p)
     = (let owner = ring_Get (ring_Add peers (ring_NewMap (opt_replicas p) None)) key
        in if owner = '''' \<or> owner = self p then None else Some (Some (owner @ basePath p))) \<and>
   pool_PickPeer key (pool_Set (peers @ [new]) p)
     \<in> {pool_PickPeer key (pool_Set peers p),
        if new = '''' \<or> new = self p then None else Some (Some (new @ basePath p))}"
  using ring.pick_grow [of peers new "opt_replicas p" None key]
  by (auto simp: PickPeer_Set Let_def)

text \<open>
  The option of a number of replicas is lost: a pool created with any number but
  0 builds rings without points, so that \<^verbatim>\<open>PickPeer\<close> never chooses a peer and every node
  loads every key itself.
\<close>

theorem PickPeer_replicas_option_lost:
  assumes "replicas \<noteq> 0"
  shows "pool_PickPeer key (pool_Set peers (NewHTTPPoolWithOpts me replicas)) = None"
proof -
  have "concat (map (\<lambda>k. []) peers) = ([] :: int list)" by (induction peers) simp_all
  then have "ring_keys (ring_Add peers (ring_NewMap 0 None)) = []"
    by (simp add: ring_Add_eq ring_NewMap_def all_points_def del: concat_eq_Nil_conv)
  with assms show ?thesis
    by (simp add: PickPeer_Set NewHTTPPoolWithOpts_def Let_def ring_Get_empty)
qed

theorem PickPeer_replicas_option_lost_witness:
  "pool_PickPeer ''A'' (pool_Set [''localhost:8081'', ''localhost:8082'']
     (NewHTTPPoolWithOpts ''localhost:8081'' 5)) = None"
  by (rule PickPeer_replicas_option_lost) simp

text \<open>
  Property C19. The URL that a getter requests for a group and a key, decoded by the server,
  splits into exactly that group and key when the group has no slash, except that a space has
  become a plus sign: the handler calls \<^verbatim>\<open>Get\<close> for the requested key if it has no space, and
  answers with status 200 and the encoded value.
\<close>

theorem request_served:
  assumes "CHR ''/'' \<notin> set g" and "CHR '' '' \<notin> set g" and "basePath p = defaultBasePath"
    and "gs g = Some grp"
    and "group_Get marshal (map space_to_plus key) grp w = (Ret (Inr v), grp1, w1)"
    and "marshal (Some \<lparr>pb_Value = v\<rparr>) = Inr enc"
  shows "\<exists>path. path_unescape (drop (length peer)
        (getter_url (peer @ basePath p) \<lparr>pb_Group = g, pb_Key = key\<rparr>)) = Some path \<and>
    pool_ServeHTTP marshal p path gs w
      = (Ret \<lparr>rw_header = [''Content-Type'' \<mapsto> ''application/x-protobuf''],
             rw_sent = Some (200, [''Content-Type'' \<mapsto> ''application/x-protobuf'']),
             rw_body = enc\<rparr>, gs(g \<mapsto> grp1), w1) \<and>
    (CHR '' '' \<notin> set key \<longrightarrow> map space_to_plus key = key)"
proof -
  let ?path = "defaultBasePath @ map space_to_plus g @ ''/'' @ map space_to_plus key"
  have id: "map space_to_plus s = s" if "CHR '' '' \<notin> set s" for s
    using that by (intro map_idI) (auto simp: space_to_plus_def)
  have "path_unescape (drop (length peer)
      (getter_url (peer @ basePath p) \<lparr>pb_Group = g, pb_Key = key\<rparr>)) = Some ?path"
    using request_path [of g key] by (simp add: getter_url_def assms(3))
  moreover have "pool_ServeHTTP marshal p ?path gs w
      = (Ret \<lparr>rw_header = [''Content-Type'' \<mapsto> ''application/x-protobuf''],
             rw_sent = Some (200, [''Content-Type'' \<mapsto> ''application/x-protobuf'']),
             rw_body = enc\<rparr>, gs(g \<mapsto> grp1), w1)"
    unfolding pool_ServeHTTP_def assms(3) request_split [OF assms(1)]
    using assms(4-6) id [OF assms(2)]
    by (simp add: GetGroup_def rw_new_def rw_Set_def rw_Write_def rw_WriteHeader_def Let_def)
  ultimately show ?thesis using id by blast
qed

theorem request_served_witness:
  "\<exists>path grp1. path_unescape (drop (length ''h'')
        (getter_url (''h'' @ defaultBasePath) \<lparr>pb_Group = ''test'', pb_Key = ''A''\<rparr>)) = Some path \<and>
    fst (snd (pool_ServeHTTP (\<lambda>r. Inr ''enc'') (NewHTTPPoolWithOpts ''me'' 0) path
      [''test'' \<mapsto> db_group 2048 (Some (\<lambda>_ _. None))] 0)) = [''test'' \<mapsto> grp1]"
proof -
  let ?grp = "db_group 2048 (Some (\<lambda>_ _. None))" and ?p = "NewHTTPPoolWithOpts ''me'' 0"
  have ok: "cache_ok (mainCache ?grp)" by (simp add: db_group_def cache_ok_def)
  have fits: "cache_fits ''A'' ''A'' (mainCache ?grp)"
    by (simp add: db_group_def cache_fits_def cache_pairs_def pair_size_def view_Len_def
      sizes_ok_def spec_put_def)
  obtain c where "cache_add ''A'' ''A'' (mainCache ?grp) = Some c"
    using cache_add_fits [OF ok fits] by blast
  then have get: "group_Get (\<lambda>r. Inr ''enc'') (map space_to_plus ''A'') ?grp 0
    = (Ret (Inr ''A''), ?grp\<lparr>mainCache := c\<rparr>, 1)"
    using group_Get_local_miss [OF ok, of "''A''" "\<lambda>_ _. None" 0 "''A''" 1 c]
    by (simp add: db_group_def db_getter_def cache_lookup_def space_to_plus_def)
  have base: "basePath ?p = defaultBasePath" by (simp add: NewHTTPPoolWithOpts_def Let_def)
  have "\<exists>path. path_unescape (drop (length ''h'')
        (getter_url (''h'' @ basePath ?p) \<lparr>pb_Group = ''test'', pb_Key = ''A''\<rparr>)) = Some path \<and>
    pool_ServeHTTP (\<lambda>r. Inr ''enc'') ?p path [''test'' \<mapsto> ?grp] 0
      = (Ret \<lparr>rw_header = [''Content-Type'' \<mapsto> ''application/x-protobuf''],
             rw_sent = Some (200, [''Content-Type'' \<mapsto> ''application/x-protobuf'']),
             rw_body = ''enc''\<rparr>, [''test'' \<mapsto> ?grp](''test'' \<mapsto> ?grp\<lparr>mainCache := c\<rparr>), 1) \<and>
    (CHR '' '' \<notin> set ''A'' \<longrightarrow> map space_to_plus ''A'' = ''A'')"
    by (rule request_served [OF _ _ base _ get]) simp_all
  then obtain path where path: "path_unescape (drop (length ''h'')
        (getter_url (''h'' @ basePath ?p) \<lparr>pb_Group = ''test'', pb_Key = ''A''\<rparr>)) = Some path"
    and served: "fst (snd (pool_ServeHTTP (\<lambda>r. Inr ''enc'') ?p path [''test'' \<mapsto> ?grp] 0))
      = [''test'' \<mapsto> ?grp\<lparr>mainCache := c\<rparr>]"
    by (auto simp del: path_unescape.simps)
  show ?thesis
    by (intro exI [of _ path] exI [of _ "?grp\<lparr>mainCache := c\<rparr>"] conjI path [unfolded base] served)
qed

text \<open>
  When \<^verbatim>\<open>Get\<close> of the group fails, the handler reports the error with status 500
  but does not return: it goes on to encode an empty value and appends it to the body of the
  error.
\<close>

theorem ServeHTTP_error_falls_through:
  assumes "CHR ''/'' \<notin> set g" and "basePath p = defaultBasePath" and "gs g = Some grp"
    and "group_Get marshal key grp w = (Ret (Inl err), grp1, w1)"
    and "marshal (Some \<lparr>pb_Value = ''''\<rparr>) = Inr enc"
  shows "\<exists>rw. pool_ServeHTTP marshal p (defaultBasePath @ g @ ''/'' @ key) gs w
      = (Ret rw, gs(g \<mapsto> grp1), w1) \<and>
    (\<exists>hs. rw_sent rw = Some (500, hs) \<and> hs ''Content-Type'' = Some ''text/plain; charset=utf-8'') \<and>
    rw_body rw = err @ [CHR 0x0A] @ enc"
proof -
  have "splitN2 (CHR ''/'') (drop (length defaultBasePath) (defaultBasePath @ g @ ''/'' @ key)) = [g, key]"
    using assms(1) by (simp add: splitN2_first)
  then show ?thesis
    unfolding pool_ServeHTTP_def assms(2)
    by (simp add: assms(3-5) GetGroup_def rw_new_def rw_Set_def rw_Write_def rw_WriteHeader_def
      http_Error_def Let_def)
qed

theorem ServeHTTP_error_falls_through_witness:
  "\<exists>rw gs w. pool_ServeHTTP (\<lambda>r. Inr ''enc'') (NewHTTPPoolWithOpts ''me'' 0)
      (defaultBasePath @ ''test'' @ ''/'' @ ''Z'') [''test'' \<mapsto> db_group 0 (Some (\<lambda>_ _. None))] 0
      = (Ret rw, gs, w) \<and> rw_body rw = ''no Z'' @ [CHR 0x0A] @ ''enc''"
proof -
  let ?grp = "db_group 0 (Some (\<lambda>_ _. None))" and ?p = "NewHTTPPoolWithOpts ''me'' 0"
  have get: "group_Get (\<lambda>r. Inr ''enc'') ''Z'' ?grp 0 = (Ret (Inl ''no Z''), ?grp, 1)"
    by (simp add: group_defs db_group_def cache_get_def db_getter_def)
  have base: "basePath ?p = defaultBasePath" by (simp add: NewHTTPPoolWithOpts_def Let_def)
  have "\<exists>rw. pool_ServeHTTP (\<lambda>r. Inr ''enc'') ?p (defaultBasePath @ ''test'' @ ''/'' @ ''Z'')
      [''test'' \<mapsto> ?grp] 0 = (Ret rw, [''test'' \<mapsto> ?grp](''test'' \<mapsto> ?grp), 1) \<and>
    (\<exists>hs. rw_sent rw = Some (500, hs) \<and> hs ''Content-Type'' = Some ''text/plain; charset=utf-8'') \<and>
    rw_body rw = ''no Z'' @ [CHR 0x0A] @ ''enc''"
    by (rule ServeHTTP_error_falls_through [OF _ base _ get]) simp_all
  then show ?thesis by blast
qed



end
