(* ===== verification/SORM_Clause.thy ===== *)
theory SORM_Clause
  imports Go_Prelude "HOL-Library.Multiset" "HOL-Library.AList"
begin

section \<open>Package clause: generation of SQL clauses\<close>

text \<open>
  \<^verbatim>\<open>SORM/clause/clause.go\<close> and \<^verbatim>\<open>SORM/clause/generator.go\<close>. A value of type
  \<^verbatim>\<open>interface{}\<close> is a \<open>goval\<close> with its dynamic type; a generator takes a list of them and
  panics where the code's type assertions and index expressions do. A Go map is an
  association list with distinct keys; the order in which \<^verbatim>\<open>range\<close> visits it is a parameter
  \<open>rng\<close>, an arbitrary rearrangement.
\<close>

subsection \<open>Values of type interface{}\<close>

datatype goval =
    VNil
  | VBool bool
  | VInt int
  | VStr string
  | VStrs "string list"             \<comment> \<open>\<^verbatim>\<open>[]string\<close>\<close>
  | VList "goval list"              \<comment> \<open>\<^verbatim>\<open>[]interface{}\<close>\<close>
  | VMap "(string \<times> goval) list"    \<comment> \<open>\<^verbatim>\<open>map[string]interface{}\<close>\<close>

text \<open>
  \<^verbatim>\<open>fmt.Sprintf\<close> with the verb \<^verbatim>\<open>%s\<close> or \<^verbatim>\<open>%d\<close>: a value of another type is reported in
  the output, lists and maps (in the order of their keys) are printed element by element.
\<close>

definition fmt_bad :: "char \<Rightarrow> string \<Rightarrow> string \<Rightarrow> string" where
  "fmt_bad verb ty txt = ''%!'' @ [verb] @ ''('' @ ty @ ''='' @ txt @ '')''"

definition fmt_string :: "char \<Rightarrow> string \<Rightarrow> string" where
  "fmt_string verb s = (if verb = CHR ''s'' then s else fmt_bad verb ''string'' s)"

primrec fmt_verb :: "char \<Rightarrow> goval \<Rightarrow> string" where
  "fmt_verb verb VNil = ''%!'' @ [verb] @ ''(<nil>)''"
| "fmt_verb verb (VBool b) = fmt_bad verb ''bool'' (if b then ''true'' else ''false'')"
| "fmt_verb verb (VInt i) = (if verb = CHR ''d'' then itoa i else fmt_bad verb ''int'' (itoa i))"
| "fmt_verb verb (VStr s) = fmt_string verb s"
| "fmt_verb verb (VStrs ws) = ''['' @ go_join '' '' (map (fmt_string verb) ws) @ '']''"
| "fmt_verb verb (VList vs) = ''['' @ go_join '' '' (map (fmt_verb verb) vs) @ '']''"
| "fmt_verb verb (VMap m) =
     ''map['' @ go_join '' '' (map (\<lambda>(k, txt). fmt_string verb k @ '':'' @ txt)
       (sort_key fst (map (map_prod id (fmt_verb verb)) m))) @ '']''"

lemma fmt_s_string [simp]: "fmt_string (CHR ''s'') s = s"
  by (simp add: fmt_string_def)

text \<open>The index expression \<^verbatim>\<open>values[i]\<close> and the type assertions of the generators.\<close>

definition go_index :: "'a list \<Rightarrow> nat \<Rightarrow> 'a outcome" where
  "go_index xs i = (if i < length xs then Ret (xs ! i) else Panic ''index out of range'')"

fun as_strings :: "goval \<Rightarrow> string list outcome" where
  "as_strings (VStrs ws) = Ret ws"
| "as_strings _ = Panic ''interface conversion: not []string''"

fun as_list :: "goval \<Rightarrow> goval list outcome" where
  "as_list (VList vs) = Ret vs"
| "as_list _ = Panic ''interface conversion: not []interface {}''"

fun as_map :: "goval \<Rightarrow> (string \<times> goval) list outcome" where
  "as_map (VMap m) = Ret m"
| "as_map _ = Panic ''interface conversion: not map[string]interface {}''"

fun as_string :: "goval \<Rightarrow> string outcome" where
  "as_string (VStr s) = Ret s"
| "as_string _ = Panic ''interface conversion: not string''"

subsection \<open>The generators\<close>

type_synonym sql_vars = "string \<times> goval list"

definition genBindVars :: "nat \<Rightarrow> string" where
  "genBindVars num = go_join '', '' (fold (\<lambda>i vars. vars @ [''?'']) [0..<num] [])"

definition gen_select :: "goval list \<Rightarrow> sql_vars outcome" where
  "gen_select vals =
     bind_outcome (go_index vals 0) (\<lambda>tableName.
     bind_outcome (bind_outcome (go_index vals 1) as_strings) (\<lambda>names.
       let fields = go_join '','' names
       in Ret (''SELECT '' @ fields @ '' FROM '' @ fmt_verb (CHR ''s'') tableName, [])))"

definition gen_insert :: "goval list \<Rightarrow> sql_vars outcome" where
  "gen_insert vals =
     bind_outcome (go_index vals 0) (\<lambda>tableName.
     bind_outcome (bind_outcome (go_index vals 1) as_strings) (\<lambda>names.
       let fields = go_join '','' names
       in Ret (''INSERT INTO '' @ fmt_verb (CHR ''s'') tableName @ '' ('' @ fields @ '')'', [])))"

text \<open>
  The loop of \<^verbatim>\<open>_values\<close>: what it has written, the placeholders of a row (computed from the
  first row that has any), and the collected variables.
\<close>

fun gen_values_loop :: "goval list \<Rightarrow> string \<Rightarrow> string \<Rightarrow> goval list \<Rightarrow> sql_vars outcome" where
  "gen_values_loop [] sql bindStr vars = Ret (sql, vars)"
| "gen_values_loop (value # rest) sql bindStr vars =
     bind_outcome (as_list value) (\<lambda>v.
       let bindStr1 = (if bindStr = '''' then genBindVars (length v) else bindStr);
           sql1 = sql @ ''('' @ bindStr1 @ '')'';
           sql2 = (if rest \<noteq> [] then sql1 @ '', '' else sql1)
       in gen_values_loop rest sql2 bindStr1 (vars @ v))"

definition gen_values :: "goval list \<Rightarrow> sql_vars outcome" where
  "gen_values vals = gen_values_loop vals ''VALUES'' '''' []"

definition gen_limit :: "goval list \<Rightarrow> sql_vars outcome" where
  "gen_limit vals =
     bind_outcome (go_index vals 0) (\<lambda>limit. Ret (''LIMIT '' @ fmt_verb (CHR ''d'') limit, []))"

definition gen_orderBy :: "goval list \<Rightarrow> sql_vars outcome" where
  "gen_orderBy vals =
     bind_outcome (go_index vals 0) (\<lambda>v. Ret (''ORDER BY '' @ fmt_verb (CHR ''s'') v, []))"

definition gen_where :: "goval list \<Rightarrow> sql_vars outcome" where
  "gen_where vals =
     bind_outcome (go_index vals 0) (\<lambda>desc.
       let vars = tl vals in Ret (''WHERE '' @ fmt_verb (CHR ''s'') desc, vars))"

text \<open>The loop of \<^verbatim>\<open>_update\<close> over the entries of the map, in the order it visits them.\<close>

fun gen_update_loop ::
  "(string \<times> goval) list \<Rightarrow> string list \<Rightarrow> goval list \<Rightarrow> string list \<times> goval list" where
  "gen_update_loop [] keys vars = (keys, vars)"
| "gen_update_loop ((k, v) # items) keys vars =
     gen_update_loop items (keys @ [k @ '' = ?'']) (vars @ [v])"

definition gen_update ::
  "((string \<times> goval) list \<Rightarrow> (string \<times> goval) list) \<Rightarrow> goval list \<Rightarrow> sql_vars outcome" where
  "gen_update rng vals =
     bind_outcome (go_index vals 0) (\<lambda>table.
     bind_outcome (bind_outcome (go_index vals 1) as_map) (\<lambda>items.
       let (keys, vars) = gen_update_loop (rng items) [] []
       in Ret (''UPDATE '' @ fmt_verb (CHR ''s'') table @ '' '' @ ''SET '' @ go_join '', '' keys, vars)))"

definition gen_delete :: "goval list \<Rightarrow> sql_vars outcome" where
  "gen_delete vals =
     bind_outcome (go_index vals 0) (\<lambda>v. Ret (''DELETE FROM '' @ fmt_verb (CHR ''s'') v, []))"

definition gen_count :: "goval list \<Rightarrow> sql_vars outcome" where
  "gen_count vals =
     bind_outcome (go_index vals 0) (\<lambda>v. gen_select [v, VStrs [''COUNT(*)'']])"

subsection \<open>Clauses\<close>

datatype sqltype =
  INSERT | VALUES | SELECT | LIMIT | WHERE | ORDERBY | UPDATE | DELETE | COUNT

text \<open>The map \<^verbatim>\<open>generators\<close> that \<^verbatim>\<open>init\<close> fills.\<close>

fun generators ::
  "((string \<times> goval) list \<Rightarrow> (string \<times> goval) list) \<Rightarrow> sqltype \<Rightarrow> goval list \<Rightarrow> sql_vars outcome" where
  "generators rng INSERT = gen_insert"
| "generators rng VALUES = gen_values"
| "generators rng SELECT = gen_select"
| "generators rng WHERE = gen_where"
| "generators rng LIMIT = gen_limit"
| "generators rng ORDERBY = gen_orderBy"
| "generators rng UPDATE = gen_update rng"
| "generators rng DELETE = gen_delete"
| "generators rng COUNT = gen_count"

text \<open>The struct \<^verbatim>\<open>Clause\<close>; \<open>None\<close> is a nil map.\<close>

record clauses =
  c_sql :: "(sqltype \<rightharpoonup> string) option"
  c_sqlVars :: "(sqltype \<rightharpoonup> goval list) option"

definition clause_empty :: clauses where
  "clause_empty = \<lparr>c_sql = None, c_sqlVars = None\<rparr>"

text \<open>A write to a nil map panics, a read of one finds nothing.\<close>

definition map_write :: "'k \<Rightarrow> 'v \<Rightarrow> ('k \<rightharpoonup> 'v) option \<Rightarrow> ('k \<rightharpoonup> 'v) option outcome" where
  "map_write k v mo =
     (case mo of None \<Rightarrow> Panic ''assignment to entry in nil map'' | Some m \<Rightarrow> Ret (Some (m(k \<mapsto> v))))"

definition map_read :: "('k \<rightharpoonup> 'v) option \<Rightarrow> 'k \<Rightarrow> 'v option" where
  "map_read mo k = (case mo of None \<Rightarrow> None | Some m \<Rightarrow> m k)"

definition clause_Set ::
  "((string \<times> goval) list \<Rightarrow> (string \<times> goval) list) \<Rightarrow> sqltype \<Rightarrow> goval list \<Rightarrow> clauses \<Rightarrow>
   unit outcome \<times> clauses" where
  "clause_Set rng typ vals c =
     (let c1 = (if c_sql c = None then c\<lparr>c_sql := Some Map.empty, c_sqlVars := Some Map.empty\<rparr> else c)
      in case generators rng typ vals of
           Ret (sql, vars) \<Rightarrow>
             (case map_write typ sql (c_sql c1) of
                Ret m \<Rightarrow>
                  (let c2 = c1\<lparr>c_sql := m\<rparr>
                   in case map_write typ vars (c_sqlVars c2) of
                        Ret m' \<Rightarrow> (Ret (), c2\<lparr>c_sqlVars := m'\<rparr>)
                      | Panic e \<Rightarrow> (Panic e, c2)
                      | Exit e \<Rightarrow> (Exit e, c2)
                      | Hang \<Rightarrow> (Hang, c2))
              | Panic e \<Rightarrow> (Panic e, c1)
              | Exit e \<Rightarrow> (Exit e, c1)
              | Hang \<Rightarrow> (Hang, c1))
         | Panic e \<Rightarrow> (Panic e, c1)
         | Exit e \<Rightarrow> (Exit e, c1)
         | Hang \<Rightarrow> (Hang, c1))"

fun build_loop :: "clauses \<Rightarrow> sqltype list \<Rightarrow> string list \<Rightarrow> goval list \<Rightarrow> string list \<times> goval list" where
  "build_loop c [] sqls vars = (sqls, vars)"
| "build_loop c (typ # typs) sqls vars =
     (case map_read (c_sql c) typ of
        Some sql \<Rightarrow>
          build_loop c typs (sqls @ [sql])
            (vars @ (case map_read (c_sqlVars c) typ of Some vs \<Rightarrow> vs | None \<Rightarrow> []))
      | None \<Rightarrow> build_loop c typs sqls vars)"

text \<open>\<^verbatim>\<open>Build\<close>; the deferred function empties the clause.\<close>

definition clause_Build :: "sqltype list \<Rightarrow> clauses \<Rightarrow> sql_vars \<times> clauses" where
  "clause_Build typs c =
     (let (sqls, vars) = build_loop c typs [] []
      in ((go_join '' '' sqls, vars), c\<lparr>c_sql := None, c_sqlVars := None\<rparr>))"

subsection \<open>Placeholders\<close>

text \<open>The number of placeholders of a piece of SQL.\<close>

definition qmarks :: "string \<Rightarrow> nat" where
  "qmarks s = count_list s (CHR ''?'')"

named_theorems qmark_simps \<open>counting placeholders\<close>

lemma qmarks_Nil [qmark_simps, simp]: "qmarks [] = 0"
  by (simp add: qmarks_def)

lemma qmarks_Cons [qmark_simps]: "qmarks (c # s) = (if c = CHR ''?'' then 1 else 0) + qmarks s"
  by (simp add: qmarks_def)

lemma qmarks_append [qmark_simps]: "qmarks (s @ t) = qmarks s + qmarks t"
  by (induction s) (simp_all add: qmark_simps)

lemma qmarks_join:
  "qmarks sep = 0 \<Longrightarrow> qmarks (go_join sep ws) = sum_list (map qmarks ws)"
  by (induction sep ws rule: go_join.induct) (simp_all add: qmark_simps)

lemma qmarks_join_none:
  "qmarks sep = 0 \<Longrightarrow> (\<And>w. w \<in> set ws \<Longrightarrow> qmarks w = 0) \<Longrightarrow> qmarks (go_join sep ws) = 0"
  by (simp add: qmarks_join)

lemma genBindVars_eq: "genBindVars n = go_join '', '' (replicate n ''?'')"
proof -
  have "fold (\<lambda>i vars. vars @ [''?'']) [0..<n] vs = vs @ replicate n ''?''" for vs
    by (induction n) (simp_all add: replicate_append_same [symmetric])
  then show ?thesis by (simp add: genBindVars_def)
qed

lemma qmarks_genBindVars [qmark_simps]: "qmarks (genBindVars n) = n"
  by (simp add: genBindVars_eq qmarks_join qmark_simps sum_list_replicate)

subsection \<open>Closed forms of the generators\<close>

lemma gen_select_eq [simp]:
  "gen_select [VStr t, VStrs fs] = Ret (''SELECT '' @ go_join '','' fs @ '' FROM '' @ t, [])"
  by (simp add: gen_select_def go_index_def)

lemma gen_insert_eq [simp]:
  "gen_insert [VStr t, VStrs fs] = Ret (''INSERT INTO '' @ t @ '' ('' @ go_join '','' fs @ '')'', [])"
  by (simp add: gen_insert_def go_index_def)

lemma gen_where_eq [simp]: "gen_where (VStr d # vs) = Ret (''WHERE '' @ d, vs)"
  by (simp add: gen_where_def go_index_def)

lemma gen_orderBy_eq [simp]: "gen_orderBy [VStr d] = Ret (''ORDER BY '' @ d, [])"
  by (simp add: gen_orderBy_def go_index_def)

lemma gen_limit_eq [simp]: "gen_limit [VInt n] = Ret (''LIMIT '' @ itoa n, [])"
  by (simp add: gen_limit_def go_index_def)

lemma gen_delete_eq [simp]: "gen_delete [v] = Ret (''DELETE FROM '' @ fmt_verb (CHR ''s'') v, [])"
  by (simp add: gen_delete_def go_index_def)

lemma gen_count_eq [simp]: "gen_count [VStr t] = Ret (''SELECT COUNT(*) FROM '' @ t, [])"
  by (simp add: gen_count_def go_index_def)

lemma gen_values_loop_eq:
  "bind \<noteq> '''' \<Longrightarrow> gen_values_loop (map VList rows) sql bind vars
     = Ret (sql @ go_join '', '' (replicate (length rows) (''('' @ bind @ '')'')), vars @ concat rows)"
  by (induction rows arbitrary: sql vars) (auto simp: join_Cons_if Let_def)

lemma gen_values_eq:
  assumes "row \<noteq> []"
  shows "gen_values (map VList (row # rows))
    = Ret (''VALUES'' @ go_join '', '' (replicate (Suc (length rows))
          (''('' @ genBindVars (length row) @ '')'')), row @ concat rows)"
proof -
  have "genBindVars (length row) \<noteq> ''''"
    using assms qmarks_genBindVars [of "length row"] by (metis length_0_conv qmarks_Nil)
  then show ?thesis
    by (simp add: gen_values_def gen_values_loop_eq join_Cons_if Let_def)
qed

lemma gen_update_loop_eq:
  "gen_update_loop items keys vars
    = (keys @ map (\<lambda>kv. fst kv @ '' = ?'') items, vars @ map snd items)"
  by (induction items keys vars rule: gen_update_loop.induct) simp_all

lemma gen_update_eq [simp]:
  "gen_update rng [VStr t, VMap m]
    = Ret (''UPDATE '' @ t @ '' SET '' @ go_join '', '' (map (\<lambda>kv. fst kv @ '' = ?'') (rng m)),
        map snd (rng m))"
  by (simp add: gen_update_def go_index_def gen_update_loop_eq)

text \<open>The arguments on which a generator does not panic.\<close>

fun args_ok :: "sqltype \<Rightarrow> goval list \<Rightarrow> bool" where
  "args_ok VALUES vals \<longleftrightarrow> (\<forall>v \<in> set vals. \<exists>vs. v = VList vs)"
| "args_ok UPDATE vals \<longleftrightarrow> (\<exists>t m rest. vals = t # VMap m # rest)"
| "args_ok INSERT vals \<longleftrightarrow> (\<exists>t fs rest. vals = t # VStrs fs # rest)"
| "args_ok SELECT vals \<longleftrightarrow> (\<exists>t fs rest. vals = t # VStrs fs # rest)"
| "args_ok _ vals \<longleftrightarrow> vals \<noteq> []"

lemma as_list_Ret: "as_list v = Ret vs \<longleftrightarrow> v = VList vs"
  by (cases v) auto

lemma as_list_cases: "(\<exists>vs. v = VList vs) \<or> (\<exists>e. as_list v = Panic e)"
  by (cases v) auto

lemma as_strings_cases: "(\<exists>vs. v = VStrs vs) \<or> (\<exists>e. as_strings v = Panic e)"
  by (cases v) auto

lemma as_map_cases: "(\<exists>vs. v = VMap vs) \<or> (\<exists>e. as_map v = Panic e)"
  by (cases v) auto

definition returns_iff :: "'a outcome \<Rightarrow> bool \<Rightarrow> bool" where
  "returns_iff m ok = (if ok then \<exists>x. m = Ret x else \<exists>e. m = Panic e)"

lemma gen_values_loop_returns:
  "returns_iff (gen_values_loop vals sql bind vars) (args_ok VALUES vals)"
proof (induction vals sql bind vars rule: gen_values_loop.induct)
  case (1 sql bind vars)
  then show ?case by (simp add: returns_iff_def)
next
  case (2 v rest sql bind vars)
  from as_list_cases [of v] show ?case
  proof
    assume "\<exists>vs. v = VList vs"
    then obtain vs where v: "v = VList vs" ..
    with 2 show ?case by (simp add: Let_def)
  next
    assume "\<exists>e. as_list v = Panic e"
    then show ?case by (cases v) (auto simp: returns_iff_def)
  qed
qed

lemma index_args:
  "go_index vals 0 = (case vals of [] \<Rightarrow> Panic ''index out of range'' | v # _ \<Rightarrow> Ret v)"
  "go_index vals (Suc 0) = (case vals of _ # v # _ \<Rightarrow> Ret v | _ \<Rightarrow> Panic ''index out of range'')"
  by (auto simp: go_index_def split: list.splits)

lemma generators_returns: "returns_iff (generators rng typ vals) (args_ok typ vals)"
proof -
  consider "vals = []" | v where "vals = [v]" | v w rest where "vals = v # w # rest"
    by (metis list.exhaust)
  note shape = this
  have two: "returns_iff (gen_select vals) (args_ok SELECT vals)"
    "returns_iff (gen_insert vals) (args_ok INSERT vals)"
    "returns_iff (gen_update rng vals) (args_ok UPDATE vals)"
  proof (atomize (full), cases rule: shape)
    case 1
    then show "returns_iff (gen_select vals) (args_ok SELECT vals) \<and>
      returns_iff (gen_insert vals) (args_ok INSERT vals) \<and>
      returns_iff (gen_update rng vals) (args_ok UPDATE vals)"
      by (simp add: returns_iff_def gen_select_def gen_insert_def gen_update_def index_args)
  next
    case 2
    then show "returns_iff (gen_select vals) (args_ok SELECT vals) \<and>
      returns_iff (gen_insert vals) (args_ok INSERT vals) \<and>
      returns_iff (gen_update rng vals) (args_ok UPDATE vals)"
      by (simp add: returns_iff_def gen_select_def gen_insert_def gen_update_def index_args)
  next
    case (3 v w rest)
    then show "returns_iff (gen_select vals) (args_ok SELECT vals) \<and>
      returns_iff (gen_insert vals) (args_ok INSERT vals) \<and>
      returns_iff (gen_update rng vals) (args_ok UPDATE vals)"
      by (cases w) (auto simp: returns_iff_def gen_select_def gen_insert_def gen_update_def index_args
        gen_update_loop_eq)
  qed
  show ?thesis
  proof (cases "typ")
    case VALUES
    then show ?thesis using gen_values_loop_returns by (simp add: gen_values_def)
  qed (use two in \<open>auto simp: returns_iff_def gen_where_def gen_limit_def gen_orderBy_def
    gen_delete_def gen_count_def gen_select_def index_args split: list.splits\<close>)
qed

subsection \<open>What a clause promises\<close>

text \<open>
  The abstract state of a clause: the SQL and the variables last set for each type. The two
  maps are created together and have the same keys.
\<close>

definition clause_abs :: "clauses \<Rightarrow> sqltype \<rightharpoonup> sql_vars" where
  "clause_abs c typ =
     (case (map_read (c_sql c) typ, map_read (c_sqlVars c) typ) of
        (Some sql, Some vars) \<Rightarrow> Some (sql, vars) | _ \<Rightarrow> None)"

definition clause_wf :: "clauses \<Rightarrow> bool" where
  "clause_wf c \<longleftrightarrow> (c_sql c = None \<longleftrightarrow> c_sqlVars c = None) \<and>
     (\<forall>typ. map_read (c_sql c) typ = None \<longleftrightarrow> map_read (c_sqlVars c) typ = None)"

lemma clause_empty_wf [simp]: "clause_wf clause_empty" "clause_abs clause_empty = Map.empty"
  by (auto simp: clause_wf_def clause_empty_def clause_abs_def map_read_def)

lemma map_read_simps [simp]: "map_read None k = None" "map_read (Some m) k = m k"
  by (simp_all add: map_read_def)

lemma clause_Set_Ret:
  assumes wf: "clause_wf c" and gen: "generators rng typ vals = Ret sv"
  shows "\<exists>c'. clause_Set rng typ vals c = (Ret (), c') \<and> clause_wf c' \<and>
    clause_abs c' = (clause_abs c)(typ \<mapsto> sv)"
proof (cases "c_sql c")
  case None
  with assms show ?thesis
    by (cases sv) (auto simp: clause_Set_def map_write_def clause_wf_def clause_abs_def fun_eq_iff)
next
  case (Some m)
  with wf obtain m' where "c_sqlVars c = Some m'" by (auto simp: clause_wf_def)
  with Some assms show ?thesis
    by (cases sv) (auto simp: clause_Set_def map_write_def clause_wf_def clause_abs_def fun_eq_iff
      split: option.splits)
qed

lemma clause_Set_Panic:
  assumes wf: "clause_wf c" and gen: "generators rng typ vals = Panic e"
  shows "\<exists>c'. clause_Set rng typ vals c = (Panic e, c') \<and> clause_wf c' \<and> clause_abs c' = clause_abs c"
proof (cases "c_sql c")
  case None
  with assms show ?thesis
    by (auto simp: clause_Set_def clause_wf_def clause_abs_def fun_eq_iff)
next
  case (Some m)
  with assms show ?thesis by (auto simp: clause_Set_def Let_def)
qed

lemma clause_abs_None: "clause_wf c \<Longrightarrow> clause_abs c t = None \<Longrightarrow> map_read (c_sql c) t = None"
  by (auto simp: clause_wf_def clause_abs_def split: option.splits)

lemma clause_abs_Some:
  "clause_abs c t = Some sv \<Longrightarrow>
   map_read (c_sql c) t = Some (fst sv) \<and> map_read (c_sqlVars c) t = Some (snd sv)"
  by (auto simp: clause_abs_def split: option.splits)

lemma build_loop_eq:
  "clause_wf c \<Longrightarrow> build_loop c typs sqls vars
    = (sqls @ map fst (List.map_filter (clause_abs c) typs),
       vars @ concat (map snd (List.map_filter (clause_abs c) typs)))"
proof (induction typs arbitrary: sqls vars)
  case Nil
  then show ?case by (simp add: map_filter_simps)
next
  case (Cons t typs)
  then show ?case
    by (cases "clause_abs c t")
      (simp_all add: map_filter_simps clause_abs_None clause_abs_Some)
qed

lemma clause_Build_eq:
  "clause_wf c \<Longrightarrow> clause_Build typs c
    = ((go_join '' '' (map fst (List.map_filter (clause_abs c) typs)),
        concat (map snd (List.map_filter (clause_abs c) typs))), clause_empty)"
  by (simp add: clause_Build_def build_loop_eq clause_empty_def)

text \<open>A sequence of calls of \<^verbatim>\<open>Set\<close>, which ends at the first panic.\<close>

fun clause_sets ::
  "((string \<times> goval) list \<Rightarrow> (string \<times> goval) list) \<Rightarrow> (sqltype \<times> goval list) list \<Rightarrow> clauses \<Rightarrow>
   unit outcome \<times> clauses" where
  "clause_sets rng [] c = (Ret (), c)"
| "clause_sets rng ((typ, vals) # sets) c =
     (case clause_Set rng typ vals c of
        (Ret _, c') \<Rightarrow> clause_sets rng sets c'
      | (Panic e, c') \<Rightarrow> (Panic e, c')
      | (Exit e, c') \<Rightarrow> (Exit e, c')
      | (Hang, c') \<Rightarrow> (Hang, c'))"

text \<open>The SQL that the sets leave for a type: the one of the last set of that type.\<close>

fun last_set ::
  "((string \<times> goval) list \<Rightarrow> (string \<times> goval) list) \<Rightarrow> (sqltype \<times> goval list) list \<Rightarrow>
   (sqltype \<rightharpoonup> sql_vars) \<Rightarrow> sqltype \<rightharpoonup> sql_vars" where
  "last_set rng [] m = m"
| "last_set rng ((typ, vals) # sets) m =
     (case generators rng typ vals of
        Ret sv \<Rightarrow> last_set rng sets (m(typ \<mapsto> sv)) | _ \<Rightarrow> m)"

lemma clause_sets_abs:
  "clause_wf c \<Longrightarrow> \<exists>c'. snd (clause_sets rng sets c) = c' \<and> clause_wf c' \<and>
     clause_abs c' = last_set rng sets (clause_abs c) \<and>
     returns_iff (fst (clause_sets rng sets c)) (\<forall>(typ, vals) \<in> set sets. args_ok typ vals)"
proof (induction sets arbitrary: c)
  case Nil
  then show ?case by (simp add: returns_iff_def)
next
  case (Cons s sets)
  obtain t vals where s: "s = (t, vals)" by (cases s)
  show ?case
  proof (cases "args_ok t vals")
    case True
    with generators_returns [of rng t vals] obtain sv where gen: "generators rng t vals = Ret sv"
      by (auto simp: returns_iff_def)
    from clause_Set_Ret [OF Cons.prems gen] obtain c' where
      "clause_Set rng t vals c = (Ret (), c')" "clause_wf c'" "clause_abs c' = (clause_abs c)(t \<mapsto> sv)"
      by blast
    with Cons.IH [of c'] gen s True show ?thesis by (simp del: fun_upd_apply)
  next
    case False
    with generators_returns [of rng t vals] obtain e where gen: "generators rng t vals = Panic e"
      by (auto simp: returns_iff_def)
    from clause_Set_Panic [OF Cons.prems gen] gen s False show ?thesis
      by (auto simp: returns_iff_def)
  qed
qed

text \<open>The placeholders of an assignment list match the entries of the map.\<close>

lemma qmarks_update:
  assumes "mset (rng m) = mset m" and "qmarks t = 0" and "\<And>k. k \<in> fst ` set m \<Longrightarrow> qmarks k = 0"
  shows "qmarks (''UPDATE '' @ t @ '' SET '' @ go_join '', '' (map (\<lambda>kv. fst kv @ '' = ?'') (rng m)))
    = length (rng m)"
proof -
  have "set (rng m) = set m" using assms(1) by (metis set_mset_mset)
  then have "qmarks (fst kv @ '' = ?'') = 1" if "kv \<in> set (rng m)" for kv
    using assms(3) [of "fst kv"] that by (auto simp: qmark_simps)
  then have "map qmarks (map (\<lambda>kv. fst kv @ '' = ?'') (rng m)) = map (\<lambda>kv. 1) (rng m)"
    by simp
  then have "sum_list (map qmarks (map (\<lambda>kv. fst kv @ '' = ?'') (rng m))) = length (rng m)"
    by (simp only: sum_list_triv) simp
  then show ?thesis using assms(2) by (simp add: qmark_simps qmarks_join del: map_map)
qed

text \<open>A statement binds its variables when it has as many placeholders.\<close>

definition binds :: "sql_vars \<Rightarrow> bool" where
  "binds sv \<longleftrightarrow> qmarks (fst sv) = length (snd sv)"

subsection \<open>Properties\<close>

lemma sum_list_const_length:
  "(\<And>r. r \<in> set rows \<Longrightarrow> length r = n) \<Longrightarrow> length (concat rows) = length rows * n"
  by (induction rows) auto

text \<open>
  \<^verbatim>\<open>_values\<close> writes one parenthesised group of placeholders for every row, each as
  long as the first row, and passes the variables of all rows in order. The statement has as
  many placeholders as variables whenever all rows have the length of the first; otherwise
  the number of placeholders is still that of the first row times the number of rows.
\<close>

theorem gen_values_binds:
  assumes "row \<noteq> []"
  shows "\<exists>sql. gen_values (map VList (row # rows)) = Ret (sql, concat (row # rows)) \<and>
    sql = ''VALUES'' @ go_join '', '' (replicate (Suc (length rows))
            (''('' @ go_join '', '' (replicate (length row) ''?'') @ '')'')) \<and>
    qmarks sql = Suc (length rows) * length row \<and>
    ((\<forall>r \<in> set rows. length r = length row) \<longrightarrow> qmarks sql = length (concat (row # rows)))"
  using gen_values_eq [OF assms, of rows]
  by (simp add: genBindVars_eq [symmetric] qmark_simps qmarks_join sum_list_replicate
      sum_list_const_length [of rows "length row"])

theorem gen_values_binds_witness:
  "\<exists>sql. gen_values [VList [VStr ''Tom'', VInt 12], VList [VStr ''Bob'', VInt 15]]
     = Ret (sql, [VStr ''Tom'', VInt 12, VStr ''Bob'', VInt 15]) \<and>
   sql = ''VALUES(?, ?), (?, ?)'' \<and> qmarks sql = 4"
  using gen_values_binds [of "[VStr ''Tom'', VInt 12]" "[[VStr ''Bob'', VInt 15]]"]
  by (simp add: numeral_2_eq_2)

text \<open>
  \<^verbatim>\<open>_update\<close> visits the entries of the map in an arbitrary order; whatever it is,
  every entry is written once, the variable at each position is the value of the column
  named at the same position, and there are as many placeholders as variables.
\<close>

theorem gen_update_pairs:
  assumes "mset (rng m) = mset m" and "distinct (map fst m)" and "qmarks t = 0"
    and "\<And>k. k \<in> fst ` set m \<Longrightarrow> qmarks k = 0"
  shows "\<exists>keys vars sql. gen_update rng [VStr t, VMap m] = Ret (sql, vars) \<and>
    sql = ''UPDATE '' @ t @ '' SET '' @ go_join '', '' (map (\<lambda>k. k @ '' = ?'') keys) \<and>
    mset keys = mset (map fst m) \<and> map_of m = map_of (zip keys vars) \<and>
    length keys = length vars \<and> qmarks sql = length vars"
proof -
  let ?keys = "map fst (rng m)" and ?vars = "map snd (rng m)"
  have set: "set (rng m) = set m" using assms(1) by (metis set_mset_mset)
  have dist: "distinct (map fst (rng m))"
    using assms(1,2) by (metis mset_eq_imp_distinct_iff mset_map)
  have "qmarks (''UPDATE '' @ t @ '' SET '' @ go_join '', '' (map (\<lambda>k. k @ '' = ?'') ?keys)) = length ?vars"
    using qmarks_update [of rng m t] assms(1,3,4) by (simp add: comp_def)
  moreover have "map_of m = map_of (zip ?keys ?vars)"
    using set dist assms(2) by (simp add: zip_map_fst_snd map_of_inject_set)
  moreover have "mset ?keys = mset (map fst m)" using assms(1) by (metis mset_map)
  ultimately show ?thesis
    by (intro exI [of _ ?keys] exI [of _ ?vars]) (simp add: comp_def)
qed

theorem gen_update_pairs_witness:
  "\<exists>keys vars sql. gen_update rev [VStr ''User'', VMap [(''Name'', VStr ''Tom''), (''Age'', VInt 12)]]
     = Ret (sql, vars) \<and> qmarks sql = length vars \<and>
     map_of (zip keys vars) = [''Age'' \<mapsto> VInt 12, ''Name'' \<mapsto> VStr ''Tom'']"
proof -
  let ?m = "[(''Name'', VStr ''Tom''), (''Age'', VInt 12)]"
  have "\<exists>keys vars sql. gen_update rev [VStr ''User'', VMap ?m] = Ret (sql, vars) \<and>
    sql = ''UPDATE '' @ ''User'' @ '' SET '' @ go_join '', '' (map (\<lambda>k. k @ '' = ?'') keys) \<and>
    mset keys = mset (map fst ?m) \<and> map_of ?m = map_of (zip keys vars) \<and>
    length keys = length vars \<and> qmarks sql = length vars"
    by (rule gen_update_pairs) (auto simp: qmark_simps)
  then obtain keys vars sql where
    "gen_update rev [VStr ''User'', VMap ?m] = Ret (sql, vars)" "qmarks sql = length vars"
    "map_of (zip keys vars) = map_of ?m" by metis
  then show ?thesis by (intro exI [of _ keys] exI [of _ vars] exI [of _ sql]) auto
qed

text \<open>
  Property C23. After any sequence of calls of \<^verbatim>\<open>Set\<close> on an empty clause, \<^verbatim>\<open>Build\<close> joins, in the
  order of its arguments, the SQL that was last set for each type, skips types never set,
  concatenates the variables in the same order and leaves an empty clause. The calls all
  succeed exactly if their arguments have the types the generators assert; otherwise one
  panics and the clause keeps what was set before.
\<close>

theorem clause_Build_last_sets:
  "clause_Build typs (snd (clause_sets rng sets clause_empty))
     = (let parts = List.map_filter (last_set rng sets Map.empty) typs
        in ((go_join '' '' (map fst parts), concat (map snd parts)), clause_empty)) \<and>
   returns_iff (fst (clause_sets rng sets clause_empty)) (list_all (\<lambda>(t, vals). args_ok t vals) sets)"
  using clause_sets_abs [of clause_empty rng sets]
  by (auto simp: clause_Build_eq Let_def list_all_iff)

end
