(* ===== verification/SORM_Schema.thy ===== *)
theory SORM_Schema
  imports SORM_Clause
begin

section \<open>Packages dialect and schema: mapping of Go types to tables\<close>

text \<open>
  \<^verbatim>\<open>SORM/dialect/dialect.go\<close>, \<^verbatim>\<open>SORM/dialect/sqlite3.go\<close> and \<^verbatim>\<open>SORM/schema/schema.go\<close>. What
  the sources ask of package \<^verbatim>\<open>reflect\<close> is a datatype of Go types with their kinds, names and
  struct fields. The interface \<^verbatim>\<open>Dialector\<close> is the record \<open>dialector\<close>; the laws its clients
  rely on are the locale \<open>sound_dialector\<close>, interpreted for the dialect of the sources.
\<close>

subsection \<open>Types as reflect shows them\<close>

datatype kind =
    KBool | KInt | KInt8 | KInt16 | KInt32 | KInt64
  | KUint | KUint8 | KUint16 | KUint32 | KUint64 | KUintptr
  | KFloat32 | KFloat64 | KComplex64 | KComplex128
  | KArray | KChan | KFunc | KInterface | KMap | KPtr | KSlice | KString | KStruct | KUnsafePointer

fun kind_String :: "kind \<Rightarrow> string" where
  "kind_String KBool = ''bool''"
| "kind_String KInt = ''int''"
| "kind_String KInt8 = ''int8''"
| "kind_String KInt16 = ''int16''"
| "kind_String KInt32 = ''int32''"
| "kind_String KInt64 = ''int64''"
| "kind_String KUint = ''uint''"
| "kind_String KUint8 = ''uint8''"
| "kind_String KUint16 = ''uint16''"
| "kind_String KUint32 = ''uint32''"
| "kind_String KUint64 = ''uint64''"
| "kind_String KUintptr = ''uintptr''"
| "kind_String KFloat32 = ''float32''"
| "kind_String KFloat64 = ''float64''"
| "kind_String KComplex64 = ''complex64''"
| "kind_String KComplex128 = ''complex128''"
| "kind_String KArray = ''array''"
| "kind_String KChan = ''chan''"
| "kind_String KFunc = ''func''"
| "kind_String KInterface = ''interface''"
| "kind_String KMap = ''map''"
| "kind_String KPtr = ''ptr''"
| "kind_String KSlice = ''slice''"
| "kind_String KString = ''string''"
| "kind_String KStruct = ''struct''"
| "kind_String KUnsafePointer = ''unsafe.Pointer''"

text \<open>
  The kinds are finitely many, which makes quantified statements over them executable; their
  names tell them apart.
\<close>

definition all_kinds :: "kind list" where
  "all_kinds =
     [KBool, KInt, KInt8, KInt16, KInt32, KInt64, KUint, KUint8, KUint16, KUint32, KUint64, KUintptr,
      KFloat32, KFloat64, KComplex64, KComplex128, KArray, KChan, KFunc, KInterface, KMap, KPtr, KSlice,
      KString, KStruct, KUnsafePointer]"

lemma set_all_kinds: "set all_kinds = UNIV"
proof -
  have "k \<in> set all_kinds" for k by (cases k) (simp_all add: all_kinds_def)
  then show ?thesis by blast
qed

instantiation kind :: enum
begin

definition enum_kind :: "kind list" where
  "enum_kind = all_kinds"

definition enum_all_kind :: "(kind \<Rightarrow> bool) \<Rightarrow> bool" where
  "enum_all_kind P \<longleftrightarrow> list_all P all_kinds"

definition enum_ex_kind :: "(kind \<Rightarrow> bool) \<Rightarrow> bool" where
  "enum_ex_kind P \<longleftrightarrow> list_ex P all_kinds"

instance
proof
  show "UNIV = set (enum_class.enum :: kind list)" by (simp add: enum_kind_def set_all_kinds)
  show "distinct (enum_class.enum :: kind list)" by (simp add: enum_kind_def all_kinds_def)
  show "enum_class.enum_all P \<longleftrightarrow> Ball UNIV P" for P :: "kind \<Rightarrow> bool"
    by (simp add: enum_all_kind_def list_all_iff set_all_kinds)
  show "enum_class.enum_ex P \<longleftrightarrow> Bex UNIV P" for P :: "kind \<Rightarrow> bool"
    by (simp add: enum_ex_kind_def list_ex_iff set_all_kinds)
qed

end

lemma kind_String_inj: "kind_String k = kind_String l \<longleftrightarrow> k = l"
proof -
  have "distinct (map kind_String all_kinds)" by (simp add: all_kinds_def)
  then have "inj kind_String" by (simp only: distinct_map set_all_kinds)
  then show ?thesis by (rule inj_eq)
qed

text \<open>
  A type: one without fields, with its name (empty for an unnamed type) and kind; the struct
  \<^verbatim>\<open>time.Time\<close>; another struct with its fields; a pointer. A field has a name, tells whether
  it is embedded, and has a type and the value of the key \<^verbatim>\<open>sorm\<close> of its tag.
\<close>

datatype gotype =
    Basic string kind
  | TimeT
  | StructT string "field_decl list"
  | PtrT gotype
and field_decl = FieldDecl (fd_Name: string) (fd_Anonymous: bool) (fd_Type: gotype) (fd_Tag: "string option")

fun type_Kind :: "gotype \<Rightarrow> kind" where
  "type_Kind (Basic n k) = k"
| "type_Kind TimeT = KStruct"
| "type_Kind (StructT n fs) = KStruct"
| "type_Kind (PtrT t) = KPtr"

fun type_Name :: "gotype \<Rightarrow> string" where
  "type_Name (Basic n k) = n"
| "type_Name TimeT = ''Time''"
| "type_Name (StructT n fs) = n"
| "type_Name (PtrT t) = ''''"

text \<open>The fields of a struct type; for another type \<^verbatim>\<open>NumField\<close> panics.\<close>

fun type_Fields :: "gotype \<Rightarrow> field_decl list outcome" where
  "type_Fields (StructT n fs) = Ret fs"
| "type_Fields TimeT =
     Ret [FieldDecl ''wall'' False (Basic ''uint64'' KUint64) None,
          FieldDecl ''ext'' False (Basic ''int64'' KInt64) None,
          FieldDecl ''loc'' False (PtrT (StructT ''Location'' [])) None]"
| "type_Fields _ = Panic ''reflect: NumField of non-struct type''"


text \<open>
  A non-nil value of an interface type: its dynamic type, whether it is a nil pointer, the
  fields that \<^verbatim>\<open>FieldByName\<close> finds in the struct it is or points to, and the result of its
  method \<^verbatim>\<open>TableName\<close> if its type has one.
\<close>

record obj =
  o_type :: gotype
  o_nil :: bool
  o_field :: "string \<rightharpoonup> goval"
  o_TableName :: "string option"

fun indirect_type :: "gotype \<Rightarrow> gotype" where
  "indirect_type (PtrT t) = t"
| "indirect_type t = t"

subsection \<open>Package dialect\<close>

record dialector =
  ConvertTypeTo :: "gotype \<Rightarrow> string outcome"
  TableExistsSQL :: "string \<Rightarrow> string \<times> goval list"

definition sqlite3_ConvertTypeTo :: "gotype \<Rightarrow> string outcome" where
  "sqlite3_ConvertTypeTo t =
     (let k = type_Kind t;
          invalid = Panic (''invalid sql type '' @ type_Name t @ '' ('' @ kind_String k @ '')'')
      in if k = KBool then Ret ''bool''
         else if k \<in> {KInt, KInt8, KInt16, KInt32, KUintptr, KUint, KUint8, KUint16, KUint32}
         then Ret ''int''
         else if k \<in> {KFloat32, KFloat64} then Ret ''real''
         else if k \<in> {KInt64, KUint64} then Ret ''bigint''
         else if k = KString then Ret ''text''
         else if k \<in> {KArray, KSlice} then Ret ''blob''
         else if k = KStruct then (if t = TimeT then Ret ''datetime'' else invalid)
         else invalid)"

definition sqlite3_TableExistsSQL :: "string \<Rightarrow> string \<times> goval list" where
  "sqlite3_TableExistsSQL tableName =
     (let args = [VStr tableName];
          sql = ''SELECT name FROM sqlite_master WHERE TYPE= '' @ [CHR 0x27] @ ''table'' @ [CHR 0x27] @
                '' AND name= ?;''
      in (sql, args))"

definition sqlite3 :: dialector where
  "sqlite3 = \<lparr>ConvertTypeTo = sqlite3_ConvertTypeTo, TableExistsSQL = sqlite3_TableExistsSQL\<rparr>"

definition RegisterDialect :: "string \<Rightarrow> dialector \<Rightarrow> (string \<rightharpoonup> dialector) \<Rightarrow> (string \<rightharpoonup> dialector)" where
  "RegisterDialect name dialect m = (if m name = None then m(name \<mapsto> dialect) else m)"

definition GetDialect :: "string \<Rightarrow> (string \<rightharpoonup> dialector) \<Rightarrow> dialector option" where
  "GetDialect name m = m name"

text \<open>The registry after the package's \<^verbatim>\<open>init\<close>.\<close>

definition dialectsMap :: "string \<rightharpoonup> dialector" where
  "dialectsMap = RegisterDialect ''sqlite3'' sqlite3 Map.empty"

subsection \<open>Package schema\<close>

record field =
  f_Name :: string
  f_Type :: string
  f_Tag :: string

record schema =
  sc_Model :: obj
  sc_Name :: string
  sc_Fields :: "field list"
  sc_FieldNames :: "string list"
  sc_FieldMap :: "string \<rightharpoonup> field"

definition GetField :: "string \<Rightarrow> schema \<Rightarrow> field option" where
  "GetField name s = sc_FieldMap s name"

text \<open>The loop of \<^verbatim>\<open>Parse\<close> over the fields of the struct.\<close>

fun parse_fields :: "dialector \<Rightarrow> field_decl list \<Rightarrow> schema \<Rightarrow> schema outcome" where
  "parse_fields d [] s = Ret s"
| "parse_fields d (p # ps) s =
     (if \<not> fd_Anonymous p \<and> IsExported (fd_Name p)
      then bind_outcome (ConvertTypeTo d (fd_Type p)) (\<lambda>ty.
        let field0 = \<lparr>f_Name = fd_Name p, f_Type = ty, f_Tag = ''''\<rparr>;
            fld = (case fd_Tag p of Some v \<Rightarrow> field0\<lparr>f_Tag := v\<rparr> | None \<Rightarrow> field0)
        in parse_fields d ps
             (s\<lparr>sc_Fields := sc_Fields s @ [fld],
                sc_FieldNames := sc_FieldNames s @ [fd_Name p],
                sc_FieldMap := (sc_FieldMap s)(fd_Name p \<mapsto> fld)\<rparr>))
      else parse_fields d ps s)"

text \<open>\<^verbatim>\<open>Parse\<close>; \<open>None\<close> is the nil interface.\<close>

definition Parse :: "obj option \<Rightarrow> dialector \<Rightarrow> schema outcome" where
  "Parse dest d =
     (case dest of
        None \<Rightarrow> Panic ''reflect: call of reflect.Value.Type on zero Value''
      | Some x \<Rightarrow>
          if o_nil x then Panic ''reflect: call of reflect.Value.Type on zero Value''
          else
            (let modelType = indirect_type (o_type x);
                 tableName = (case o_TableName x of None \<Rightarrow> type_Name modelType | Some t \<Rightarrow> t);
                 s = \<lparr>sc_Model = x, sc_Name = tableName, sc_Fields = [], sc_FieldNames = [],
                      sc_FieldMap = Map.empty\<rparr>
             in bind_outcome (type_Fields modelType) (\<lambda>fs. parse_fields d fs s)))"

fun record_values_loop :: "field list \<Rightarrow> obj \<Rightarrow> goval list \<Rightarrow> goval list outcome" where
  "record_values_loop [] x vals = Ret vals"
| "record_values_loop (fld # flds) x vals =
     (case o_field x (f_Name fld) of
        None \<Rightarrow> Panic ''reflect: call of reflect.Value.Interface on zero Value''
      | Some v \<Rightarrow> record_values_loop flds x (vals @ [v]))"

definition RecordValues :: "obj \<Rightarrow> schema \<Rightarrow> goval list outcome" where
  "RecordValues dest s = record_values_loop (sc_Fields s) dest []"

subsection \<open>The contract of a dialect\<close>

text \<open>
  What the session relies on: the query for a table binds exactly the variables it comes
  with, and the type of a column contains no placeholder.
\<close>

locale sound_dialector =
  fixes d :: dialector
  assumes exists_binds: "qmarks (fst (TableExistsSQL d t)) = length (snd (TableExistsSQL d t))"
    and convert_plain: "ConvertTypeTo d ty = Ret s \<Longrightarrow> s \<noteq> '''' \<and> qmarks s = 0"
begin

lemma parse_fields_plain:
  "parse_fields d ps s = Ret s' \<Longrightarrow> (\<forall>f \<in> set (sc_Fields s). qmarks (f_Type f) = 0) \<Longrightarrow>
   (\<forall>f \<in> set (sc_Fields s'). qmarks (f_Type f) = 0)"
proof (induction ps arbitrary: s)
  case Nil
  then show ?case by simp
next
  case (Cons p ps)
  show ?case
  proof (cases "\<not> fd_Anonymous p \<and> IsExported (fd_Name p)")
    case True
    with Cons.prems(1) obtain ty where ty: "ConvertTypeTo d (fd_Type p) = Ret ty"
      by (auto simp: bind_outcome_Ret_iff)
    with Cons.prems(2) convert_plain [OF ty] show ?thesis
      by (intro Cons.IH [OF Cons.prems(1) [unfolded parse_fields.simps if_P [OF True] ty
        bind_outcome.simps Let_def]]) (simp split: option.split)
  next
    case False
    then have "parse_fields d ps s = Ret s'" using Cons.prems(1) by auto
    then show ?thesis using Cons.prems(2) by (rule Cons.IH)
  qed
qed

lemma parse_plain: "Parse x d = Ret s \<Longrightarrow> f \<in> set (sc_Fields s) \<Longrightarrow> qmarks (f_Type f) = 0"
  by (auto simp: Parse_def bind_outcome_Ret_iff Let_def dest!: parse_fields_plain
    split: option.splits if_splits)

end

lemma sqlite3_convert_cases:
  "sqlite3_ConvertTypeTo t = Ret s \<Longrightarrow>
   s \<in> {''bool'', ''int'', ''real'', ''bigint'', ''text'', ''blob'', ''datetime''}"
  by (auto simp: sqlite3_ConvertTypeTo_def Let_def split: if_splits)

text \<open>The dialect supports these kinds of types without fields, and no others.\<close>

lemma sqlite3_supports:
  "(\<exists>s. sqlite3_ConvertTypeTo (Basic n k) = Ret s) \<longleftrightarrow>
   k \<notin> {KComplex64, KComplex128, KChan, KFunc, KInterface, KMap, KPtr, KStruct, KUnsafePointer}"
proof -
  have "enum_class.enum_all (\<lambda>k :: kind. (case sqlite3_ConvertTypeTo (Basic n k) of Ret _ \<Rightarrow> True | _ \<Rightarrow> False) \<longleftrightarrow>
      k \<notin> {KComplex64, KComplex128, KChan, KFunc, KInterface, KMap, KPtr, KStruct, KUnsafePointer})"
    unfolding enum_all_kind_def all_kinds_def by (simp add: sqlite3_ConvertTypeTo_def)
  then have "(case sqlite3_ConvertTypeTo (Basic n k) of Ret _ \<Rightarrow> True | _ \<Rightarrow> False) \<longleftrightarrow>
      k \<notin> {KComplex64, KComplex128, KChan, KFunc, KInterface, KMap, KPtr, KStruct, KUnsafePointer}"
    unfolding enum_class.enum_all_UNIV by blast
  then show ?thesis by (cases "sqlite3_ConvertTypeTo (Basic n k)") simp_all
qed

text \<open>The panic for an unsupported type names its kind.\<close>

lemma sqlite3_panic_kind:
  assumes "sqlite3_ConvertTypeTo (Basic n k) = Panic e" and "sqlite3_ConvertTypeTo (Basic n l) = Panic e"
  shows "k = l"
  using assms by (auto simp: sqlite3_ConvertTypeTo_def Let_def kind_String_inj simp del: kind_String.simps split: if_splits)

interpretation lite: sound_dialector sqlite3
proof
  show "qmarks (fst (TableExistsSQL sqlite3 t)) = length (snd (TableExistsSQL sqlite3 t))" for t
    by (simp add: sqlite3_def sqlite3_TableExistsSQL_def qmark_simps)
  show "ConvertTypeTo sqlite3 ty = Ret s \<Longrightarrow> s \<noteq> '''' \<and> qmarks s = 0" for ty s
    using sqlite3_convert_cases [of ty s] by (auto simp: sqlite3_def qmark_simps)
qed

subsection \<open>What Parse computes\<close>

text \<open>The columns: the exported fields that are not embedded.\<close>

definition is_column :: "field_decl \<Rightarrow> bool" where
  "is_column p \<longleftrightarrow> \<not> fd_Anonymous p \<and> IsExported (fd_Name p)"

definition column :: "dialector \<Rightarrow> field_decl \<Rightarrow> field" where
  "column d p =
     \<lparr>f_Name = fd_Name p,
      f_Type = (case ConvertTypeTo d (fd_Type p) of Ret ty \<Rightarrow> ty | _ \<Rightarrow> ''''),
      f_Tag = (case fd_Tag p of Some v \<Rightarrow> v | None \<Rightarrow> '''')\<rparr>"

lemma column_name [simp]: "f_Name (column d p) = fd_Name p"
  by (simp add: column_def)

lemma parse_fields_eq:
  assumes "\<And>p. p \<in> set ps \<Longrightarrow> is_column p \<Longrightarrow> \<exists>ty. ConvertTypeTo d (fd_Type p) = Ret ty"
  shows "parse_fields d ps s = Ret (s\<lparr>
     sc_Fields := sc_Fields s @ map (column d) (filter is_column ps),
     sc_FieldNames := sc_FieldNames s @ map fd_Name (filter is_column ps),
     sc_FieldMap := sc_FieldMap s ++ map_of (rev (map (\<lambda>p. (fd_Name p, column d p)) (filter is_column ps)))\<rparr>)"
  using assms
proof (induction d ps s rule: parse_fields.induct)
  case (1 d s)
  then show ?case by simp
next
  case (2 d p ps s)
  show ?case
  proof (cases "is_column p")
    case True
    with 2(3) [of p] obtain ty where ty: "ConvertTypeTo d (fd_Type p) = Ret ty" by auto
    have fld: "(case fd_Tag p of Some v \<Rightarrow> \<lparr>f_Name = fd_Name p, f_Type = ty, f_Tag = ''''\<rparr>\<lparr>f_Tag := v\<rparr>
        | None \<Rightarrow> \<lparr>f_Name = fd_Name p, f_Type = ty, f_Tag = ''''\<rparr>) = column d p"
      by (simp add: column_def ty split: option.split)
    from True 2(1) [OF _ refl fld [symmetric]] 2(3) show ?thesis
      by (simp add: is_column_def ty fld Let_def map_add_assoc del: fun_upd_apply)
  next
    case False
    then have "parse_fields d (p # ps) s = parse_fields d ps s" by (auto simp: is_column_def)
    with 2(2) [folded is_column_def, OF False] 2(3) False show ?thesis by simp
  qed
qed

lemma parse_fields_converts:
  "parse_fields d ps s = Ret s' \<Longrightarrow> p \<in> set ps \<Longrightarrow> is_column p \<Longrightarrow>
   \<exists>ty. ConvertTypeTo d (fd_Type p) = Ret ty"
  by (induction d ps s rule: parse_fields.induct)
    (auto simp: is_column_def bind_outcome_Ret_iff Let_def split: if_splits)

text \<open>The schema that \<^verbatim>\<open>Parse\<close> returns when it returns one.\<close>

lemma Parse_Ret:
  assumes "Parse (Some x) d = Ret s"
  shows "\<exists>fs. type_Fields (indirect_type (o_type x)) = Ret fs \<and> sc_Model s = x \<and>
    sc_Name s = (case o_TableName x of None \<Rightarrow> type_Name (indirect_type (o_type x)) | Some t \<Rightarrow> t) \<and>
    sc_Fields s = map (column d) (filter is_column fs) \<and>
    sc_FieldNames s = map fd_Name (filter is_column fs) \<and>
    sc_FieldMap s = map_of (rev (map (\<lambda>p. (fd_Name p, column d p)) (filter is_column fs)))"
proof -
  obtain fs where fs: "type_Fields (indirect_type (o_type x)) = Ret fs"
    and parse: "parse_fields d fs \<lparr>sc_Model = x,
      sc_Name = (case o_TableName x of None \<Rightarrow> type_Name (indirect_type (o_type x)) | Some t \<Rightarrow> t),
      sc_Fields = [], sc_FieldNames = [], sc_FieldMap = Map.empty\<rparr> = Ret s"
    using assms by (auto simp: Parse_def bind_outcome_Ret_iff Let_def split: if_splits)
  from parse_fields_eq [OF parse_fields_converts [OF parse]] parse fs show ?thesis by auto
qed

lemma Parse_Ret_not_nil: "Parse x d = Ret s \<Longrightarrow> \<exists>y. x = Some y \<and> \<not> o_nil y"
  by (auto simp: Parse_def split: option.splits if_splits)

lemma Parse_names: "Parse x d = Ret s \<Longrightarrow> map f_Name (sc_Fields s) = sc_FieldNames s"
  using Parse_Ret_not_nil [of x d s] Parse_Ret [of "the x" d s] by (auto simp: comp_def)

text \<open>The types the dialect of SQLite has a column type for.\<close>

definition sqlite3_supported :: "gotype \<Rightarrow> bool" where
  "sqlite3_supported t \<longleftrightarrow> t = TimeT \<or>
     type_Kind t \<notin> {KStruct, KComplex64, KComplex128, KChan, KFunc, KInterface, KMap, KPtr, KUnsafePointer}"

lemma sqlite3_convert_supported:
  "sqlite3_supported t \<Longrightarrow> \<exists>ty. sqlite3_ConvertTypeTo t = Ret ty"
  "\<not> sqlite3_supported t \<Longrightarrow> sqlite3_ConvertTypeTo t
     = Panic (''invalid sql type '' @ type_Name t @ '' ('' @ kind_String (type_Kind t) @ '')'')"
  by (cases "type_Kind t"; auto simp: sqlite3_supported_def sqlite3_ConvertTypeTo_def)+

lemma parse_fields_unsupported:
  "p \<in> set ps \<Longrightarrow> is_column p \<Longrightarrow> \<not> sqlite3_supported (fd_Type p) \<Longrightarrow>
   \<exists>q \<in> set ps. is_column q \<and> \<not> sqlite3_supported (fd_Type q) \<and>
     parse_fields sqlite3 ps s = Panic (''invalid sql type '' @ type_Name (fd_Type q) @ '' ('' @
       kind_String (type_Kind (fd_Type q)) @ '')'')"
proof (induction ps arbitrary: s)
  case Nil
  then show ?case by simp
next
  case (Cons q ps)
  consider (bad) "is_column q" "\<not> sqlite3_supported (fd_Type q)"
    | (good) "is_column q" "sqlite3_supported (fd_Type q)" | (skip) "\<not> is_column q" by blast
  then show ?case
  proof cases
    case bad
    then show ?thesis
      using sqlite3_convert_supported(2) [OF bad(2)]
      by (intro bexI [of _ q]) (auto simp: is_column_def sqlite3_def)
  next
    case good
    with Cons.prems have "p \<in> set ps" by auto
    from sqlite3_convert_supported(1) [OF good(2)] obtain ty where "sqlite3_ConvertTypeTo (fd_Type q) = Ret ty" ..
    with good have "\<exists>s'. parse_fields sqlite3 (q # ps) s = parse_fields sqlite3 ps s'"
      by (auto simp: is_column_def sqlite3_def Let_def)
    with Cons.IH [OF \<open>p \<in> set ps\<close> Cons.prems(2,3)] show ?thesis by (metis list.set_intros(2))
  next
    case skip
    with Cons.prems have "p \<in> set ps" by auto
    have "parse_fields sqlite3 (q # ps) s = parse_fields sqlite3 ps s"
      using skip by (auto simp: is_column_def)
    with Cons.IH [OF \<open>p \<in> set ps\<close> Cons.prems(2,3)] show ?thesis by (metis list.set_intros(2))
  qed
qed

lemma map_of_columns:
  assumes "distinct (map fd_Name fs)"
  shows "map_of (rev (map (\<lambda>p. (fd_Name p, column d p)) fs)) name
    = find (\<lambda>f. f_Name f = name) (map (column d) fs)"
proof -
  have "map_of (rev (map (\<lambda>p. (fd_Name p, column d p)) fs))
      = map_of (map (\<lambda>p. (fd_Name p, column d p)) fs)"
    using assms by (subst map_of_inject_set) (simp_all add: comp_def distinct_map rev_map [symmetric])
  moreover have "map_of (map (\<lambda>p. (fd_Name p, column d p)) fs) name
      = find (\<lambda>f. f_Name f = name) (map (column d) fs)"
    by (induction fs) auto
  ultimately show ?thesis by simp
qed

lemma record_values_eq:
  "record_values_loop flds x vals =
    (if list_all (\<lambda>f. o_field x (f_Name f) \<noteq> None) flds
     then Ret (vals @ map (\<lambda>f. the (o_field x (f_Name f))) flds)
     else Panic ''reflect: call of reflect.Value.Interface on zero Value'')"
  by (induction flds x vals rule: record_values_loop.induct) (auto split: option.splits)

lemma RecordValues_length: "RecordValues x s = Ret vs \<Longrightarrow> length vs = length (sc_Fields s)"
  by (auto simp: RecordValues_def record_values_eq split: if_splits)

lemma RecordValues_not_other: "RecordValues x s \<noteq> Exit e" "RecordValues x s \<noteq> Hang"
  by (auto simp: RecordValues_def record_values_eq)

subsection \<open>Properties\<close>

text \<open>
  Property C24. For a value whose struct fields have distinct names, \<^verbatim>\<open>Parse\<close> with the dialect
  of SQLite returns a schema whose columns are exactly the exported fields that are not
  embedded, in the order of the struct, whose table is named by \<^verbatim>\<open>TableName\<close> or the type, and
  whose map finds each column by its name; if the type of one of these fields has no column
  type it panics, naming such a type.
\<close>

theorem Parse_correct:
  assumes "\<not> o_nil x" and "type_Fields (indirect_type (o_type x)) = Ret fs"
    and "distinct (map fd_Name fs)"
  shows "if list_all (\<lambda>p. is_column p \<longrightarrow> sqlite3_supported (fd_Type p)) fs
    then \<exists>s. Parse (Some x) sqlite3 = Ret s \<and> sc_Model s = x \<and>
      sc_Name s = (case o_TableName x of None \<Rightarrow> type_Name (indirect_type (o_type x)) | Some t \<Rightarrow> t) \<and>
      sc_FieldNames s = map fd_Name (filter is_column fs) \<and>
      sc_Fields s = map (column sqlite3) (filter is_column fs) \<and>
      (\<forall>name. GetField name s = find (\<lambda>f. f_Name f = name) (sc_Fields s))
    else \<exists>q \<in> set fs. is_column q \<and> \<not> sqlite3_supported (fd_Type q) \<and>
      Parse (Some x) sqlite3 = Panic (''invalid sql type '' @ type_Name (fd_Type q) @ '' ('' @
        kind_String (type_Kind (fd_Type q)) @ '')'')"
proof (cases "list_all (\<lambda>p. is_column p \<longrightarrow> sqlite3_supported (fd_Type p)) fs")
  case True
  then have "\<exists>ty. ConvertTypeTo sqlite3 (fd_Type p) = Ret ty" if "p \<in> set fs" "is_column p" for p
    using that sqlite3_convert_supported(1) by (auto simp: list_all_iff sqlite3_def)
  from parse_fields_eq [of fs sqlite3, OF this] obtain s where "Parse (Some x) sqlite3 = Ret s"
    using assms(1,2) by (simp add: Parse_def Let_def)
  moreover have "distinct (map fd_Name (filter is_column fs))"
    using assms(3) by (rule distinct_map_filter)
  ultimately show ?thesis
    using True Parse_Ret [of x sqlite3 s] assms(2) by (auto simp: GetField_def map_of_columns)
next
  case False
  then obtain p where "p \<in> set fs" "is_column p" "\<not> sqlite3_supported (fd_Type p)"
    by (auto simp: list_all_iff)
  from parse_fields_unsupported [OF this] False show ?thesis
    using assms(1,2) by (simp add: Parse_def Let_def)
qed

definition user_type :: gotype where
  "user_type = StructT ''User''
     [FieldDecl ''Name'' False (Basic ''string'' KString) (Some ''PRIMARY KEY''),
      FieldDecl ''age'' False (Basic ''int'' KInt) None,
      FieldDecl ''Age'' False (Basic ''int'' KInt) None]"

definition user_obj :: "string \<Rightarrow> int \<Rightarrow> obj" where
  "user_obj name age = \<lparr>o_type = PtrT user_type, o_nil = False,
     o_field = [''Name'' \<mapsto> VStr name, ''Age'' \<mapsto> VInt age], o_TableName = None\<rparr>"

theorem Parse_correct_witness:
  "\<exists>s. Parse (Some (user_obj ''Tom'' 12)) sqlite3 = Ret s \<and> sc_FieldNames s = [''Name'', ''Age'']"
  using Parse_correct [of "user_obj ''Tom'' 12"]
  by (auto simp: user_obj_def user_type_def is_column_def IsExported_def sqlite3_supported_def
    less_eq_char_def)

text \<open>
  The values that \<^verbatim>\<open>RecordValues\<close> collects from an object line up with the
  column names of a parsed schema: there are as many, and each is the object's field of that
  name; an object without one of the fields makes it panic.
\<close>

theorem RecordValues_aligned:
  assumes "Parse x d = Ret s"
  shows "if list_all (\<lambda>n. o_field y n \<noteq> None) (sc_FieldNames s)
    then \<exists>vs. RecordValues y s = Ret vs \<and> length vs = length (sc_FieldNames s) \<and>
      list_all (\<lambda>(n, v). o_field y n = Some v) (zip (sc_FieldNames s) vs)
    else RecordValues y s = Panic ''reflect: call of reflect.Value.Interface on zero Value''"
proof -
  have "sc_FieldNames s = map f_Name (sc_Fields s)" using Parse_names [OF assms] by simp
  then show ?thesis
    by (auto simp: RecordValues_def record_values_eq list_all_iff set_zip)
qed

theorem RecordValues_aligned_witness:
  "\<exists>vs. (\<exists>s. Parse (Some (user_obj ''Tom'' 12)) sqlite3 = Ret s \<and>
      RecordValues (user_obj ''Bob'' 15) s = Ret vs) \<and> length vs = 2"
proof -
  obtain s where s: "Parse (Some (user_obj ''Tom'' 12)) sqlite3 = Ret s"
    "sc_FieldNames s = [''Name'', ''Age'']"
    by (auto simp: Parse_def user_obj_def user_type_def IsExported_def less_eq_char_def sqlite3_def
      sqlite3_ConvertTypeTo_def Let_def)
  with RecordValues_aligned [OF s(1), of "user_obj ''Bob'' 15"] show ?thesis
    by (fastforce simp: user_obj_def)
qed

end
