(* ===== verification/SORM_Logger.thy ===== *)
theory SORM_Logger
  imports Go_Prelude
begin

section \<open>Package logger: levels\<close>

text \<open>
  \<^verbatim>\<open>SORM/logger/log.go\<close>. The two loggers of the package have a writer each, which
  \<^verbatim>\<open>SetLevel\<close> changes; \<open>log_stdout\<close> collects what reaches the standard output. The time and
  position that package \<^verbatim>\<open>log\<close> puts into a line are the parameter \<open>stamp\<close>. The rest of the
  development uses of the loggers only that \<^verbatim>\<open>Error\<close> ends the process, \<open>logger_Error\<close>.
\<close>

datatype log_writer = Stdout | Discard

record log_state =
  log_errlog :: log_writer
  log_infolog :: log_writer
  log_stdout :: "string list"

definition errlog_prefix :: string where
  "errlog_prefix = CHR 0x1B # ''[31m[error]'' @ CHR 0x1B # ''[0m''"

definition infolog_prefix :: string where
  "infolog_prefix = CHR 0x1B # ''[34m[info]'' @ CHR 0x1B # ''[0m''"

definition log_init :: log_state where
  "log_init = \<lparr>log_errlog = Stdout, log_infolog = Stdout, log_stdout = []\<rparr>"

text \<open>\<^verbatim>\<open>log.Logger.Output\<close>: a line break is added if the message does not end with one.\<close>

definition log_Output :: "log_writer \<Rightarrow> string \<Rightarrow> string \<Rightarrow> string \<Rightarrow> log_state \<Rightarrow> log_state" where
  "log_Output out prefix stamp msg s =
     (let line = prefix @ stamp @ msg @ (if msg = '''' \<or> last msg \<noteq> CHR 0x0A then [CHR 0x0A] else '''')
      in case out of Stdout \<Rightarrow> s\<lparr>log_stdout := log_stdout s @ [line]\<rparr> | Discard \<Rightarrow> s)"

text \<open>
  \<^verbatim>\<open>Error\<close> and \<^verbatim>\<open>Errorf\<close> are \<^verbatim>\<open>log.Fatal\<close> and \<^verbatim>\<open>log.Fatalf\<close>: the process ends. \<^verbatim>\<open>Info\<close> is
  \<^verbatim>\<open>log.Println\<close> and \<^verbatim>\<open>Infof\<close> is \<^verbatim>\<open>log.Printf\<close>.
\<close>

definition log_Error :: "string \<Rightarrow> string \<Rightarrow> (log_state, unit) stm" where
  "log_Error stamp msg s = (Exit msg, log_Output (log_errlog s) errlog_prefix stamp msg s)"

definition log_Info :: "string \<Rightarrow> string \<Rightarrow> (log_state, unit) stm" where
  "log_Info stamp msg s = (Ret (), log_Output (log_infolog s) infolog_prefix stamp (msg @ [CHR 0x0A]) s)"

definition log_Infof :: "string \<Rightarrow> string \<Rightarrow> (log_state, unit) stm" where
  "log_Infof stamp msg s = (Ret (), log_Output (log_infolog s) infolog_prefix stamp msg s)"

definition Infolevel :: int where "Infolevel = 1"
definition Errorlevel :: int where "Errorlevel = 2"
definition Disable :: int where "Disable = 3"

lemmas level_defs = Infolevel_def Errorlevel_def Disable_def

definition SetLevel :: "int \<Rightarrow> log_state \<Rightarrow> log_state" where
  "SetLevel level s =
     (let s1 = s\<lparr>log_errlog := Stdout, log_infolog := Stdout\<rparr>;
          s2 = (if level > Infolevel then s1\<lparr>log_infolog := Discard\<rparr> else s1)
      in if level > Errorlevel then s2\<lparr>log_errlog := Discard\<rparr> else s2)"

text \<open>What the packages that log rely on: whatever the state of the loggers, the process ends.\<close>

definition logger_Error :: "string \<Rightarrow> ('s, unit) stm" where
  "logger_Error msg s = (Exit msg, s)"

lemma log_Error_exits: "fst (log_Error stamp msg s) = fst (logger_Error msg t)"
  by (simp add: log_Error_def logger_Error_def)

text \<open>The level set last counts; setting it prints nothing.\<close>

lemma SetLevel_last: "SetLevel a (SetLevel b s) = SetLevel a s"
  by (simp add: SetLevel_def Let_def)

lemma SetLevel_stdout: "log_stdout (SetLevel level s) = log_stdout s"
  by (simp add: SetLevel_def Let_def)

text \<open>
  Informational messages appear up to \<^verbatim>\<open>Infolevel\<close>, errors up to \<^verbatim>\<open>Errorlevel\<close>; beyond it an
  error ends the process without a word.
\<close>

lemma SetLevel_writers:
  "log_infolog (SetLevel level s) = (if level \<le> Infolevel then Stdout else Discard)"
  "log_errlog (SetLevel level s) = (if level \<le> Errorlevel then Stdout else Discard)"
  by (simp_all add: SetLevel_def Let_def level_defs)

lemma Info_visible:
  "log_stdout (snd (log_Info stamp msg (SetLevel level s))) = log_stdout s \<longleftrightarrow> level > Infolevel"
  by (simp add: log_Info_def log_Output_def SetLevel_writers SetLevel_stdout Let_def)

lemma Error_visible:
  "log_stdout (snd (log_Error stamp msg (SetLevel level s))) = log_stdout s \<longleftrightarrow> level > Errorlevel"
  by (simp add: log_Error_def log_Output_def SetLevel_writers SetLevel_stdout Let_def)

lemma Disable_silent_exit:
  "log_Error stamp msg (SetLevel Disable s) = (Exit msg, SetLevel Disable s)"
  by (simp add: log_Error_def log_Output_def SetLevel_writers level_defs Let_def)

end
