(* ===== verification/SORM_Session.thy ===== *)
theory SORM_Session
  imports SORM_Schema SORM_Logger
begin

section \<open>Package session: statements, records and tables\<close>

text \<open>
  \<^verbatim>\<open>SORM/session/raw.go\<close>, \<^verbatim>\<open>hook.go\<close>, \<^verbatim>\<open>table.go\<close>, \<^verbatim>\<open>record.go\<close> and
  \<^verbatim>\<open>transaction.go\<close>. A method of
  \<^verbatim>\<open>Session\<close> is stateful code over the session and the world of the database. The database
  (package \<^verbatim>\<open>database/sql\<close> over a driver) and the hooks that user types implement are
  parameters: the record \<open>driver\<close> and the function \<open>hooks\<close>.
\<close>

subsection \<open>The database\<close>

text \<open>\<^verbatim>\<open>CommonDB\<close>: the pool of connections or the transaction that executes a statement.\<close>

datatype common_db = OnDB | OnTx nat

text \<open>
  The rows of a query: the column names and the rows that \<^verbatim>\<open>Next\<close> delivers, with the error
  of \<^verbatim>\<open>Close\<close>. The row of \<^verbatim>\<open>QueryRow\<close> is an error or its values. The result of
  \<^verbatim>\<open>Exec\<close> is what its method \<^verbatim>\<open>RowsAffected\<close> returns.
\<close>

record rows =
  r_Columns :: "string list"
  r_rows :: "goval list list"
  r_close :: "goerror option"

type_synonym sql_row = "goerror + goval list"
type_synonym sql_result = "goerror + int"

record 'w driver =
  d_Exec :: "common_db \<Rightarrow> string \<Rightarrow> goval list \<Rightarrow> 'w \<Rightarrow> (goerror + sql_result) \<times> 'w"
  d_Query :: "common_db \<Rightarrow> string \<Rightarrow> goval list \<Rightarrow> 'w \<Rightarrow> (goerror + rows) \<times> 'w"
  d_QueryRow :: "common_db \<Rightarrow> string \<Rightarrow> goval list \<Rightarrow> 'w \<Rightarrow> sql_row \<times> 'w"
  d_Begin :: "'w \<Rightarrow> (goerror + nat) \<times> 'w"
  d_Commit :: "nat \<Rightarrow> 'w \<Rightarrow> goerror option \<times> 'w"
  d_Rollback :: "nat \<Rightarrow> 'w \<Rightarrow> goerror option \<times> 'w"
  d_convert :: "kind \<Rightarrow> goval \<Rightarrow> goerror + goval"

text \<open>
  \<^verbatim>\<open>Scan\<close> of one row into destinations of the given kinds: their number must be that of the
  columns, and each value is converted by \<^verbatim>\<open>database/sql\<close>.
\<close>

fun scan_convert :: "(kind \<Rightarrow> goval \<Rightarrow> goerror + goval) \<Rightarrow> kind list \<Rightarrow> goval list \<Rightarrow> goerror + goval list" where
  "scan_convert conv (k # ks) (v # vs) =
     (case conv k v of
        Inl e \<Rightarrow> Inl (''sql: Scan error: '' @ e)
      | Inr x \<Rightarrow> (case scan_convert conv ks vs of Inl e \<Rightarrow> Inl e | Inr xs \<Rightarrow> Inr (x # xs)))"
| "scan_convert conv _ _ = Inr []"

definition Scan :: "(kind \<Rightarrow> goval \<Rightarrow> goerror + goval) \<Rightarrow> kind list \<Rightarrow> goval list \<Rightarrow> goerror + goval list" where
  "Scan conv ks vs =
     (if length ks = length vs then scan_convert conv ks vs
      else Inl (''sql: expected '' @ itoa (int (length vs)) @ '' destination arguments in Scan, not '' @
        itoa (int (length ks))))"

subsection \<open>The session\<close>

record session =
  s_tx :: "nat option"
  s_dialect :: dialector
  s_refTable :: "schema option"
  s_clause :: clauses
  s_sql :: string
  s_sqlVars :: "goval list"

type_synonym ('w, 'a) ses = "(session \<times> 'w, 'a) stm"

definition session_New :: "dialector \<Rightarrow> session" where
  "session_New dialect =
     \<lparr>s_tx = None, s_dialect = dialect, s_refTable = None, s_clause = clause_empty, s_sql = '''',
      s_sqlVars = []\<rparr>"

definition session_DB :: "session \<Rightarrow> common_db" where
  "session_DB s = (case s_tx s of Some tx \<Rightarrow> OnTx tx | None \<Rightarrow> OnDB)"

definition session_Raw :: "string \<Rightarrow> goval list \<Rightarrow> session \<Rightarrow> session" where
  "session_Raw sql vars s = s\<lparr>s_sql := s_sql s @ sql @ '' '', s_sqlVars := s_sqlVars s @ vars\<rparr>"

definition session_Clear :: "session \<Rightarrow> session" where
  "session_Clear s = s\<lparr>s_sql := '''', s_sqlVars := [], s_clause := clause_empty\<rparr>"

definition ses_modify :: "(session \<Rightarrow> session) \<Rightarrow> ('w, unit) ses" where
  "ses_modify f = stm_modify (\<lambda>(s, w). (f s, w))"

text \<open>A call of the database through \<^verbatim>\<open>s.DB()\<close> with the collected SQL and variables.\<close>

definition on_db :: "(common_db \<Rightarrow> string \<Rightarrow> goval list \<Rightarrow> 'w \<Rightarrow> 'r \<times> 'w) \<Rightarrow> ('w, 'r) ses" where
  "on_db call sw =
     (case sw of (s, w) \<Rightarrow>
        (case call (session_DB s) (s_sql s) (s_sqlVars s) w of (r, w1) \<Rightarrow> (Ret r, (s, w1))))"

definition session_Exec :: "'w driver \<Rightarrow> ('w, goerror + sql_result) ses" where
  "session_Exec d =
     stm_defer (\<lambda>(s, w). (session_Clear s, w))
       (stm_bind (on_db (d_Exec d)) (\<lambda>r.
          case r of
            Inl err \<Rightarrow> stm_bind (logger_Error err) (\<lambda>_. stm_ret (Inl err))
          | Inr res \<Rightarrow> stm_ret (Inr res)))"

definition session_QueryRow :: "'w driver \<Rightarrow> ('w, sql_row) ses" where
  "session_QueryRow d =
     stm_defer (\<lambda>(s, w). (session_Clear s, w)) (on_db (d_QueryRow d))"

definition session_Query :: "'w driver \<Rightarrow> ('w, goerror + rows) ses" where
  "session_Query d =
     stm_defer (\<lambda>(s, w). (session_Clear s, w))
       (stm_bind (on_db (d_Query d)) (\<lambda>r.
          case r of
            Inl err \<Rightarrow> stm_bind (logger_Error err) (\<lambda>_. stm_ret (Inl err))
          | Inr rs \<Rightarrow> stm_ret (Inr rs)))"

subsection \<open>Hooks\<close>

text \<open>
  A hook is the method of that name of the dynamic type of a value, if the type has it. It
  gets the session and may change it, and the object it is called on.
\<close>

type_synonym 'w hooks =
  "string \<Rightarrow> gotype \<Rightarrow> (obj \<Rightarrow> ('w, goerror option \<times> obj) ses) option"

definition hook_methods :: "string list" where
  "hook_methods =
     [''BeforeQuery'', ''BeforeInsert'', ''BeforeUpdate'', ''BeforeDelete'',
      ''AfterQuery'', ''AfterInsert'', ''AfterUpdate'', ''AfterDelete'']"

text \<open>\<^verbatim>\<open>CallMethod\<close>: its error, and the value as the hook leaves it.\<close>

definition CallMethod :: "'w hooks \<Rightarrow> string \<Rightarrow> obj option \<Rightarrow> ('w, goerror option \<times> obj option) ses" where
  "CallMethod hooks method value =
     (case value of
        None \<Rightarrow> stm_ret (None, None)
      | Some x \<Rightarrow>
          if method \<in> set hook_methods
          then (case hooks method (o_type x) of
                  Some i \<Rightarrow> stm_bind (i x) (\<lambda>r. stm_ret (None, Some (snd r)))
                | None \<Rightarrow> stm_ret (None, Some x))
          else stm_ret (Some (''Unsupported hook method: '' @ method), Some x))"

subsection \<open>Tables\<close>

definition session_Model :: "obj option \<Rightarrow> ('w, unit) ses" where
  "session_Model value sw =
     (case sw of (s, w) \<Rightarrow>
        if s_refTable s = None \<or>
           map_option o_type value \<noteq> map_option (o_type \<circ> sc_Model) (s_refTable s)
        then (case Parse value (s_dialect s) of
                Ret t \<Rightarrow> (Ret (), (s\<lparr>s_refTable := Some t\<rparr>, w))
              | Panic e \<Rightarrow> (Panic e, (s, w))
              | Exit e \<Rightarrow> (Exit e, (s, w))
              | Hang \<Rightarrow> (Hang, (s, w)))
        else (Ret (), (s, w)))"

definition GetRefTable :: "('w, schema option) ses" where
  "GetRefTable =
     stm_bind (stm_get (\<lambda>(s, w). s_refTable s)) (\<lambda>t.
     stm_bind (if t = None then logger_Error ''Invalid refTable'' else stm_ret ()) (\<lambda>_.
     stm_ret t))"

text \<open>The field \<^verbatim>\<open>refTable\<close>, dereferenced.\<close>

definition deref_table :: "schema option \<Rightarrow> ('w, schema) ses" where
  "deref_table t =
     stm_lift (case t of None \<Rightarrow> Panic ''nil pointer dereference'' | Some x \<Rightarrow> Ret x)"

definition refTable :: "('w, schema) ses" where
  "refTable = stm_bind (stm_get (\<lambda>(s, w). s_refTable s)) deref_table"

definition err_of :: "'e + 'a \<Rightarrow> 'e option" where
  "err_of r = (case r of Inl e \<Rightarrow> Some e | Inr _ \<Rightarrow> None)"

definition CreateTable :: "'w driver \<Rightarrow> ('w, goerror option) ses" where
  "CreateTable d =
     stm_bind refTable (\<lambda>table.
       let columns = map (\<lambda>col. f_Name col @ '' '' @ f_Type col @ '' '' @ f_Tag col) (sc_Fields table);
           desc = go_join '','' columns
       in stm_bind (ses_modify (session_Raw (''CREATE TABLE '' @ sc_Name table @ '' ('' @ desc @ '');'') [])) (\<lambda>_.
          stm_bind (session_Exec d) (\<lambda>r. stm_ret (err_of r))))"

definition DropTable :: "'w driver \<Rightarrow> ('w, goerror option) ses" where
  "DropTable d =
     stm_bind refTable (\<lambda>table.
       stm_bind (ses_modify (session_Raw (''DROP TABLE '' @ sc_Name table) [])) (\<lambda>_.
       stm_bind (session_Exec d) (\<lambda>r. stm_ret (err_of r))))"

text \<open>\<^verbatim>\<open>row.Scan(&x)\<close> into one destination of the given kind.\<close>

definition scan_one :: "'w driver \<Rightarrow> kind \<Rightarrow> sql_row \<Rightarrow> goerror + goval" where
  "scan_one d k row =
     (case row of
        Inl e \<Rightarrow> Inl e
      | Inr vs \<Rightarrow>
          (case Scan (d_convert d) [k] vs of
             Inl e \<Rightarrow> Inl e
           | Inr xs \<Rightarrow> Inr (hd xs)))"

definition HasTable :: "'w driver \<Rightarrow> ('w, bool) ses" where
  "HasTable d =
     stm_bind refTable (\<lambda>table.
     stm_bind (stm_get (\<lambda>(s, w). TableExistsSQL (s_dialect s) (sc_Name table))) (\<lambda>(sql, args).
     stm_bind (ses_modify (session_Raw sql args)) (\<lambda>_.
     stm_bind (session_QueryRow d) (\<lambda>row.
       let tmp = (case scan_one d KString row of Inr (VStr t) \<Rightarrow> t | _ \<Rightarrow> '''')
       in stm_bind (stm_bind GetRefTable deref_table) (\<lambda>table1.
          stm_ret (tmp = sc_Name table1))))))"

subsection \<open>Records\<close>

type_synonym map_order = "(string \<times> goval) list \<Rightarrow> (string \<times> goval) list"

text \<open>\<^verbatim>\<open>s.clause.Set\<close> and \<^verbatim>\<open>s.clause.Build\<close>\<close>

definition set_clause :: "map_order \<Rightarrow> sqltype \<Rightarrow> goval list \<Rightarrow> ('w, unit) ses" where
  "set_clause rng kind vals sw =
     (case sw of (s, w) \<Rightarrow>
        (case clause_Set rng kind vals (s_clause s) of (out, c) \<Rightarrow> (out, (s\<lparr>s_clause := c\<rparr>, w))))"

definition build_clause :: "sqltype list \<Rightarrow> ('w, sql_vars) ses" where
  "build_clause kinds sw =
     (case sw of (s, w) \<Rightarrow>
        (case clause_Build kinds (s_clause s) of (sv, c) \<Rightarrow> (Ret sv, (s\<lparr>s_clause := c\<rparr>, w))))"

fun insert_loop :: "map_order \<Rightarrow> 'w hooks \<Rightarrow> obj option list \<Rightarrow> goval list \<Rightarrow> ('w, goval list) ses" where
  "insert_loop rng hooks [] recordValues = stm_ret recordValues"
| "insert_loop rng hooks (value # rest) recordValues =
     stm_bind (CallMethod hooks ''BeforeInsert'' value) (\<lambda>(_, value1).
     stm_bind (session_Model value1) (\<lambda>_.
     stm_bind (stm_bind GetRefTable deref_table) (\<lambda>table.
     stm_bind (set_clause rng INSERT [VStr (sc_Name table), VStrs (sc_FieldNames table)]) (\<lambda>_.
     stm_bind (stm_lift (case value1 of
         None \<Rightarrow> Panic ''reflect: call of reflect.Value.FieldByName on zero Value''
       | Some x \<Rightarrow> RecordValues x table)) (\<lambda>vs.
     insert_loop rng hooks rest (recordValues @ [VList vs]))))))"

definition Insert :: "map_order \<Rightarrow> 'w hooks \<Rightarrow> 'w driver \<Rightarrow> obj option list \<Rightarrow> ('w, sql_result) ses" where
  "Insert rng hooks d vals =
     stm_bind (insert_loop rng hooks vals []) (\<lambda>recordValues.
     stm_bind (set_clause rng VALUES recordValues) (\<lambda>_.
     stm_bind (build_clause [INSERT, VALUES]) (\<lambda>(sql, vars).
     stm_bind (ses_modify (session_Raw sql vars)) (\<lambda>_.
     stm_bind (session_Exec d) (\<lambda>r.
       case r of
         Inl err \<Rightarrow> stm_ret (Inl err)
       | Inr result \<Rightarrow> stm_bind (CallMethod hooks ''AfterInsert'' None) (\<lambda>_. stm_ret result))))))"

text \<open>
  \<^verbatim>\<open>reflect.New(t).Elem().Interface()\<close>, the zero value of a type: nil for an interface type,
  a nil pointer for a pointer type. \<open>tn\<close> gives the result of the method \<^verbatim>\<open>TableName\<close> on it.
\<close>

fun zero_goval :: "kind \<Rightarrow> goval" where
  "zero_goval k =
     (if k = KBool then VBool False
      else if k = KString then VStr ''''
      else if k \<in> {KInt, KInt8, KInt16, KInt32, KInt64, KUint, KUint8, KUint16, KUint32, KUint64,
                   KUintptr, KFloat32, KFloat64} then VInt 0
      else VNil)"

fun zero_obj :: "(gotype \<Rightarrow> string option) \<Rightarrow> gotype \<Rightarrow> obj option" where
  "zero_obj tn (PtrT t) =
     Some \<lparr>o_type = PtrT t, o_nil = True, o_field = Map.empty, o_TableName = tn (PtrT t)\<rparr>"
| "zero_obj tn (StructT n fs) =
     Some \<lparr>o_type = StructT n fs, o_nil = False,
           o_field = map_of (map (\<lambda>f. (fd_Name f, zero_goval (type_Kind (fd_Type f)))) fs),
           o_TableName = tn (StructT n fs)\<rparr>"
| "zero_obj tn TimeT =
     Some \<lparr>o_type = TimeT, o_nil = False, o_field = Map.empty, o_TableName = None\<rparr>"
| "zero_obj tn (Basic n k) =
     (if k = KInterface then None
      else Some \<lparr>o_type = Basic n k, o_nil = False, o_field = Map.empty, o_TableName = tn (Basic n k)\<rparr>)"

text \<open>The kinds of the fields of a struct type to scan into.\<close>

definition field_kind :: "gotype \<Rightarrow> string \<Rightarrow> kind outcome" where
  "field_kind t name =
     bind_outcome (type_Fields t) (\<lambda>fs.
       case find (\<lambda>f. fd_Name f = name) fs of
         None \<Rightarrow> Panic ''reflect: call of reflect.Value.Addr on zero Value''
       | Some f \<Rightarrow> Ret (type_Kind (fd_Type f)))"

fun field_kinds :: "gotype \<Rightarrow> string list \<Rightarrow> kind list outcome" where
  "field_kinds t [] = Ret []"
| "field_kinds t (n # ns) =
     bind_outcome (field_kind t n) (\<lambda>k. bind_outcome (field_kinds t ns) (\<lambda>ks. Ret (k # ks)))"

fun find_loop ::
  "'w driver \<Rightarrow> 'w hooks \<Rightarrow> obj option \<Rightarrow> gotype \<Rightarrow> schema \<Rightarrow> goval list list \<Rightarrow> obj list \<Rightarrow>
   ('w, goerror option \<times> obj list) ses" where
  "find_loop d hooks zero destType table [] objs = stm_ret (None, objs)"
| "find_loop d hooks zero destType table (row # rest) objs =
     stm_bind (stm_lift (field_kinds destType (sc_FieldNames table))) (\<lambda>kinds.
       case (Scan (d_convert d) kinds row, zero) of
         (Inl err, _) \<Rightarrow> stm_ret (Some err, objs)
       | (Inr xs, None) \<Rightarrow> stm_lift (Panic ''reflect: call of reflect.Value.FieldByName on interface Value'')
       | (Inr xs, Some z) \<Rightarrow>
           (let dest = z\<lparr>o_type := PtrT destType,
                          o_field := o_field z ++ map_of (zip (sc_FieldNames table) xs)\<rparr>
            in stm_bind (CallMethod hooks ''AfterQuery'' (Some dest)) (\<lambda>(_, dest1).
               find_loop d hooks zero destType table rest
                 (objs @ [(case dest1 of Some x \<Rightarrow> x | None \<Rightarrow> dest)\<lparr>o_type := destType\<rparr>]))))"

text \<open>
  \<^verbatim>\<open>Find(&slice)\<close> for a slice with elements of type \<open>destType\<close>: the error and the slice it
  leaves.
\<close>

definition Find ::
  "map_order \<Rightarrow> 'w hooks \<Rightarrow> 'w driver \<Rightarrow> (gotype \<Rightarrow> string option) \<Rightarrow> gotype \<Rightarrow> obj list \<Rightarrow>
   ('w, goerror option \<times> obj list) ses" where
  "Find rng hooks d tn destType objs =
     stm_bind (CallMethod hooks ''BeforeQuery'' None) (\<lambda>_.
     stm_bind (session_Model (zero_obj tn destType)) (\<lambda>_.
     stm_bind (stm_bind GetRefTable deref_table) (\<lambda>table.
     stm_bind (set_clause rng SELECT [VStr (sc_Name table), VStrs (sc_FieldNames table)]) (\<lambda>_.
     stm_bind (build_clause [SELECT, WHERE, ORDERBY, LIMIT]) (\<lambda>(sql, vars).
     stm_bind (ses_modify (session_Raw sql vars)) (\<lambda>_.
     stm_bind (session_Query d) (\<lambda>r.
       case r of
         Inl err \<Rightarrow> stm_ret (Some err, objs)
       | Inr rs \<Rightarrow>
           stm_bind (find_loop d hooks (zero_obj tn destType) destType table (r_rows rs) objs) (\<lambda>(err, objs1).
             stm_ret (if err = None then r_close rs else err, objs1)))))))))"

text \<open>The map of a list of alternating keys and values.\<close>

fun kvs_loop :: "goval list \<Rightarrow> (string \<times> goval) list \<Rightarrow> (string \<times> goval) list outcome" where
  "kvs_loop [] m = Ret m"
| "kvs_loop [k] m = bind_outcome (as_string k) (\<lambda>_. Panic ''index out of range'')"
| "kvs_loop (k # v # kvs) m =
     bind_outcome (as_string k) (\<lambda>key. kvs_loop kvs (AList.update key v m))"

definition kvs_map :: "goval list \<Rightarrow> (string \<times> goval) list outcome" where
  "kvs_map kvs =
     bind_outcome (go_index kvs 0) (\<lambda>v. case v of VMap m \<Rightarrow> Ret m | _ \<Rightarrow> kvs_loop kvs [])"

definition Update :: "map_order \<Rightarrow> 'w hooks \<Rightarrow> 'w driver \<Rightarrow> goval list \<Rightarrow> ('w, sql_result) ses" where
  "Update rng hooks d kvs =
     stm_bind (stm_lift (kvs_map kvs)) (\<lambda>m.
     stm_bind (CallMethod hooks ''BeforeUpdate'' None) (\<lambda>_.
     stm_bind refTable (\<lambda>table.
     stm_bind (set_clause rng UPDATE [VStr (sc_Name table), VMap m]) (\<lambda>_.
     stm_bind (build_clause [UPDATE, WHERE]) (\<lambda>(sql, vars).
     stm_bind (ses_modify (session_Raw sql vars)) (\<lambda>_.
     stm_bind (session_Exec d) (\<lambda>r.
       case r of
         Inl err \<Rightarrow> stm_ret (Inl err)
       | Inr result \<Rightarrow> stm_bind (CallMethod hooks ''AfterUpdate'' None) (\<lambda>_. stm_ret result))))))))"

definition Delete :: "map_order \<Rightarrow> 'w driver \<Rightarrow> goval list \<Rightarrow> ('w, sql_result) ses" where
  "Delete rng d vals =
     stm_bind (stm_lift (go_index vals 0)) (\<lambda>table.
     stm_bind (set_clause rng DELETE [table]) (\<lambda>_.
     stm_bind (build_clause [DELETE, WHERE]) (\<lambda>(sql, vars).
     stm_bind (ses_modify (session_Raw sql vars)) (\<lambda>_.
     stm_bind (session_Exec d) (\<lambda>r.
       case r of Inl err \<Rightarrow> stm_ret (Inl err) | Inr result \<Rightarrow> stm_ret result)))))"

definition Count :: "map_order \<Rightarrow> 'w driver \<Rightarrow> ('w, goerror + int) ses" where
  "Count rng d =
     stm_bind refTable (\<lambda>table.
     stm_bind (set_clause rng COUNT [VStr (sc_Name table)]) (\<lambda>_.
     stm_bind (build_clause [COUNT, WHERE]) (\<lambda>(sql, vars).
     stm_bind (ses_modify (session_Raw sql vars)) (\<lambda>_.
     stm_bind (session_QueryRow d) (\<lambda>row.
       stm_ret (case scan_one d KInt64 row of
                  Inl err \<Rightarrow> Inl err
                | Inr v \<Rightarrow> Inr (case v of VInt n \<Rightarrow> n | _ \<Rightarrow> 0)))))))"

definition session_Limit :: "map_order \<Rightarrow> int \<Rightarrow> ('w, unit) ses" where
  "session_Limit rng limit = set_clause rng LIMIT [VInt limit]"

definition Where :: "map_order \<Rightarrow> string \<Rightarrow> goval list \<Rightarrow> ('w, unit) ses" where
  "Where rng desc vals = set_clause rng WHERE ([] @ [VStr desc] @ vals)"

definition OrderBy :: "map_order \<Rightarrow> string \<Rightarrow> ('w, unit) ses" where
  "OrderBy rng desc = set_clause rng ORDERBY [VStr desc]"

text \<open>\<^verbatim>\<open>First(&dest)\<close>: the error and the object it leaves.\<close>

definition First ::
  "map_order \<Rightarrow> 'w hooks \<Rightarrow> 'w driver \<Rightarrow> (gotype \<Rightarrow> string option) \<Rightarrow> obj \<Rightarrow>
   ('w, goerror option \<times> obj) ses" where
  "First rng hooks d tn dest =
     stm_bind (session_Limit rng 1) (\<lambda>_.
     stm_bind (Find rng hooks d tn (o_type dest) []) (\<lambda>(err, objs).
       case err of
         Some e \<Rightarrow> stm_ret (Some e, dest)
       | None \<Rightarrow>
           (case objs of
              [] \<Rightarrow> stm_ret (Some ''Record Not Found'', dest)
            | x # _ \<Rightarrow> stm_ret (None, x))))"

subsection \<open>Transactions\<close>

definition session_Begin :: "'w driver \<Rightarrow> ('w, goerror + nat) ses" where
  "session_Begin d sw =
     (case sw of (s, w) \<Rightarrow>
        (case d_Begin d w of
           (Inl err, w1) \<Rightarrow>
             stm_bind (logger_Error (''Start transaction failed: %v'' @ err)) (\<lambda>_. stm_ret (Inl err))
               (s\<lparr>s_tx := None\<rparr>, w1)
         | (Inr tx, w1) \<Rightarrow> (Ret (Inr tx), (s\<lparr>s_tx := Some tx\<rparr>, w1))))"

text \<open>\<^verbatim>\<open>Commit\<close> and \<^verbatim>\<open>Rollback\<close>, which differ in the operation of the transaction.\<close>

definition end_tx :: "(nat \<Rightarrow> 'w \<Rightarrow> goerror option \<times> 'w) \<Rightarrow> string \<Rightarrow> ('w, goerror option) ses" where
  "end_tx finish msg sw =
     (case sw of (s, w) \<Rightarrow>
        (case s_tx s of
           None \<Rightarrow> (Panic ''nil pointer dereference'', (s, w))
         | Some tx \<Rightarrow>
             (case finish tx w of
                (Some err, w1) \<Rightarrow>
                  stm_bind (logger_Error (msg @ err)) (\<lambda>_. stm_ret (Some err)) (s, w1)
              | (None, w1) \<Rightarrow> (Ret None, (s, w1)))))"

definition session_Commit :: "'w driver \<Rightarrow> ('w, goerror option) ses" where
  "session_Commit d = end_tx (d_Commit d) ''Commit failed: %v''"

definition session_Rollback :: "'w driver \<Rightarrow> ('w, goerror option) ses" where
  "session_Rollback d = end_tx (d_Rollback d) ''Rollback failed: %v''"

subsection \<open>Execution of one statement\<close>

text \<open>
  A session is ready when the buffers of SQL and variables are empty; \<^verbatim>\<open>Where\<close>, \<^verbatim>\<open>OrderBy\<close> and
  \<^verbatim>\<open>Limit\<close> may have set clauses.
\<close>

definition session_ready :: "session \<Rightarrow> bool" where
  "session_ready s \<longleftrightarrow> s_sql s = '''' \<and> s_sqlVars s = [] \<and> clause_wf (s_clause s)"

definition session_clean :: "session \<Rightarrow> bool" where
  "session_clean s \<longleftrightarrow> s_sql s = '''' \<and> s_sqlVars s = [] \<and> s_clause s = clause_empty"

lemma clean_ready: "session_clean s \<Longrightarrow> session_ready s"
  by (simp add: session_clean_def session_ready_def)

lemma session_Clear_clean [simp]: "session_clean (session_Clear s)"
  by (simp add: session_Clear_def session_clean_def)

lemma session_Clear_fields [simp]:
  "s_refTable (session_Clear s) = s_refTable s" "s_tx (session_Clear s) = s_tx s"
  "s_dialect (session_Clear s) = s_dialect s"
  by (simp_all add: session_Clear_def)

lemma session_New_clean [simp]: "session_clean (session_New dia)"
  by (simp add: session_New_def session_clean_def)

text \<open>
  What a statement does: it is sent as a whole to the transaction or the pool; an error ends
  the process, otherwise the session is cleared and the driver's answer returned.
\<close>

definition exec_stmt :: "'w driver \<Rightarrow> sql_vars \<Rightarrow> ('w, sql_result) ses" where
  "exec_stmt d sv sw =
     (case sw of (s, w) \<Rightarrow>
        (case d_Exec d (session_DB s) (fst sv) (snd sv) w of
           (Inl err, w1) \<Rightarrow>
             (Exit err, (s\<lparr>s_clause := clause_empty, s_sql := fst sv, s_sqlVars := snd sv\<rparr>, w1))
         | (Inr res, w1) \<Rightarrow> (Ret res, (session_Clear s, w1))))"

lemma session_Exec_run [stm_simps]:
  "session_Exec d (s, w) =
     (case d_Exec d (session_DB s) (s_sql s) (s_sqlVars s) w of
        (Inl err, w1) \<Rightarrow> (Exit err, (s, w1))
      | (Inr res, w1) \<Rightarrow> (Ret (Inr res), (session_Clear s, w1)))"
  by (simp add: session_Exec_def stm_defer_def stm_bind_def on_db_def logger_Error_def stm_ret_def
      split: prod.splits sum.splits)

lemma session_QueryRow_run [stm_simps]:
  "session_QueryRow d (s, w) =
     (case d_QueryRow d (session_DB s) (s_sql s) (s_sqlVars s) w of
        (row, w1) \<Rightarrow> (Ret row, (session_Clear s, w1)))"
  by (simp add: session_QueryRow_def stm_defer_def on_db_def split: prod.splits)

lemma session_Query_run [stm_simps]:
  "session_Query d (s, w) =
     (case d_Query d (session_DB s) (s_sql s) (s_sqlVars s) w of
        (Inl err, w1) \<Rightarrow> (Exit err, (s, w1))
      | (Inr rs, w1) \<Rightarrow> (Ret (Inr rs), (session_Clear s, w1)))"
  by (simp add: session_Query_def stm_defer_def stm_bind_def on_db_def logger_Error_def stm_ret_def
      split: prod.splits sum.splits)

lemma refTable_run [stm_simps]:
  "s_refTable s = Some t \<Longrightarrow> refTable (s, w) = (Ret t, (s, w))"
  "s_refTable s = None \<Longrightarrow> refTable (s, w) = (Panic ''nil pointer dereference'', (s, w))"
  by (simp_all add: refTable_def stm_simps stm_bind_def deref_table_def)

lemma GetRefTable_run [stm_simps]:
  "s_refTable s = Some t \<Longrightarrow> stm_bind GetRefTable deref_table (s, w) = (Ret t, (s, w))"
  "s_refTable s = None \<Longrightarrow> GetRefTable (s, w) = (Exit ''Invalid refTable'', (s, w))"
  by (simp_all add: GetRefTable_def stm_simps stm_bind_def deref_table_def logger_Error_def)

lemma CallMethod_nil [simp]: "CallMethod hooks m None = stm_ret (None, None)"
  by (simp add: CallMethod_def fun_eq_iff)

lemma CallMethod_no_hook:
  "m \<in> set hook_methods \<Longrightarrow> hooks m (o_type x) = None \<Longrightarrow>
   CallMethod hooks m (Some x) (s, w) = (Ret (None, Some x), (s, w))"
  by (simp add: CallMethod_def stm_simps)

text \<open>Statements that are written without clauses.\<close>

lemma session_Raw_fields [simp]:
  "session_DB (session_Raw q vs s) = session_DB s" "session_Clear (session_Raw q vs s) = session_Clear s"
  "s_refTable (session_Raw q vs s) = s_refTable s"
  by (simp_all add: session_Raw_def session_DB_def session_Clear_def)

lemma raw_exec_run:
  assumes "s_sql s = ''''" and "s_sqlVars s = []"
  shows "stm_bind (ses_modify (session_Raw q vs)) (\<lambda>_. stm_bind (session_Exec d) f) (s, w)
    = (case d_Exec d (session_DB s) (q @ '' '') vs w of
         (Inl e, w1) \<Rightarrow> (Exit e, (session_Raw q vs s, w1))
       | (Inr r, w1) \<Rightarrow> f (Inr r) (session_Clear s, w1))"
proof -
  have raw: "s_sql (session_Raw q vs s) = q @ '' ''" "s_sqlVars (session_Raw q vs s) = vs"
    by (simp_all add: session_Raw_def assms)
  obtain r w1 where r: "d_Exec d (session_DB s) (q @ '' '') vs w = (r, w1)" by fastforce
  show ?thesis
    unfolding r by (cases r) (simp_all only: stm_bind_def ses_modify_def stm_modify_def prod.case
      outcome.case session_Exec_run raw session_Raw_fields r, simp_all)
qed

definition table_found :: "'w driver \<Rightarrow> schema \<Rightarrow> sql_row \<Rightarrow> bool" where
  "table_found d t row \<longleftrightarrow>
     (case scan_one d KString row of Inr (VStr n) \<Rightarrow> n | _ \<Rightarrow> '''') = sc_Name t"

lemma HasTable_run:
  assumes "s_refTable s = Some t" and "s_sql s = ''''" and "s_sqlVars s = []"
    and sql: "TableExistsSQL (s_dialect s) (sc_Name t) = (q, vs)"
  shows "HasTable d (s, w)
    = (case d_QueryRow d (session_DB s) (q @ '' '') vs w of
         (row, w1) \<Rightarrow> (Ret (table_found d t row), (session_Clear s, w1)))"
proof -
  have raw: "s_sql (session_Raw q vs s) = q @ '' ''" "s_sqlVars (session_Raw q vs s) = vs"
    by (simp_all add: session_Raw_def assms)
  have table: "refTable (s, w) = (Ret t, (s, w))" using assms(1) by (rule refTable_run)
  obtain row w1 where row: "d_QueryRow d (session_DB s) (q @ '' '') vs w = (row, w1)" by fastforce
  show ?thesis
    unfolding HasTable_def stm_bind_run(1) [where m = refTable and s = "(s, w)", OF table] row
    by (simp only: stm_bind_def stm_get_def prod.case outcome.case sql ses_modify_def
      stm_modify_def session_QueryRow_run raw session_Raw_fields row)
      (simp add: stm_bind_run(1) [where m = "stm_bind GetRefTable deref_table" and s = "(session_Clear s, w1)",
        OF GetRefTable_run(1)] assms(1) stm_ret_def table_found_def)
qed

text \<open>The SQL a session builds from its clauses, followed by the space that \<^verbatim>\<open>Raw\<close> adds.\<close>

definition built :: "sqltype list \<Rightarrow> (sqltype \<rightharpoonup> sql_vars) \<Rightarrow> sql_vars" where
  "built kinds m =
     (let parts = List.map_filter m kinds
      in (go_join '' '' (map fst parts) @ '' '', concat (map snd parts)))"

lemma set_clause_run:
  assumes "session_ready s" and "generators rng kind vals = Ret sv"
  shows "\<exists>c. set_clause rng kind vals (s, w) = (Ret (), (s\<lparr>s_clause := c\<rparr>, w)) \<and>
    session_ready (s\<lparr>s_clause := c\<rparr>) \<and> clause_abs c = (clause_abs (s_clause s))(kind \<mapsto> sv)"
  using clause_Set_Ret [of "s_clause s" rng kind vals sv] assms
  by (auto simp: set_clause_def session_ready_def)

lemma build_raw_run:
  assumes "session_ready s"
  shows "stm_bind (build_clause kinds) (\<lambda>(sql, vars). stm_bind (ses_modify (session_Raw sql vars)) (\<lambda>_. f))
      (s, w)
    = f (s\<lparr>s_clause := clause_empty, s_sql := fst (built kinds (clause_abs (s_clause s))),
           s_sqlVars := snd (built kinds (clause_abs (s_clause s)))\<rparr>, w)"
  using assms
  by (simp add: build_clause_def stm_bind_def clause_Build_eq session_ready_def ses_modify_def
      stm_modify_def session_Raw_def built_def Let_def)

lemma session_DB_upd [simp]:
  "session_DB (s\<lparr>s_clause := c\<rparr>) = session_DB s" "session_DB (s\<lparr>s_sql := q\<rparr>) = session_DB s"
  "session_DB (s\<lparr>s_sqlVars := v\<rparr>) = session_DB s" "session_DB (s\<lparr>s_refTable := t\<rparr>) = session_DB s"
  by (simp_all add: session_DB_def)

lemma session_Clear_upd [simp]:
  "session_Clear (s\<lparr>s_clause := c\<rparr>) = session_Clear s" "session_Clear (s\<lparr>s_sql := q\<rparr>) = session_Clear s"
  "session_Clear (s\<lparr>s_sqlVars := v\<rparr>) = session_Clear s"
  by (simp_all add: session_Clear_def)

text \<open>
  The common tail of \<^verbatim>\<open>Insert\<close>, \<^verbatim>\<open>Update\<close> and \<^verbatim>\<open>Delete\<close>: one clause is set, the statement is
  built and executed.
\<close>

lemma set_build_exec:
  assumes ready: "session_ready s" and gen: "generators rng kind vals = Ret sv"
  shows "stm_bind (set_clause rng kind vals) (\<lambda>_.
      stm_bind (build_clause kinds) (\<lambda>(sql, vars).
      stm_bind (ses_modify (session_Raw sql vars)) (\<lambda>_.
      stm_bind (session_Exec d) (\<lambda>r. case r of Inl err \<Rightarrow> stm_ret (Inl err) | Inr result \<Rightarrow> stm_ret result)))) (s, w)
    = exec_stmt d (built kinds ((clause_abs (s_clause s))(kind \<mapsto> sv))) (s, w)"
proof -
  obtain c where c: "set_clause rng kind vals (s, w) = (Ret (), (s\<lparr>s_clause := c\<rparr>, w))"
    "session_ready (s\<lparr>s_clause := c\<rparr>)" "clause_abs c = (clause_abs (s_clause s))(kind \<mapsto> sv)"
    using set_clause_run [OF assms, of w] by (elim exE conjE) (rule that)
  let ?sv = "built kinds ((clause_abs (s_clause s))(kind \<mapsto> sv))"
  obtain r w1 where r: "d_Exec d (session_DB s) (fst ?sv) (snd ?sv) w = (r, w1)" by fastforce
  let ?tail = "stm_bind (session_Exec d)
    (\<lambda>r. case r of Inl err \<Rightarrow> stm_ret (Inl err) | Inr result \<Rightarrow> stm_ret result)"
  let ?s = "s\<lparr>s_clause := clause_empty, s_sql := fst ?sv, s_sqlVars := snd ?sv\<rparr>"
  have db: "session_DB ?s = session_DB s" "session_Clear ?s = session_Clear s" by simp_all
  have "?tail (?s, w) = exec_stmt d ?sv (s, w)"
  proof (cases r)
    case (Inl e)
    with r have "session_Exec d (?s, w) = (Exit e, (?s, w1))" by (simp only: session_Exec_run db) simp
    then show ?thesis using r Inl by (simp only: stm_bind_run(3) exec_stmt_def) simp
  next
    case (Inr res)
    with r have "session_Exec d (?s, w) = (Ret (Inr res), (session_Clear s, w1))"
      by (simp only: session_Exec_run db) simp
    then show ?thesis using r Inr by (simp only: stm_bind_run(1) exec_stmt_def) (simp add: stm_ret_def)
  qed
  then show ?thesis
    unfolding stm_bind_run(1) [where m = "set_clause rng kind vals" and s = "(s, w)", OF c(1)]
      build_raw_run [OF c(2)]
    by (simp add: c(3) del: fun_upd_apply)
qed

lemma exec_stmt_upd [simp]:
  "exec_stmt d sv (s\<lparr>s_clause := c\<rparr>, w) = exec_stmt d sv (s, w)"
  by (auto simp: exec_stmt_def split: prod.splits sum.splits)

lemma binds_built:
  assumes "\<forall>k \<in> set kinds. \<forall>sv. m k = Some sv \<longrightarrow> binds sv"
  shows "binds (built kinds m)"
proof -
  have "sum_list (map (qmarks \<circ> fst) (List.map_filter m kinds))
      = sum_list (map (length \<circ> snd) (List.map_filter m kinds))"
    using assms
  proof (induction kinds)
    case Nil
    then show ?case by (simp add: map_filter_simps)
  next
    case (Cons k kinds)
    then show ?case by (cases "m k") (auto simp: map_filter_simps binds_def)
  qed
  then show ?thesis
    by (simp add: built_def binds_def Let_def qmark_simps qmarks_join length_concat comp_def)
qed

text \<open>Deferred and nil hooks leave no trace in the tail of an operation.\<close>

lemma after_nil_hook:
  "(\<lambda>r. case r of Inl err \<Rightarrow> stm_ret (Inl err)
      | Inr result \<Rightarrow> stm_bind (CallMethod hooks m None) (\<lambda>_. stm_ret result))
    = (\<lambda>r. case r of Inl err \<Rightarrow> stm_ret (Inl err) | Inr result \<Rightarrow> stm_ret result)"
  by (simp add: fun_eq_iff split: sum.split)

lemma bind_refTable:
  "s_refTable s = Some t \<Longrightarrow> stm_bind refTable f (s, w) = f t (s, w)"
  by (simp add: stm_bind_def refTable_run)

lemma Update_run:
  assumes ready: "session_ready s" and kvs: "kvs_map kvs = Ret m" and t: "s_refTable s = Some t"
  shows "Update rng hooks d kvs (s, w)
    = exec_stmt d (built [UPDATE, WHERE] ((clause_abs (s_clause s))(UPDATE \<mapsto>
        (''UPDATE '' @ sc_Name t @ '' SET '' @ go_join '', '' (map (\<lambda>kv. fst kv @ '' = ?'') (rng m)),
         map snd (rng m))))) (s, w)"
proof -
  have gen: "generators rng UPDATE [VStr (sc_Name t), VMap m]
    = Ret (''UPDATE '' @ sc_Name t @ '' SET '' @ go_join '', '' (map (\<lambda>kv. fst kv @ '' = ?'') (rng m)),
         map snd (rng m))" by simp
  show ?thesis
    unfolding Update_def kvs stm_bind_lift_Ret CallMethod_nil stm_bind_ret bind_refTable [OF t]
    unfolding CallMethod_nil [of hooks "''AfterUpdate''", symmetric] after_nil_hook
    by (rule set_build_exec [OF ready gen])
qed

text \<open>The schema that \<^verbatim>\<open>Model\<close> leaves for a value.\<close>

definition model_table :: "session \<Rightarrow> obj \<Rightarrow> schema outcome" where
  "model_table s x =
     (case s_refTable s of
        Some t \<Rightarrow> if o_type x = o_type (sc_Model t) then Ret t else Parse (Some x) (s_dialect s)
      | None \<Rightarrow> Parse (Some x) (s_dialect s))"

lemma model_table_type: "model_table s x = Ret t \<Longrightarrow> o_type (sc_Model t) = o_type x"
  using Parse_Ret [of x "s_dialect s" t] by (auto simp: model_table_def split: option.splits if_splits)

lemma model_table_names: "model_table s x = Ret t \<Longrightarrow>
  (\<And>t'. s_refTable s = Some t' \<Longrightarrow> map f_Name (sc_Fields t') = sc_FieldNames t') \<Longrightarrow>
  map f_Name (sc_Fields t) = sc_FieldNames t"
  using Parse_names [of "Some x" "s_dialect s" t]
  by (auto simp: model_table_def split: option.splits if_splits)

lemma session_Model_run:
  assumes "model_table s x = Ret t"
  shows "session_Model (Some x) (s, w) = (Ret (), (s\<lparr>s_refTable := Some t\<rparr>, w))"
proof (cases "\<exists>t'. s_refTable s = Some t' \<and> o_type x = o_type (sc_Model t')")
  case True
  then have "s\<lparr>s_refTable := Some t\<rparr> = s" using assms by (auto simp: model_table_def)
  with True show ?thesis by (auto simp: session_Model_def)
next
  case False
  then have "Parse (Some x) (s_dialect s) = Ret t"
    using assms by (auto simp: model_table_def split: option.splits if_splits)
  with False show ?thesis by (auto simp: session_Model_def)
qed

lemma insert_loop_run:
  assumes "session_ready s" and "s_refTable s = Some t" and "hooks ''BeforeInsert'' (o_type (sc_Model t)) = None"
    and "list_all (\<lambda>x. o_type x = o_type (sc_Model t) \<and> RecordValues x t = Ret (row x)) vals"
  shows "\<exists>c. insert_loop rng hooks (map Some vals) rv (s, w)
      = (Ret (rv @ map (\<lambda>x. VList (row x)) vals), (s\<lparr>s_clause := c\<rparr>, w)) \<and>
    session_ready (s\<lparr>s_clause := c\<rparr>) \<and>
    clause_abs c = (if vals = [] then clause_abs (s_clause s) else (clause_abs (s_clause s))(INSERT \<mapsto>
      (''INSERT INTO '' @ sc_Name t @ '' ('' @ go_join '','' (sc_FieldNames t) @ '')'', [])))"
  using assms
proof (induction vals arbitrary: s rv)
  case Nil
  then show ?case by (intro exI [of _ "s_clause s"]) (simp add: stm_simps)
next
  case (Cons x vals)
  let ?ins = "(''INSERT INTO '' @ sc_Name t @ '' ('' @ go_join '','' (sc_FieldNames t) @ '')'', [])"
  have gen: "generators rng INSERT [VStr (sc_Name t), VStrs (sc_FieldNames t)] = Ret ?ins" by simp
  obtain c where c: "set_clause rng INSERT [VStr (sc_Name t), VStrs (sc_FieldNames t)] (s, w)
      = (Ret (), (s\<lparr>s_clause := c\<rparr>, w))" "session_ready (s\<lparr>s_clause := c\<rparr>)"
    "clause_abs c = (clause_abs (s_clause s))(INSERT \<mapsto> ?ins)"
    using set_clause_run [OF Cons.prems(1) gen, of w] by (elim exE conjE) (rule that)
  have hook: "CallMethod hooks ''BeforeInsert'' (Some x) (s, w) = (Ret (None, Some x), (s, w))"
    using Cons.prems(3,4) by (intro CallMethod_no_hook) (auto simp: hook_methods_def)
  have "model_table s x = Ret t" using Cons.prems(2,4) by (simp add: model_table_def)
  moreover have "s\<lparr>s_refTable := Some t\<rparr> = s" using Cons.prems(2) by (cases s) simp
  ultimately have model: "session_Model (Some x) (s, w) = (Ret (), (s, w))"
    using session_Model_run [of s x t w] by simp
  have step: "insert_loop rng hooks (map Some (x # vals)) rv (s, w)
    = insert_loop rng hooks (map Some vals) (rv @ [VList (row x)]) (s\<lparr>s_clause := c\<rparr>, w)"
    using Cons.prems(4)
    by (simp add: stm_bind_def hook model GetRefTable_run [unfolded stm_bind_def] c(1) stm_lift_def
      GetRefTable_run(1) [OF Cons.prems(2), unfolded stm_bind_def])
  obtain c' where c': "insert_loop rng hooks (map Some vals) (rv @ [VList (row x)]) (s\<lparr>s_clause := c\<rparr>, w)
      = (Ret ((rv @ [VList (row x)]) @ map (\<lambda>x. VList (row x)) vals), (s\<lparr>s_clause := c, s_clause := c'\<rparr>, w))"
    "session_ready (s\<lparr>s_clause := c, s_clause := c'\<rparr>)"
    "clause_abs c' = (if vals = [] then clause_abs c else (clause_abs c)(INSERT \<mapsto> ?ins))"
    using Cons.IH [OF c(2), of "rv @ [VList (row x)]"] Cons.prems(2-4) by auto
  have "insert_loop rng hooks (map Some (x # vals)) rv (s, w)
      = (Ret (rv @ map (\<lambda>x. VList (row x)) (x # vals)), (s\<lparr>s_clause := c'\<rparr>, w))"
    unfolding step c'(1) by simp
  moreover have "session_ready (s\<lparr>s_clause := c'\<rparr>)" using c'(2) by simp
  moreover have "clause_abs c' = (clause_abs (s_clause s))(INSERT \<mapsto> ?ins)"
    using c'(3) c(3) by (simp del: fun_upd_apply)
  ultimately show ?case by (intro exI [of _ c']) (simp del: insert_loop.simps fun_upd_apply)
qed

lemma insert_loop_model:
  assumes "model_table s x = Ret t" and "hooks ''BeforeInsert'' (o_type x) = None"
  shows "insert_loop rng hooks (Some x # rest) rv (s, w)
    = insert_loop rng hooks (Some x # rest) rv (s\<lparr>s_refTable := Some t\<rparr>, w)"
proof -
  have hook: "CallMethod hooks ''BeforeInsert'' (Some x) (s', w) = (Ret (None, Some x), (s', w))" for s'
    using assms(2) by (intro CallMethod_no_hook) (simp_all add: hook_methods_def)
  have "model_table (s\<lparr>s_refTable := Some t\<rparr>) x = Ret t"
    using model_table_type [OF assms(1)] by (simp add: model_table_def)
  from session_Model_run [OF this, of w] session_Model_run [OF assms(1), of w]
  show ?thesis by (simp add: stm_bind_def hook)
qed

text \<open>The statement of \<^verbatim>\<open>Insert\<close> for a table and the rows of values.\<close>

definition insert_sql :: "schema \<Rightarrow> goval list list \<Rightarrow> sql_vars" where
  "insert_sql t rows =
     (''INSERT INTO '' @ sc_Name t @ '' ('' @ go_join '','' (sc_FieldNames t) @ '') VALUES'' @
        go_join '', '' (replicate (length rows) (''('' @ genBindVars (length (hd rows)) @ '')'')) @ '' '',
      concat rows)"

lemma Insert_run:
  assumes ready: "session_ready s" and t: "model_table s x = Ret t"
    and hook: "hooks ''BeforeInsert'' (o_type x) = None"
    and objs: "list_all (\<lambda>y. o_type y = o_type x \<and> RecordValues y t = Ret (row y)) (x # xs)"
    and row: "row x \<noteq> []"
  shows "Insert rng hooks d (map Some (x # xs)) (s, w)
    = exec_stmt d (insert_sql t (map row (x # xs))) (s\<lparr>s_refTable := Some t\<rparr>, w)"
proof -
  let ?s = "s\<lparr>s_refTable := Some t\<rparr>"
  let ?ins = "(''INSERT INTO '' @ sc_Name t @ '' ('' @ go_join '','' (sc_FieldNames t) @ '')'', [] :: goval list)"
  let ?vs = "map (\<lambda>y. VList (row y)) (x # xs)"
  let ?val = "(''VALUES'' @ go_join '', '' (replicate (Suc (length xs)) (''('' @ genBindVars (length (row x)) @ '')'')),
    concat (map row (x # xs)))"
  have type: "o_type (sc_Model t) = o_type x" by (rule model_table_type [OF t])
  obtain c where c: "insert_loop rng hooks (map Some (x # xs)) [] (?s, w) = (Ret ?vs, (?s\<lparr>s_clause := c\<rparr>, w))"
    "session_ready (?s\<lparr>s_clause := c\<rparr>)" "clause_abs c = (clause_abs (s_clause s))(INSERT \<mapsto> ?ins)"
    using insert_loop_run [of ?s t hooks row "x # xs" rng "[]" w] ready hook objs type
    by (auto simp: session_ready_def)
  have loop: "insert_loop rng hooks (map Some (x # xs)) [] (s, w) = (Ret ?vs, (?s\<lparr>s_clause := c\<rparr>, w))"
    using insert_loop_model [of s x t hooks rng "map Some xs" "[]" w] t hook c(1) by (simp only: list.map)
  have gen: "generators rng VALUES ?vs = Ret ?val"
    using gen_values_eq [OF row, of "map row xs"] by (simp add: comp_def)
  have built: "built [INSERT, VALUES] ((clause_abs c)(VALUES \<mapsto> ?val)) = insert_sql t (map row (x # xs))"
    by (simp add: c(3) built_def insert_sql_def map_filter_simps)
  have "Insert rng hooks d (map Some (x # xs)) (s, w)
    = exec_stmt d (built [INSERT, VALUES] ((clause_abs c)(VALUES \<mapsto> ?val))) (?s\<lparr>s_clause := c\<rparr>, w)"
    unfolding Insert_def stm_bind_run(1) [where m = "insert_loop rng hooks (map Some (x # xs)) []" and s = "(s, w)", OF loop]
      after_nil_hook set_build_exec [OF c(2) gen] by (simp del: fun_upd_apply)
  then show ?thesis unfolding built exec_stmt_upd .
qed

lemma Delete_run:
  assumes "session_ready s"
  shows "Delete rng d (v # vs) (s, w)
    = exec_stmt d (built [DELETE, WHERE] ((clause_abs (s_clause s))(DELETE \<mapsto>
        (''DELETE FROM '' @ fmt_verb (CHR ''s'') v, [])))) (s, w)"
proof -
  have gen: "generators rng DELETE [v] = Ret (''DELETE FROM '' @ fmt_verb (CHR ''s'') v, [])" by simp
  have idx: "go_index (v # vs) 0 = Ret v" by (simp add: go_index_def)
  show ?thesis
    unfolding Delete_def idx stm_bind_lift_Ret by (rule set_build_exec [OF assms gen])
qed

lemma set_build_run:
  assumes ready: "session_ready s" and gen: "generators rng kind vals = Ret sv"
  shows "stm_bind (set_clause rng kind vals) (\<lambda>_.
      stm_bind (build_clause kinds) (\<lambda>(sql, vars). stm_bind (ses_modify (session_Raw sql vars)) (\<lambda>_. f))) (s, w)
    = f (s\<lparr>s_clause := clause_empty,
           s_sql := fst (built kinds ((clause_abs (s_clause s))(kind \<mapsto> sv))),
           s_sqlVars := snd (built kinds ((clause_abs (s_clause s))(kind \<mapsto> sv)))\<rparr>, w)"
proof -
  obtain c where c: "set_clause rng kind vals (s, w) = (Ret (), (s\<lparr>s_clause := c\<rparr>, w))"
    "session_ready (s\<lparr>s_clause := c\<rparr>)" "clause_abs c = (clause_abs (s_clause s))(kind \<mapsto> sv)"
    using set_clause_run [OF assms, of w] by (elim exE conjE) (rule that)
  show ?thesis
    unfolding stm_bind_run(1) [where m = "set_clause rng kind vals" and s = "(s, w)", OF c(1)]
      build_raw_run [OF c(2)]
    by (simp add: c(3) del: fun_upd_apply)
qed

lemma Count_run:
  assumes ready: "session_ready s" and t: "s_refTable s = Some t"
  shows "Count rng d (s, w)
    = (let sv = built [COUNT, WHERE] ((clause_abs (s_clause s))(COUNT \<mapsto>
          (''SELECT COUNT(*) FROM '' @ sc_Name t, [])))
       in case d_QueryRow d (session_DB s) (fst sv) (snd sv) w of
            (row, w1) \<Rightarrow>
              (Ret (case scan_one d KInt64 row of
                      Inl err \<Rightarrow> Inl err
                    | Inr v \<Rightarrow> Inr (case v of VInt n \<Rightarrow> n | _ \<Rightarrow> 0)), (session_Clear s, w1)))"
proof -
  have gen: "generators rng COUNT [VStr (sc_Name t)] = Ret (''SELECT COUNT(*) FROM '' @ sc_Name t, [])" by simp
  show ?thesis
    unfolding Count_def bind_refTable [OF t] set_build_run [OF ready gen]
    by (auto simp: stm_bind_def session_QueryRow_run stm_ret_def Let_def split: prod.splits)
qed

text \<open>
  The rows that \<^verbatim>\<open>Find\<close> scans before the first error, and the objects made of them.
\<close>

fun scanned :: "(kind \<Rightarrow> goval \<Rightarrow> goerror + goval) \<Rightarrow> kind list \<Rightarrow> goval list list \<Rightarrow>
  goerror option \<times> goval list list" where
  "scanned conv kinds [] = (None, [])"
| "scanned conv kinds (row # rest) =
     (case Scan conv kinds row of
        Inl err \<Rightarrow> (Some err, [])
      | Inr xs \<Rightarrow> (case scanned conv kinds rest of (err, xss) \<Rightarrow> (err, xs # xss)))"

definition row_obj :: "obj \<Rightarrow> schema \<Rightarrow> goval list \<Rightarrow> obj" where
  "row_obj z t xs = z\<lparr>o_field := o_field z ++ map_of (zip (sc_FieldNames t) xs)\<rparr>"

lemma find_loop_run:
  assumes "field_kinds ty (sc_FieldNames t) = Ret kinds" and "hooks ''AfterQuery'' (PtrT ty) = None"
    and "o_type z = ty"
  shows "find_loop d hooks (Some z) ty t rs objs (s, w)
    = (Ret (fst (scanned (d_convert d) kinds rs),
         objs @ map (row_obj z t) (snd (scanned (d_convert d) kinds rs))), (s, w))"
proof (induction rs arbitrary: objs)
  case Nil
  then show ?case by (simp add: stm_ret_def)
next
  case (Cons row rs)
  show ?case
  proof (cases "Scan (d_convert d) kinds row")
    case (Inl e)
    then show ?thesis using assms(1) by (simp add: stm_ret_def)
  next
    case (Inr xs)
    let ?dest = "z\<lparr>o_type := PtrT ty, o_field := o_field z ++ map_of (zip (sc_FieldNames t) xs)\<rparr>"
    have hook: "CallMethod hooks ''AfterQuery'' (Some ?dest) (s, w) = (Ret (None, Some ?dest), (s, w))"
      using assms(2) by (intro CallMethod_no_hook) (simp_all add: hook_methods_def)
    have obj: "?dest\<lparr>o_type := ty\<rparr> = row_obj z t xs"
      using assms(3) by (cases z) (simp add: row_obj_def)
    have "find_loop d hooks (Some z) ty t (row # rs) objs (s, w)
        = find_loop d hooks (Some z) ty t rs (objs @ [?dest\<lparr>o_type := ty\<rparr>]) (s, w)"
      using assms(1) Inr by (simp add: stm_bind_def hook Let_def)
    also have "\<dots> = (Ret (fst (scanned (d_convert d) kinds rs),
        (objs @ [row_obj z t xs]) @ map (row_obj z t) (snd (scanned (d_convert d) kinds rs))), (s, w))"
      unfolding obj by (rule Cons.IH)
    finally show ?thesis using Inr by (simp add: case_prod_beta)
  qed
qed

lemma zero_obj_type: "zero_obj tn ty = Some z \<Longrightarrow> o_type z = ty"
  by (cases ty) (auto split: if_splits)

definition query_stmt ::
  "'w driver \<Rightarrow> sql_vars \<Rightarrow> (rows \<Rightarrow> 'a) \<Rightarrow> ('w, 'a) ses" where
  "query_stmt d sv f sw =
     (case sw of (s, w) \<Rightarrow>
        (case d_Query d (session_DB s) (fst sv) (snd sv) w of
           (Inl err, w1) \<Rightarrow>
             (Exit err, (s\<lparr>s_clause := clause_empty, s_sql := fst sv, s_sqlVars := snd sv\<rparr>, w1))
         | (Inr rs, w1) \<Rightarrow> (Ret (f rs), (session_Clear s, w1))))"

text \<open>What \<^verbatim>\<open>Find\<close> makes of the rows it gets.\<close>

definition found :: "'w driver \<Rightarrow> kind list \<Rightarrow> obj \<Rightarrow> schema \<Rightarrow> obj list \<Rightarrow> rows \<Rightarrow> goerror option \<times> obj list" where
  "found d kinds z t objs rs =
     (case scanned (d_convert d) kinds (r_rows rs) of
        (err, xss) \<Rightarrow> (if err = None then r_close rs else err, objs @ map (row_obj z t) xss))"

definition select_sql :: "schema \<Rightarrow> sql_vars" where
  "select_sql t = (''SELECT '' @ go_join '','' (sc_FieldNames t) @ '' FROM '' @ sc_Name t, [])"

lemma Find_run:
  assumes ready: "session_ready s" and zero: "zero_obj tn ty = Some z" and t: "model_table s z = Ret t"
    and kinds: "field_kinds ty (sc_FieldNames t) = Ret kinds"
    and hook: "hooks ''AfterQuery'' (PtrT ty) = None"
  shows "Find rng hooks d tn ty objs (s, w)
    = query_stmt d (built [SELECT, WHERE, ORDERBY, LIMIT] ((clause_abs (s_clause s))(SELECT \<mapsto> select_sql t)))
        (found d kinds z t objs) (s\<lparr>s_refTable := Some t\<rparr>, w)"
proof -
  let ?s = "s\<lparr>s_refTable := Some t\<rparr>"
  let ?sv = "built [SELECT, WHERE, ORDERBY, LIMIT] ((clause_abs (s_clause s))(SELECT \<mapsto> select_sql t))"
  have gen: "generators rng SELECT [VStr (sc_Name t), VStrs (sc_FieldNames t)] = Ret (select_sql t)"
    by (simp add: select_sql_def)
  have ready': "session_ready ?s" using ready by (simp add: session_ready_def)
  have model: "session_Model (zero_obj tn ty) (s, w) = (Ret (), (?s, w))"
    unfolding zero by (rule session_Model_run [OF t])
  have table: "stm_bind GetRefTable deref_table (?s, w) = (Ret t, (?s, w))"
    by (rule GetRefTable_run) simp
  obtain r w1 where r: "d_Query d (session_DB s) (fst ?sv) (snd ?sv) w = (r, w1)" by fastforce
  have loop: "find_loop d hooks (Some z) ty t rs objs sw
    = (Ret (fst (scanned (d_convert d) kinds rs),
         objs @ map (row_obj z t) (snd (scanned (d_convert d) kinds rs))), sw)" for rs sw
    using find_loop_run [of ty t kinds hooks z d rs objs "fst sw" "snd sw"] kinds hook
      zero_obj_type [OF zero] by simp
  show ?thesis
    unfolding Find_def CallMethod_nil stm_bind_ret
      stm_bind_run(1) [where m = "session_Model (zero_obj tn ty)" and s = "(s, w)", OF model]
      stm_bind_run(1) [where m = "stm_bind GetRefTable deref_table" and s = "(?s, w)", OF table]
      set_build_run [OF ready' gen]
    using r unfolding zero
    by (cases r) (simp_all add: stm_bind_def session_Query_run query_stmt_def stm_ret_def loop found_def
      case_prod_beta del: fun_upd_apply)
qed

lemma chain_run:
  assumes "session_ready s" and "generators rng k vals = Ret sv"
  shows "\<exists>c. stm_bind (set_clause rng k vals) f (s, w) = f () (s\<lparr>s_clause := c\<rparr>, w) \<and>
    session_ready (s\<lparr>s_clause := c\<rparr>) \<and> clause_abs c = (clause_abs (s_clause s))(k \<mapsto> sv)"
proof -
  obtain c where c: "set_clause rng k vals (s, w) = (Ret (), (s\<lparr>s_clause := c\<rparr>, w))"
    "session_ready (s\<lparr>s_clause := c\<rparr>)" "clause_abs c = (clause_abs (s_clause s))(k \<mapsto> sv)"
    using set_clause_run [OF assms, of w] by (elim exE conjE) (rule that)
  then show ?thesis
    by (intro exI [of _ c]) (simp add: stm_bind_run(1) del: fun_upd_apply)
qed

subsection \<open>A session is reused\<close>

text \<open>
  The contract of an operation that ends with a statement: when it returns, the session has
  no SQL, variables or clauses left over for the next one.
\<close>

locale clean_operation =
  fixes oper :: "('w, 'a) ses"
  assumes clean_after: "oper (s, w) = (Ret r, (s', w')) \<Longrightarrow> session_clean s'"
begin

lemma ready_after: "oper (s, w) = (Ret r, (s', w')) \<Longrightarrow> session_ready s'"
  by (intro clean_ready clean_after)

lemma next_starts_clean:
  "stm_bind oper f (s, w) = (Ret y, sw') \<Longrightarrow>
   \<exists>r s1 w1. oper (s, w) = (Ret r, (s1, w1)) \<and> session_clean s1 \<and> f r (s1, w1) = (Ret y, sw')"
  using clean_after by (auto simp: stm_bind_Ret_iff)

end

lemma clean_bind: "(\<And>x. clean_operation (f x)) \<Longrightarrow> clean_operation (stm_bind m f)"
  unfolding clean_operation_def stm_bind_Ret_iff by fast

lemma clean_exec:
  assumes "\<And>r s w. \<exists>out. f r (s, w) = (out, (s, w))"
  shows "clean_operation (stm_bind (session_Exec d) f)"
proof
  fix s w r s' w'
  assume "stm_bind (session_Exec d) f (s, w) = (Ret r, (s', w'))"
  then obtain x s1 w1 where x: "session_Exec d (s, w) = (Ret x, (s1, w1))" "f x (s1, w1) = (Ret r, (s', w'))"
    by (auto simp: stm_bind_Ret_iff)
  from x(1) have "session_clean s1"
    by (auto simp: session_Exec_run split: prod.splits sum.splits)
  with x(2) assms [of x s1 w1] show "session_clean s'" by auto
qed

lemma clean_query_row:
  assumes "\<And>r s w. \<exists>out. f r (s, w) = (out, (s, w))"
  shows "clean_operation (stm_bind (session_QueryRow d) f)"
proof
  fix s w r s' w'
  assume "stm_bind (session_QueryRow d) f (s, w) = (Ret r, (s', w'))"
  then obtain x s1 w1 where x: "session_QueryRow d (s, w) = (Ret x, (s1, w1))" "f x (s1, w1) = (Ret r, (s', w'))"
    by (auto simp: stm_bind_Ret_iff)
  from x(1) have "session_clean s1"
    by (auto simp: session_QueryRow_run split: prod.splits sum.splits)
  with x(2) assms [of x s1 w1] show "session_clean s'" by auto
qed

interpretation ins: clean_operation "Insert rng hooks d vals" for rng hooks d vals
  unfolding Insert_def case_prod_beta by (intro clean_bind clean_exec) (auto simp: stm_ret_def split: sum.split)

interpretation upd: clean_operation "Update rng hooks d kvs" for rng hooks d kvs
  unfolding Update_def case_prod_beta by (intro clean_bind clean_exec) (auto simp: stm_ret_def split: sum.split)

interpretation del: clean_operation "Delete rng d vals" for rng d vals
  unfolding Delete_def case_prod_beta by (intro clean_bind clean_exec) (auto simp: stm_ret_def split: sum.split)

interpretation cnt: clean_operation "Count rng d" for rng d
  unfolding Count_def case_prod_beta by (intro clean_bind clean_query_row) (auto simp: stm_ret_def)

interpretation create: clean_operation "CreateTable d" for d
  unfolding CreateTable_def Let_def by (intro clean_bind clean_exec) (auto simp: stm_ret_def)

interpretation drop_op: clean_operation "DropTable d" for d
  unfolding DropTable_def by (intro clean_bind clean_exec) (auto simp: stm_ret_def)

subsection \<open>Properties\<close>

text \<open>A hook that reports no error but is otherwise the same.\<close>

definition erase_errors :: "'w hooks \<Rightarrow> 'w hooks" where
  "erase_errors hooks m ty =
     (case hooks m ty of
        None \<Rightarrow> None
      | Some i \<Rightarrow> Some (\<lambda>x. stm_bind (i x) (\<lambda>r. stm_ret (None, snd r))))"

lemma CallMethod_erase: "CallMethod (erase_errors hooks) m v = CallMethod hooks m v"
  by (auto simp: CallMethod_def erase_errors_def stm_bind_assoc split: option.split)

lemma insert_loop_erase: "insert_loop rng (erase_errors hooks) vals rv = insert_loop rng hooks vals rv"
  by (induction vals arbitrary: rv) (simp_all add: CallMethod_erase)

lemma find_loop_erase:
  "find_loop d (erase_errors hooks) z ty t rs objs = find_loop d hooks z ty t rs objs"
  by (induction rs arbitrary: objs) (simp_all add: CallMethod_erase Let_def cong: option.case_cong sum.case_cong)

text \<open>
  The errors that hooks return are ignored: \<^verbatim>\<open>Insert\<close> and \<^verbatim>\<open>Find\<close> behave as if
  every hook had returned nil, so that a hook cannot stop the operation. \<^verbatim>\<open>Update\<close> passes nil
  to \<^verbatim>\<open>CallMethod\<close> and never calls a hook at all.
\<close>

theorem hook_errors_ignored:
  "Insert rng (erase_errors hooks) d vals = Insert rng hooks d vals \<and>
   Find rng (erase_errors hooks) d tn ty objs = Find rng hooks d tn ty objs \<and>
   Update rng hooks d kvs = Update rng (\<lambda>_ _. None) d kvs"
  by (simp add: Insert_def Find_def Update_def insert_loop_erase find_loop_erase cong: sum.case_cong)

text \<open>
  Property C7. \<^verbatim>\<open>Insert\<close> of several objects of one type without a hook sends a single statement
  to the database, the \<^verbatim>\<open>INSERT\<close> with the columns of the type's table and one group of
  placeholders for each object, with the values of the objects in order; it has as many
  placeholders as values when the table and column names have none, and \<^verbatim>\<open>Insert\<close> returns the
  driver's answer.
\<close>

theorem Insert_correct:
  assumes "session_ready s" and "model_table s x = Ret t"
    and "hooks ''BeforeInsert'' (o_type x) = None"
    and "list_all (\<lambda>y. o_type y = o_type x \<and> RecordValues y t = Ret (row y)) (x # xs)"
    and "row x \<noteq> []" and "qmarks (sc_Name t) = 0" and "list_all (\<lambda>n. qmarks n = 0) (sc_FieldNames t)"
  shows "Insert rng hooks d (map Some (x # xs)) (s, w)
      = exec_stmt d (insert_sql t (map row (x # xs))) (s\<lparr>s_refTable := Some t\<rparr>, w) \<and>
    binds (insert_sql t (map row (x # xs)))"
proof
  show "Insert rng hooks d (map Some (x # xs)) (s, w)
      = exec_stmt d (insert_sql t (map row (x # xs))) (s\<lparr>s_refTable := Some t\<rparr>, w)"
    using assms(1-5) by (rule Insert_run)
  have len: "length r = length (sc_Fields t)" if "r \<in> set (map row (x # xs))" for r
    using that assms(4) by (auto simp: list_all_iff dest: RecordValues_length)
  have "length (concat (map row (x # xs))) = length (map row (x # xs)) * length (sc_Fields t)"
    by (rule sum_list_const_length) (rule len)
  moreover have "qmarks (go_join '','' (sc_FieldNames t)) = 0"
    using assms(7) by (intro qmarks_join_none) (auto simp: qmark_simps list_all_iff)
  ultimately show "binds (insert_sql t (map row (x # xs)))"
    using assms(6) len [of "row x"]
    by (simp add: binds_def insert_sql_def qmark_simps qmarks_join sum_list_replicate del: replicate.simps)
qed

text \<open>A driver that accepts every statement and keeps a log of them.\<close>

definition log_driver :: "(string \<times> goval list) list driver" where
  "log_driver =
     \<lparr>d_Exec = (\<lambda>_ sql vars log. (Inr (Inr 1), log @ [(sql, vars)])),
      d_Query = (\<lambda>_ sql vars log. (Inr \<lparr>r_Columns = [''Name'', ''Age''],
        r_rows = [[VStr ''Tom'', VInt 12]], r_close = None\<rparr>, log @ [(sql, vars)])),
      d_QueryRow = (\<lambda>_ sql vars log. (Inr [VInt 1], log @ [(sql, vars)])),
      d_Begin = (\<lambda>log. (Inr 1, log @ [(''BEGIN'', [])])),
      d_Commit = (\<lambda>_ log. (None, log @ [(''COMMIT'', [])])),
      d_Rollback = (\<lambda>_ log. (None, log @ [(''ROLLBACK'', [])])),
      d_convert = (\<lambda>_ v. Inr v)\<rparr>"

definition user_schema :: schema where
  "user_schema =
     \<lparr>sc_Model = user_obj ''Tom'' 12, sc_Name = ''User'',
      sc_Fields = [\<lparr>f_Name = ''Name'', f_Type = ''text'', f_Tag = ''PRIMARY KEY''\<rparr>,
                   \<lparr>f_Name = ''Age'', f_Type = ''int'', f_Tag = ''''\<rparr>],
      sc_FieldNames = [''Name'', ''Age''],
      sc_FieldMap = [''Name'' \<mapsto> \<lparr>f_Name = ''Name'', f_Type = ''text'', f_Tag = ''PRIMARY KEY''\<rparr>,
                     ''Age'' \<mapsto> \<lparr>f_Name = ''Age'', f_Type = ''int'', f_Tag = ''''\<rparr>]\<rparr>"

lemma parse_user: "Parse (Some (user_obj ''Tom'' 12)) sqlite3 = Ret user_schema"
  by (simp add: Parse_def user_obj_def user_type_def IsExported_def less_eq_char_def sqlite3_def
    sqlite3_ConvertTypeTo_def Let_def user_schema_def fun_eq_iff)

lemma user_schema_simps:
  "sc_Name user_schema = ''User''" "sc_FieldNames user_schema = [''Name'', ''Age'']"
  by (simp_all add: user_schema_def)

lemma user_obj_type: "o_type (user_obj n a) = PtrT user_type"
  by (simp add: user_obj_def)

lemma user_row: "RecordValues (user_obj n a) user_schema = Ret [VStr n, VInt a]"
  by (simp add: RecordValues_def user_schema_def user_obj_def)

theorem Insert_correct_witness:
  "fst (Insert id (\<lambda>_ _. None) log_driver [Some (user_obj ''Tom'' 12), Some (user_obj ''Bob'' 15)]
     (session_New sqlite3, [])) = Ret (Inr 1) \<and>
   snd (snd (Insert id (\<lambda>_ _. None) log_driver [Some (user_obj ''Tom'' 12), Some (user_obj ''Bob'' 15)]
     (session_New sqlite3, [])))
     = [(''INSERT INTO User (Name,Age) VALUES(?, ?), (?, ?) '', [VStr ''Tom'', VInt 12, VStr ''Bob'', VInt 15])]"
proof -
  let ?row = "\<lambda>y. case RecordValues y user_schema of Ret r \<Rightarrow> r | _ \<Rightarrow> []"
  have "Insert id (\<lambda>_ _. None) log_driver (map Some [user_obj ''Tom'' 12, user_obj ''Bob'' 15]) (session_New sqlite3, [])
      = exec_stmt log_driver (insert_sql user_schema (map ?row [user_obj ''Tom'' 12, user_obj ''Bob'' 15]))
          ((session_New sqlite3)\<lparr>s_refTable := Some user_schema\<rparr>, []) \<and>
    binds (insert_sql user_schema (map ?row [user_obj ''Tom'' 12, user_obj ''Bob'' 15]))"
    by (rule Insert_correct)
      (simp_all add: clean_ready model_table_def session_New_def [of sqlite3] parse_user user_row
        user_schema_simps user_obj_type qmark_simps session_ready_def)
  then show ?thesis
    by (simp add: exec_stmt_def log_driver_def insert_sql_def user_row genBindVars_eq)
      (simp add: user_schema_def numeral_2_eq_2)
qed


definition user_zero :: obj where
  "user_zero = \<lparr>o_type = user_type, o_nil = False,
     o_field = [''Age'' \<mapsto> VInt 0, ''age'' \<mapsto> VInt 0, ''Name'' \<mapsto> VStr ''''], o_TableName = None\<rparr>"

lemma itoa_1: "itoa 1 = ''1''"
  by code_simp


lemma kvs_loop_map:
  "list_all (\<lambda>kv. qmarks (fst kv) = 0) kvs \<Longrightarrow>
   kvs_loop (concat (map (\<lambda>(k, v). [VStr k, v]) kvs)) m = Ret (fold (\<lambda>(k, v). AList.update k v) kvs m)"
  by (induction kvs arbitrary: m) auto

lemma update_fold_map_of: "map_of (fold (\<lambda>(k, v). AList.update k v) kvs m) = map_of m ++ map_of (rev kvs)"
  by (induction kvs arbitrary: m) (auto simp: update_conv' map_add_assoc simp del: fun_upd_apply)

lemma update_fold_keys:
  "fst ` set (fold (\<lambda>(k, v). AList.update k v) kvs m) = fst ` set m \<union> fst ` set kvs"
  unfolding dom_map_of_conv_image_fst [symmetric] update_fold_map_of
  by (simp add: Un_commute dom_map_of_conv_image_fst)



text \<open>
  Property C34. A session is reused for the next operation: when \<^verbatim>\<open>Insert\<close>, \<^verbatim>\<open>Update\<close>,
  \<^verbatim>\<open>Delete\<close>, \<^verbatim>\<open>Count\<close> or \<^verbatim>\<open>CreateTable\<close> returns, whatever the hooks, the driver and the state
  it started in, nothing of its SQL, variables or clauses is left, so that a following
  \<^verbatim>\<open>Delete\<close> without \<^verbatim>\<open>Where\<close> deletes from the whole table.
\<close>

theorem session_reusable:
  assumes "Insert rng hooks d vals (s, w) = (Ret r, (s', w')) \<or> Update rng hooks d kvs (s, w) = (Ret r, (s', w')) \<or>
    Delete rng d vs (s, w) = (Ret r, (s', w')) \<or> Count rng d (s, w) = (Ret r, (s', w')) \<or>
    CreateTable d (s, w) = (Ret e, (s', w'))"
  shows "s_sql s' = '''' \<and> s_sqlVars s' = [] \<and> s_clause s' = clause_empty \<and>
    Delete rng d [VStr t] (s', w') = exec_stmt d (''DELETE FROM '' @ t @ '' '', []) (s', w')"
proof -
  have clean: "session_clean s'"
    using assms ins.clean_after upd.clean_after del.clean_after cnt.clean_after create.clean_after by metis
  then have "Delete rng d [VStr t] (s', w')
      = exec_stmt d (built [DELETE, WHERE] ((clause_abs (s_clause s'))(DELETE \<mapsto>
          (''DELETE FROM '' @ fmt_verb (CHR ''s'') (VStr t), [])))) (s', w')"
    by (intro Delete_run clean_ready)
  with clean show ?thesis by (simp add: session_clean_def built_def map_filter_simps)
qed

theorem session_reusable_witness:
  "\<exists>s' w'. Delete id log_driver [VStr ''User''] (session_New sqlite3, []) = (Ret (Inr 1), (s', w')) \<and>
     s_clause s' = clause_empty"
proof -
  let ?s = "session_Clear (session_New sqlite3)"
  have run: "Delete id log_driver [VStr ''User''] (session_New sqlite3, [])
      = (Ret (Inr 1), (?s, [(''DELETE FROM User '', [])]))"
    by (simp add: Delete_run clean_ready session_New_def [of sqlite3] session_ready_def exec_stmt_def
      log_driver_def built_def map_filter_simps)
  have "s_clause ?s = clause_empty"
    using session_reusable [where vs = "[VStr ''User'']", OF disjI2 [OF disjI2 [OF disjI1 [OF run]]]]
    by blast
  with run show ?thesis by blast
qed

text \<open>
  For the table that a value was parsed to with the dialect of SQLite,
  \<^verbatim>\<open>CreateTable\<close> executes one statement without placeholders that lists each column with its
  type and tag, and \<^verbatim>\<open>HasTable\<close> asks for the table's name with a query that binds it, and
  answers whether that name comes back.
\<close>

theorem table_statements:
  assumes "session_ready s" and "s_refTable s = Some t" and "s_dialect s = sqlite3"
    and "Parse (Some x) sqlite3 = Ret t" and "qmarks (sc_Name t) = 0"
    and "list_all (\<lambda>f. qmarks (f_Name f) = 0 \<and> qmarks (f_Tag f) = 0) (sc_Fields t)"
  shows "\<exists>create sql. CreateTable d (s, w)
      = (case d_Exec d (session_DB s) (create @ '' '') [] w of
           (Inl e, w1) \<Rightarrow> (Exit e, (session_Raw create [] s, w1))
         | (Inr _, w1) \<Rightarrow> (Ret None, (session_Clear s, w1))) \<and>
      create = ''CREATE TABLE '' @ sc_Name t @ '' ('' @ go_join '','' (map (\<lambda>f. f_Name f @ '' '' @ f_Type f @
        '' '' @ f_Tag f) (sc_Fields t)) @ '');'' \<and> qmarks create = 0 \<and>
    HasTable d (s, w)
      = (case d_QueryRow d (session_DB s) (sql @ '' '') [VStr (sc_Name t)] w of
           (row, w1) \<Rightarrow> (Ret (table_found d t row), (session_Clear s, w1))) \<and> qmarks sql = 1"
proof -
  let ?create = "''CREATE TABLE '' @ sc_Name t @ '' ('' @ go_join '','' (map (\<lambda>f. f_Name f @ '' '' @ f_Type f @
        '' '' @ f_Tag f) (sc_Fields t)) @ '');''"
  obtain sql where exists: "TableExistsSQL sqlite3 (sc_Name t) = (sql, [VStr (sc_Name t)])"
    by (simp add: sqlite3_def sqlite3_TableExistsSQL_def)
  have buffers: "s_sql s = ''''" "s_sqlVars s = []" using assms(1) by (simp_all add: session_ready_def)
  have create: "CreateTable d (s, w)
      = (case d_Exec d (session_DB s) (?create @ '' '') [] w of
           (Inl e, w1) \<Rightarrow> (Exit e, (session_Raw ?create [] s, w1))
         | (Inr _, w1) \<Rightarrow> (Ret None, (session_Clear s, w1)))"
    unfolding CreateTable_def Let_def bind_refTable [OF assms(2)] raw_exec_run [OF buffers]
    by (simp only: stm_ret_def err_of_def sum.case)
  have has: "HasTable d (s, w)
      = (case d_QueryRow d (session_DB s) (sql @ '' '') [VStr (sc_Name t)] w of
           (row, w1) \<Rightarrow> (Ret (table_found d t row), (session_Clear s, w1)))"
    using assms(2,3) buffers exists by (intro HasTable_run) simp_all
  have "qmarks (f_Type f) = 0" if "f \<in> set (sc_Fields t)" for f
    using lite.parse_plain [OF assms(4) that] .
  then have "qmarks (go_join '','' (map (\<lambda>f. f_Name f @ '' '' @ f_Type f @ '' '' @ f_Tag f) (sc_Fields t))) = 0"
    using assms(6) by (intro qmarks_join_none) (auto simp: qmark_simps list_all_iff)
  then have "qmarks ?create = 0" using assms(5) by (simp add: qmark_simps)
  moreover have "qmarks sql = 1" using lite.exists_binds [of "sc_Name t"] exists by simp
  ultimately show ?thesis
    using create has by (intro exI [of _ ?create] exI [of _ sql] conjI) (assumption | rule refl)+
qed

theorem table_statements_witness:
  "CreateTable log_driver ((session_New sqlite3)\<lparr>s_refTable := Some user_schema\<rparr>, [])
     = (Ret None, (session_Clear ((session_New sqlite3)\<lparr>s_refTable := Some user_schema\<rparr>),
         [(''CREATE TABLE User (Name text PRIMARY KEY,Age int ); '', [])]))"
proof -
  let ?s = "(session_New sqlite3)\<lparr>s_refTable := Some user_schema\<rparr>"
  obtain create where create: "CreateTable log_driver (?s, [])
      = (case d_Exec log_driver (session_DB ?s) (create @ '' '') [] [] of
           (Inl e, w1) \<Rightarrow> (Exit e, (session_Raw create [] ?s, w1))
         | (Inr _, w1) \<Rightarrow> (Ret None, (session_Clear ?s, w1)))"
    and sql: "create = ''CREATE TABLE '' @ sc_Name user_schema @ '' ('' @ go_join '','' (map (\<lambda>f. f_Name f @ '' '' @
        f_Type f @ '' '' @ f_Tag f) (sc_Fields user_schema)) @ '');''"
    using table_statements [OF _ _ _ parse_user, of ?s log_driver "[]"]
    by (auto simp: session_ready_def session_New_def user_schema_def qmark_simps)
  have "create = ''CREATE TABLE User (Name text PRIMARY KEY,Age int );''"
    unfolding sql by (simp add: user_schema_def)
  with create show ?thesis by (simp add: log_driver_def)
qed

end
