(* ===== verification/SORM_Engine.thy ===== *)
theory SORM_Engine
  imports SORM_Session
begin

section \<open>Package sorm: engine, transactions and migration\<close>

text \<open>
  \<^verbatim>\<open>SORM/sorm.go\<close>. An \<open>engine\<close> holds the dialect; the database it is connected to is the
  world of the driver. Opening and pinging a database are parameters. A transaction runs a
  function on a fresh session; its deferred function commits or rolls back when the function
  returns or panics.
\<close>

record engine =
  e_dialect :: dialector

definition NewEngine ::
  "(string \<Rightarrow> string \<Rightarrow> 'w \<Rightarrow> goerror option \<times> 'w) \<Rightarrow> ('w \<Rightarrow> goerror option \<times> 'w) \<Rightarrow>
   (string \<rightharpoonup> dialector) \<Rightarrow> string \<Rightarrow> string \<Rightarrow> ('w, engine option \<times> goerror option) stm" where
  "NewEngine sql_Open db_Ping dialects driver source w =
     (case sql_Open driver source w of
        (Some err, w1) \<Rightarrow>
          stm_bind (logger_Error err) (\<lambda>_. stm_ret (None, Some err)) w1
      | (None, w1) \<Rightarrow>
          (case db_Ping w1 of
             (Some err, w2) \<Rightarrow>
               stm_bind (logger_Error ''cannot connect to database'') (\<lambda>_. stm_ret (None, Some err)) w2
           | (None, w2) \<Rightarrow>
               (case GetDialect driver dialects of
                  None \<Rightarrow>
                    stm_bind (logger_Error (''dialect '' @ driver @ '' not found'')) (\<lambda>_. stm_ret (None, None)) w2
                | Some dialect \<Rightarrow> (Ret (Some \<lparr>e_dialect = dialect\<rparr>, None), w2))))"

definition NewSession :: "engine \<Rightarrow> session" where
  "NewSession e = session_New (e_dialect e)"

definition engine_Close :: "('w \<Rightarrow> goerror option \<times> 'w) \<Rightarrow> ('w, goerror option) stm" where
  "engine_Close db_Close w =
     (case db_Close w of
        (Some err, w1) \<Rightarrow>
          stm_bind (logger_Error (''close session failed :%v'' @ err)) (\<lambda>_. stm_ret (Some err)) w1
      | (None, w1) \<Rightarrow> (Ret None, w1))"

subsection \<open>Transactions\<close>

definition Transaction ::
  "'w driver \<Rightarrow> engine \<Rightarrow> ('w, 'r \<times> goerror option) ses \<Rightarrow> ('w, 'r option \<times> goerror option) stm" where
  "Transaction d e fs w =
     (case session_Begin d (NewSession e, w) of
        (Ret (Inl err), (s, w1)) \<Rightarrow> (Ret (None, Some err), w1)
      | (Ret (Inr tx), (s, w1)) \<Rightarrow>
          (case fs (s, w1) of
             (Panic p, (s2, w2)) \<Rightarrow> (case d_Rollback d tx w2 of (_, w3) \<Rightarrow> (Panic p, w3))
           | (Ret (result, Some err), (s2, w2)) \<Rightarrow>
               (case d_Rollback d tx w2 of (_, w3) \<Rightarrow> (Ret (Some result, Some err), w3))
           | (Ret (result, None), (s2, w2)) \<Rightarrow>
               (case d_Commit d tx w2 of (err, w3) \<Rightarrow> (Ret (Some result, err), w3))
           | (Exit m, (s2, w2)) \<Rightarrow> (Exit m, w2)
           | (Hang, (s2, w2)) \<Rightarrow> (Hang, w2))
      | (Panic p, (s, w1)) \<Rightarrow> (Panic p, w1)
      | (Exit m, (s, w1)) \<Rightarrow> (Exit m, w1)
      | (Hang, (s, w1)) \<Rightarrow> (Hang, w1))"

subsection \<open>Migration\<close>

definition difference :: "string list \<Rightarrow> string list \<Rightarrow> string list" where
  "difference a b =
     (let m = fold (\<lambda>v m. m(v \<mapsto> True)) b Map.empty
      in fold (\<lambda>v diff. if m v = None then diff @ [v] else diff) a [])"

text \<open>The pointer \<^verbatim>\<open>&value\<close> to a variable of type \<^verbatim>\<open>interface{}\<close>.\<close>

definition interface_ptr :: obj where
  "interface_ptr =
     \<lparr>o_type = PtrT (Basic '''' KInterface), o_nil = False, o_field = Map.empty, o_TableName = None\<rparr>"

fun add_columns :: "'w driver \<Rightarrow> schema \<Rightarrow> string list \<Rightarrow> ('w, goerror option) ses" where
  "add_columns d table [] = stm_ret None"
| "add_columns d table (col # cols) =
     stm_bind (stm_lift (case GetField col table of
         None \<Rightarrow> Panic ''nil pointer dereference'' | Some f \<Rightarrow> Ret f)) (\<lambda>fld.
     stm_bind (ses_modify (session_Raw
         (''ALTER TABLE '' @ sc_Name table @ '' ADD COLUMN '' @ f_Name fld @ '' '' @ f_Type fld @ '';'') [])) (\<lambda>_.
     stm_bind (session_Exec d) (\<lambda>r.
       case r of Inl err \<Rightarrow> stm_ret (Some err) | Inr _ \<Rightarrow> add_columns d table cols)))"

definition migrate_fn :: "'w driver \<Rightarrow> obj option \<Rightarrow> ('w, unit \<times> goerror option) ses" where
  "migrate_fn d value =
     stm_bind (session_Model value) (\<lambda>_.
     stm_bind (HasTable d) (\<lambda>has.
     stm_bind (if has then stm_ret ()
               else stm_bind (session_Model (Some interface_ptr)) (\<lambda>_.
                    stm_bind (stm_bind GetRefTable deref_table) (\<lambda>_.
                    stm_bind (CreateTable d) (\<lambda>_. stm_ret ())))) (\<lambda>_.
     stm_bind (stm_bind GetRefTable deref_table) (\<lambda>table.
     stm_bind (ses_modify (session_Raw (''SELECT * FROM '' @ sc_Name table @ '' LIMIT 1;'') [])) (\<lambda>_.
     stm_bind (session_Query d) (\<lambda>r.
     stm_bind (stm_lift (case r of
         Inl _ \<Rightarrow> Panic ''nil pointer dereference'' | Inr rs \<Rightarrow> Ret (r_Columns rs))) (\<lambda>columns.
       let addCols = difference (sc_FieldNames table) columns;
           deleteCols = difference columns (sc_FieldNames table)
       in stm_bind (add_columns d table addCols) (\<lambda>err.
            if err \<noteq> None then stm_ret ((), err)
            else if deleteCols = [] then stm_ret ((), None)
            else
              (let tmp = ''tmp_'' @ sc_Name table;
                   fieldStr = go_join '', '' (sc_FieldNames table)
               in stm_bind (ses_modify (session_Raw
                    (''CREATE TABLE '' @ tmp @ '' AS SELECT '' @ fieldStr @ '' FROM '' @ sc_Name table @ '' ;'') [])) (\<lambda>_.
                  stm_bind (ses_modify (session_Raw (''DROP TABLE '' @ sc_Name table @ '';'') [])) (\<lambda>_.
                  stm_bind (ses_modify (session_Raw
                    (''ALTER TABLE '' @ tmp @ '' RENAME TO '' @ sc_Name table) [])) (\<lambda>_.
                  stm_bind (session_Exec d) (\<lambda>r. stm_ret ((), err_of r))))))))))))))"

text \<open>\<^verbatim>\<open>Migrate\<close> drops the results of the transaction; its own \<^verbatim>\<open>err\<close> is never assigned.\<close>

definition Migrate :: "'w driver \<Rightarrow> engine \<Rightarrow> obj option \<Rightarrow> ('w, goerror option) stm" where
  "Migrate d e value = stm_bind (Transaction d e (migrate_fn d value)) (\<lambda>_. stm_ret None)"

subsection \<open>Lemmas\<close>

lemma difference_eq: "difference a b = filter (\<lambda>x. x \<notin> set b) a"
proof -
  have dom: "fold (\<lambda>v m. m(v \<mapsto> True)) b m x = (if x \<in> set b then Some True else m x)" for m x
    by (induction b arbitrary: m) auto
  have "fold (\<lambda>v diff. if P v then diff @ [v] else diff) a acc = acc @ filter P a" for P and acc :: "string list"
    by (induction a arbitrary: acc) auto
  then show ?thesis by (simp add: difference_def dom)
qed

text \<open>
  The statements of a list executed in order on a connection, up to the first failure, which
  ends the process.
\<close>

fun exec_all :: "'w driver \<Rightarrow> common_db \<Rightarrow> string list \<Rightarrow> ('w, unit) stm" where
  "exec_all d conn [] w = (Ret (), w)"
| "exec_all d conn (sql # sqls) w =
     (case d_Exec d conn sql [] w of
        (Inl err, w1) \<Rightarrow> (Exit err, w1)
      | (Inr _, w1) \<Rightarrow> exec_all d conn sqls w1)"

lemma exec_all_append:
  "exec_all d conn (xs @ ys) w =
     (case exec_all d conn xs w of
        (Ret _, w1) \<Rightarrow> exec_all d conn ys w1
      | (Panic e, w1) \<Rightarrow> (Panic e, w1) | (Exit e, w1) \<Rightarrow> (Exit e, w1) | (Hang, w1) \<Rightarrow> (Hang, w1))"
  by (induction xs arbitrary: w) (auto split: prod.splits sum.splits)

definition add_column_sql :: "schema \<Rightarrow> field \<Rightarrow> string" where
  "add_column_sql t f = ''ALTER TABLE '' @ sc_Name t @ '' ADD COLUMN '' @ f_Name f @ '' '' @ f_Type f @ ''; ''"

definition replace_table_sql :: "schema \<Rightarrow> string" where
  "replace_table_sql t =
     ''CREATE TABLE tmp_'' @ sc_Name t @ '' AS SELECT '' @ go_join '', '' (sc_FieldNames t) @ '' FROM '' @
     sc_Name t @ '' ; DROP TABLE '' @ sc_Name t @ ''; ALTER TABLE tmp_'' @ sc_Name t @ '' RENAME TO '' @
     sc_Name t @ '' ''"

lemma exec_all_cases: "(\<exists>w'. exec_all d conn sqls w = (Ret (), w')) \<or> (\<exists>e w'. exec_all d conn sqls w = (Exit e, w'))"
  by (induction sqls arbitrary: w) (auto split: prod.splits sum.splits)

lemma add_columns_run:
  assumes "session_clean s" and "list_all (\<lambda>c. GetField c t = Some (fld c)) cols"
  shows "case exec_all d (session_DB s) (map (\<lambda>c. add_column_sql t (fld c)) cols) w of
     (Ret _, w1) \<Rightarrow> add_columns d t cols (s, w) = (Ret None, (s, w1))
   | (Exit e, w1) \<Rightarrow> \<exists>s'. add_columns d t cols (s, w) = (Exit e, (s', w1))
   | _ \<Rightarrow> False"
  using assms(2)
proof (induction cols arbitrary: w)
  case Nil
  then show ?case by (simp add: stm_ret_def)
next
  case (Cons c cols)
  have buffers: "s_sql s = ''''" "s_sqlVars s = []" "session_Clear s = s"
    using assms(1) by (simp_all add: session_clean_def session_Clear_def)
  have fld: "GetField c t = Some (fld c)" using Cons.prems by simp
  have sql: "add_column_sql t (fld c)
    = (''ALTER TABLE '' @ sc_Name t @ '' ADD COLUMN '' @ f_Name (fld c) @ '' '' @ f_Type (fld c) @ '';'') @ '' ''"
    by (simp add: add_column_sql_def)
  obtain r w1 where r: "d_Exec d (session_DB s) (add_column_sql t (fld c)) [] w = (r, w1)" by fastforce
  have step: "add_columns d t (c # cols) (s, w)
    = (case r of Inl e \<Rightarrow> (Exit e, (session_Raw (''ALTER TABLE '' @ sc_Name t @ '' ADD COLUMN '' @
          f_Name (fld c) @ '' '' @ f_Type (fld c) @ '';'') [] s, w1))
        | Inr _ \<Rightarrow> add_columns d t cols (s, w1))"
    unfolding add_columns.simps fld option.case stm_bind_lift_Ret raw_exec_run [OF buffers(1,2)]
      sql [symmetric] r
    by (cases r) (simp_all add: buffers(3))
  show ?case
  proof (cases r)
    case (Inl e)
    show ?thesis unfolding step [unfolded Inl sum.case] using r Inl by simp
  next
    case (Inr x)
    show ?thesis
      unfolding step [unfolded Inr sum.case] using r Inr Cons.IH [of w1] Cons.prems by simp
  qed
qed

text \<open>
  The statements of a migration: one for each column of the schema that the table lacks, and
  one that replaces the table when it has columns that the schema lacks.
\<close>

definition migrate_sqls :: "schema \<Rightarrow> string list \<Rightarrow> string list" where
  "migrate_sqls t columns =
     map (add_column_sql t) (filter (\<lambda>f. f_Name f \<notin> set columns) (sc_Fields t)) @
     (if set columns \<subseteq> set (sc_FieldNames t) then [] else [replace_table_sql t])"

lemma Parse_GetField:
  assumes "Parse x d = Ret s" and "distinct (sc_FieldNames s)"
  shows "list_all (\<lambda>f. GetField (f_Name f) s = Some f) (sc_Fields s)"
proof -
  obtain y where y: "x = Some y" using Parse_Ret_not_nil [OF assms(1)] by blast
  from Parse_Ret [OF assms(1) [unfolded y]] obtain fs where
    fs: "sc_Fields s = map (column d) (filter is_column fs)"
    "sc_FieldNames s = map fd_Name (filter is_column fs)"
    "sc_FieldMap s = map_of (rev (map (\<lambda>p. (fd_Name p, column d p)) (filter is_column fs)))" by blast
  have dist: "distinct (map fst (rev (map (\<lambda>p. (fd_Name p, column d p)) (filter is_column fs))))"
    using assms(2) fs(2) by (simp add: rev_map [symmetric] comp_def)
  show ?thesis
    unfolding list_all_iff GetField_def fs(1,3)
    using dist by (auto intro!: map_of_is_SomeI)
qed

lemma replace_run:
  assumes "session_clean s"
  shows "stm_bind (ses_modify (session_Raw
       (''CREATE TABLE '' @ (''tmp_'' @ sc_Name t) @ '' AS SELECT '' @ go_join '', '' (sc_FieldNames t) @
        '' FROM '' @ sc_Name t @ '' ;'') [])) (\<lambda>_.
     stm_bind (ses_modify (session_Raw (''DROP TABLE '' @ sc_Name t @ '';'') [])) (\<lambda>_.
     stm_bind (ses_modify (session_Raw
       (''ALTER TABLE '' @ (''tmp_'' @ sc_Name t) @ '' RENAME TO '' @ sc_Name t) [])) (\<lambda>_.
     stm_bind (session_Exec d) (\<lambda>r. stm_ret ((), err_of r))))) (s, w)
   = (case d_Exec d (session_DB s) (replace_table_sql t) [] w of
        (Inl e, w1) \<Rightarrow> (Exit e, (s\<lparr>s_sql := replace_table_sql t\<rparr>, w1))
      | (Inr _, w1) \<Rightarrow> (Ret ((), None), (s, w1)))"
proof -
  have buffers: "s_sql s = ''''" "s_sqlVars s = []" "session_Clear s = s"
    using assms by (simp_all add: session_clean_def session_Clear_def)
  let ?raw = "session_Raw (''ALTER TABLE '' @ (''tmp_'' @ sc_Name t) @ '' RENAME TO '' @ sc_Name t) []
      (session_Raw (''DROP TABLE '' @ sc_Name t @ '';'') [] (session_Raw
       (''CREATE TABLE '' @ (''tmp_'' @ sc_Name t) @ '' AS SELECT '' @ go_join '', '' (sc_FieldNames t) @
        '' FROM '' @ sc_Name t @ '' ;'') [] s))"
  have raw: "?raw = s\<lparr>s_sql := replace_table_sql t\<rparr>"
    using buffers by (cases s) (simp add: session_Raw_def replace_table_sql_def)
  have clear: "session_Clear (s\<lparr>s_sql := replace_table_sql t\<rparr>) = s"
    using buffers(3) by simp
  obtain r w1 where r: "d_Exec d (session_DB s) (replace_table_sql t) [] w = (r, w1)" by fastforce
  have "session_Exec d (?raw, w)
    = (case r of Inl e \<Rightarrow> (Exit e, (s\<lparr>s_sql := replace_table_sql t\<rparr>, w1)) | Inr x \<Rightarrow> (Ret (Inr x), (s, w1)))"
    unfolding raw session_Exec_run using r buffers(2) clear by (cases r) simp_all
  then show ?thesis
    unfolding r by (cases r) (simp_all only: stm_bind_def ses_modify_def stm_modify_def prod.case
      outcome.case sum.case stm_ret_def err_of_def)
qed

lemma migrate_fn_run:
  assumes clean: "session_clean s" and model: "model_table s x = Ret t" and parse: "Parse (Some y) (s_dialect s) = Ret t"
    and dist: "distinct (sc_FieldNames t)"
    and sql: "TableExistsSQL (s_dialect s) (sc_Name t) = (q, vs)"
    and row: "d_QueryRow d (session_DB s) (q @ '' '') vs w = (row, w1)" and found: "table_found d t row"
    and query: "d_Query d (session_DB s) (''SELECT * FROM '' @ sc_Name t @ '' LIMIT 1; '') [] w1 = (Inr rs, w2)"
  shows "case exec_all d (session_DB s) (migrate_sqls t (r_Columns rs)) w2 of
     (Ret _, w3) \<Rightarrow> \<exists>s'. migrate_fn d (Some x) (s, w) = (Ret ((), None), (s', w3))
   | (Exit e, w3) \<Rightarrow> \<exists>s'. migrate_fn d (Some x) (s, w) = (Exit e, (s', w3))
   | _ \<Rightarrow> False"
proof -
  let ?s = "s\<lparr>s_refTable := Some t\<rparr>"
  have buffers: "s_sql ?s = ''''" "s_sqlVars ?s = []" "session_Clear ?s = ?s" "session_clean ?s"
    using clean by (simp_all add: session_clean_def session_Clear_def)
  have has: "HasTable d (?s, w) = (Ret True, (?s, w1))"
    using HasTable_run [of ?s t q vs d w] buffers sql row found by simp
  have table: "stm_bind GetRefTable deref_table (?s, w1) = (Ret t, (?s, w1))"
    by (rule GetRefTable_run) simp
  let ?raw = "session_Raw (''SELECT * FROM '' @ sc_Name t @ '' LIMIT 1;'') [] ?s"
  have raw: "ses_modify (session_Raw (''SELECT * FROM '' @ sc_Name t @ '' LIMIT 1;'') []) (?s, w1)
      = (Ret (), (?raw, w1))"
    by (simp add: ses_modify_def stm_modify_def)
  have "session_Query d (?raw, w1) = (Ret (Inr rs), (?s, w2))"
    unfolding session_Query_run session_Raw_fields using query buffers
    by (simp add: session_Raw_def)
  note runs = session_Model_run [OF model, of w] has table this
  let ?add = "difference (sc_FieldNames t) (r_Columns rs)" and ?del = "difference (r_Columns rs) (sc_FieldNames t)"
  let ?rest = "\<lambda>err. if err \<noteq> None then stm_ret ((), err)
            else if ?del = [] then stm_ret ((), None)
            else stm_bind (ses_modify (session_Raw
       (''CREATE TABLE '' @ (''tmp_'' @ sc_Name t) @ '' AS SELECT '' @ go_join '', '' (sc_FieldNames t) @
        '' FROM '' @ sc_Name t @ '' ;'') [])) (\<lambda>_.
     stm_bind (ses_modify (session_Raw (''DROP TABLE '' @ sc_Name t @ '';'') [])) (\<lambda>_.
     stm_bind (ses_modify (session_Raw
       (''ALTER TABLE '' @ (''tmp_'' @ sc_Name t) @ '' RENAME TO '' @ sc_Name t) [])) (\<lambda>_.
     stm_bind (session_Exec d) (\<lambda>r. stm_ret ((), err_of r)))))"
  have head: "migrate_fn d (Some x) (s, w) = stm_bind (add_columns d t ?add) ?rest (?s, w2)"
    unfolding migrate_fn_def
      stm_bind_run(1) [where m = "session_Model (Some x)" and s = "(s, w)", OF runs(1)]
      stm_bind_run(1) [where m = "HasTable d" and s = "(?s, w)", OF has] if_True stm_bind_ret
      stm_bind_run(1) [where m = "stm_bind GetRefTable deref_table" and s = "(?s, w1)", OF table]
      stm_bind_run(1) [where m = "ses_modify (session_Raw (''SELECT * FROM '' @ sc_Name t @ '' LIMIT 1;'') [])"
        and s = "(?s, w1)", OF raw]
      stm_bind_run(1) [where m = "session_Query d" and s = "(?raw, w1)", OF runs(4)]
      sum.case stm_bind_lift_Ret Let_def ..
  let ?fld = "\<lambda>c. the (GetField c t)"
  have fields: "list_all (\<lambda>f. GetField (f_Name f) t = Some f) (sc_Fields t)"
    by (rule Parse_GetField [OF parse dist])
  have names: "sc_FieldNames t = map f_Name (sc_Fields t)" using Parse_names [OF parse] by simp
  have adds: "map (\<lambda>c. add_column_sql t (?fld c)) ?add
      = map (add_column_sql t) (filter (\<lambda>f. f_Name f \<notin> set (r_Columns rs)) (sc_Fields t))"
    using fields by (simp add: difference_eq names filter_map comp_def list_all_iff)
  have known: "list_all (\<lambda>c. GetField c t = Some (?fld c)) ?add"
    using fields by (auto simp: difference_eq names list_all_iff)
  have del: "?del = [] \<longleftrightarrow> set (r_Columns rs) \<subseteq> set (sc_FieldNames t)"
    by (auto simp: difference_eq filter_empty_conv)
  note add = add_columns_run [where fld = ?fld, OF buffers(4) known, of d w2, unfolded adds, simplified]
  obtain out w3 where out: "exec_all d (session_DB s)
      (map (add_column_sql t) (filter (\<lambda>f. f_Name f \<notin> set (r_Columns rs)) (sc_Fields t))) w2 = (out, w3)" by fastforce
  have sqls: "exec_all d (session_DB s) (migrate_sqls t (r_Columns rs)) w2
    = (case out of
         Ret _ \<Rightarrow> if ?del = [] then (Ret (), w3) else exec_all d (session_DB s) [replace_table_sql t] w3
       | Panic e \<Rightarrow> (Panic e, w3) | Exit e \<Rightarrow> (Exit e, w3) | Hang \<Rightarrow> (Hang, w3))"
    by (auto simp: migrate_sqls_def exec_all_append out del split: outcome.split)
  show ?thesis
  proof (cases out)
    case (Ret u)
    then have run: "add_columns d t ?add (?s, w2) = (Ret None, (?s, w3))" using add out by simp
    have tail: "migrate_fn d (Some x) (s, w) = ?rest None (?s, w3)"
      unfolding head by (rule stm_bind_run(1) [where m = "add_columns d t ?add", OF run])
    show ?thesis
    proof (cases "?del = []")
      case True
      then show ?thesis unfolding tail sqls Ret by (simp add: stm_ret_def)
    next
      case False
      obtain r w4 where r: "d_Exec d (session_DB s) (replace_table_sql t) [] w3 = (r, w4)" by fastforce
      have "migrate_fn d (Some x) (s, w) = (case r of
          Inl e \<Rightarrow> (Exit e, (?s\<lparr>s_sql := replace_table_sql t\<rparr>, w4)) | Inr _ \<Rightarrow> (Ret ((), None), (?s, w4)))"
        unfolding tail using False replace_run [OF buffers(4), of t d w3] r
        by (simp only: simp_thms if_False session_DB_upd prod.case)
      then show ?thesis unfolding sqls Ret using False r by (cases r) simp_all
    qed
  next
    case (Exit e)
    then obtain s' where run: "add_columns d t ?add (?s, w2) = (Exit e, (s', w3))" using add out by auto
    have "migrate_fn d (Some x) (s, w) = (Exit e, (s', w3))"
      unfolding head by (rule stm_bind_run(3) [where m = "add_columns d t ?add", OF run])
    then show ?thesis unfolding sqls Exit by simp
  qed (use add out in simp_all)
qed

lemma session_Begin_run:
  "d_Begin d w = (Inr tx, w1) \<Longrightarrow> session_Begin d (s, w) = (Ret (Inr tx), (s\<lparr>s_tx := Some tx\<rparr>, w1))"
  by (simp add: session_Begin_def)

text \<open>The session that the function of a transaction gets.\<close>

definition tx_session :: "engine \<Rightarrow> nat \<Rightarrow> session" where
  "tx_session e tx = (NewSession e)\<lparr>s_tx := Some tx\<rparr>"

lemma tx_session_simps [simp]:
  "session_DB (tx_session e tx) = OnTx tx" "s_dialect (tx_session e tx) = e_dialect e"
  "s_refTable (tx_session e tx) = None" "session_clean (tx_session e tx)"
  by (simp_all add: tx_session_def session_DB_def NewSession_def session_New_def session_clean_def)

lemma Transaction_run:
  assumes "d_Begin d w = (Inr tx, w1)" and "fs (tx_session e tx, w1) = (out, (s2, w2))"
  shows "Transaction d e fs w =
    (case out of
       Ret (r, None) \<Rightarrow> (Ret (Some r, fst (d_Commit d tx w2)), snd (d_Commit d tx w2))
     | Ret (r, Some err) \<Rightarrow> (Ret (Some r, Some err), snd (d_Rollback d tx w2))
     | Panic p \<Rightarrow> (Panic p, snd (d_Rollback d tx w2))
     | Exit m \<Rightarrow> (Exit m, w2)
     | Hang \<Rightarrow> (Hang, w2))"
  using assms
  by (simp add: Transaction_def session_Begin_run tx_session_def split: outcome.split option.split prod.split)

subsection \<open>Properties\<close>



text \<open>
  Property C9. For an existing table, \<^verbatim>\<open>Migrate\<close> executes inside one transaction exactly one
  \<^verbatim>\<open>ALTER TABLE\<close> for each column of the schema that the table lacks, in the order of the schema,
  then, if the table has columns that the schema lacks, the statement that replaces the table
  by a copy of the schema's columns; it commits when all of them succeed and ends the process
  at the first that fails.
\<close>

theorem Migrate_correct:
  assumes "d_Begin d w = (Inr tx, w1)" and "Parse (Some x) (e_dialect e) = Ret t"
    and "distinct (sc_FieldNames t)"
    and "TableExistsSQL (e_dialect e) (sc_Name t) = (q, vs)"
    and "d_QueryRow d (OnTx tx) (q @ '' '') vs w1 = (row, w2)" and "table_found d t row"
    and "d_Query d (OnTx tx) (''SELECT * FROM '' @ sc_Name t @ '' LIMIT 1; '') [] w2 = (Inr rs, w3)"
  shows "Migrate d e (Some x) w =
    (case exec_all d (OnTx tx) (migrate_sqls t (r_Columns rs)) w3 of
       (Ret _, w4) \<Rightarrow> (Ret None, snd (d_Commit d tx w4))
     | (Panic m, w4) \<Rightarrow> (Panic m, w4)
     | (Exit m, w4) \<Rightarrow> (Exit m, w4)
     | (Hang, w4) \<Rightarrow> (Hang, w4))"
proof -
  have model: "model_table (tx_session e tx) x = Ret t" using assms(2) by (simp add: model_table_def)
  have run: "case exec_all d (OnTx tx) (migrate_sqls t (r_Columns rs)) w3 of
     (Ret _, w4) \<Rightarrow> \<exists>s'. migrate_fn d (Some x) (tx_session e tx, w1) = (Ret ((), None), (s', w4))
   | (Exit m, w4) \<Rightarrow> \<exists>s'. migrate_fn d (Some x) (tx_session e tx, w1) = (Exit m, (s', w4))
   | _ \<Rightarrow> False"
    using migrate_fn_run [of "tx_session e tx" x t x q vs d w1 row w2 rs w3] model assms by simp
  obtain out w4 where out: "exec_all d (OnTx tx) (migrate_sqls t (r_Columns rs)) w3 = (out, w4)" by fastforce
  show ?thesis
  proof (cases out)
    case (Ret u)
    with run out obtain s' where "migrate_fn d (Some x) (tx_session e tx, w1) = (Ret ((), None), (s', w4))" by auto
    from Transaction_run [where fs = "migrate_fn d (Some x)", OF assms(1) this] out Ret show ?thesis
      by (simp add: Migrate_def stm_bind_def stm_ret_def)
  next
    case (Exit m)
    with run out obtain s' where "migrate_fn d (Some x) (tx_session e tx, w1) = (Exit m, (s', w4))" by auto
    from Transaction_run [where fs = "migrate_fn d (Some x)", OF assms(1) this] out Exit show ?thesis
      by (simp add: Migrate_def stm_bind_def)
  qed (use run out in simp_all)
qed

text \<open>A driver with a table \<^verbatim>\<open>User\<close> that has the columns \<^verbatim>\<open>Name\<close> and \<^verbatim>\<open>Old\<close>.\<close>

definition old_driver :: "(string \<times> goval list) list driver" where
  "old_driver = log_driver
     \<lparr>d_Query := \<lambda>_ _ _ log. (Inr \<lparr>r_Columns = [''Name'', ''Old''], r_rows = [], r_close = None\<rparr>, log),
      d_QueryRow := \<lambda>_ _ _ log. (Inr [VStr ''User''], log)\<rparr>"

theorem Migrate_correct_witness:
  "Migrate old_driver \<lparr>e_dialect = sqlite3\<rparr> (Some (user_obj ''Tom'' 12)) []
     = (Ret None, [(''BEGIN'', []), (''ALTER TABLE User ADD COLUMN Age int; '', []),
         (''CREATE TABLE tmp_User AS SELECT Name, Age FROM User ; DROP TABLE User; ALTER TABLE tmp_User RENAME TO User '', []),
         (''COMMIT'', [])])"
proof -
  have found: "table_found old_driver user_schema (Inr [VStr ''User''])"
    by (simp add: table_found_def scan_one_def Scan_def old_driver_def log_driver_def user_schema_def)
  obtain q where q: "TableExistsSQL sqlite3 ''User'' = (q, [VStr ''User''])"
    by (simp add: sqlite3_def sqlite3_TableExistsSQL_def)
  have "Migrate old_driver \<lparr>e_dialect = sqlite3\<rparr> (Some (user_obj ''Tom'' 12)) [] =
    (case exec_all old_driver (OnTx 1) (migrate_sqls user_schema (r_Columns \<lparr>r_Columns = [''Name'', ''Old''], r_rows = [], r_close = None\<rparr>))
        [(''BEGIN'', [])] of
       (Ret _, w4) \<Rightarrow> (Ret None, snd (d_Commit old_driver 1 w4))
     | (Panic m, w4) \<Rightarrow> (Panic m, w4)
     | (Exit m, w4) \<Rightarrow> (Exit m, w4)
     | (Hang, w4) \<Rightarrow> (Hang, w4))"
    by (rule Migrate_correct [where q = q and vs = "[VStr ''User'']" and row = "Inr [VStr ''User'']" and ?w2.0 = "[(''BEGIN'', [])]"])
      (use parse_user found q in \<open>simp_all add: old_driver_def log_driver_def user_schema_simps\<close>)
  then show ?thesis
    by (simp add: migrate_sqls_def old_driver_def log_driver_def user_schema_def add_column_sql_def
      replace_table_sql_def)
qed

text \<open>
  For a table that does not exist \<^verbatim>\<open>Migrate\<close> does not create it: the arguments of
  its log message parse a pointer to an interface, which panics, and the transaction is rolled
  back. In any case it never returns an error: that of the transaction is dropped.
\<close>

theorem Migrate_missing_table:
  assumes "d_Begin d w = (Inr tx, w1)" and "Parse (Some x) (e_dialect e) = Ret t"
    and "TableExistsSQL (e_dialect e) (sc_Name t) = (q, vs)"
    and "d_QueryRow d (OnTx tx) (q @ '' '') vs w1 = (row, w2)" and "\<not> table_found d t row"
  shows "Migrate d e (Some x) w
      = (Panic ''reflect: NumField of non-struct type'', snd (d_Rollback d tx w2)) \<and>
    fst (Migrate d' e' v w') \<noteq> Ret (Some err)"
proof
  let ?s = "(tx_session e tx)\<lparr>s_refTable := Some t\<rparr>"
  have model: "session_Model (Some x) (tx_session e tx, w1) = (Ret (), (?s, w1))"
    by (rule session_Model_run) (simp add: model_table_def assms(2))
  have buffers: "s_sql ?s = ''''" "s_sqlVars ?s = []" "session_Clear ?s = ?s"
    using tx_session_simps(4) [of e tx] by (simp_all add: session_clean_def session_Clear_def)
  have has: "HasTable d (?s, w1) = (Ret False, (?s, w2))"
    using HasTable_run [of ?s t q vs d w1] buffers assms(3-5) by simp
  have "sc_Model t = x" "o_type x \<noteq> PtrT (Basic '''' KInterface)"
    using Parse_Ret [OF assms(2)] by auto
  then have panic: "session_Model (Some interface_ptr) (?s, w2) = (Panic ''reflect: NumField of non-struct type'', (?s, w2))"
    by (auto simp: session_Model_def interface_ptr_def Parse_def dest: sym)
  have "migrate_fn d (Some x) (tx_session e tx, w1) = (Panic ''reflect: NumField of non-struct type'', (?s, w2))"
    unfolding migrate_fn_def
      stm_bind_run(1) [where m = "session_Model (Some x)" and s = "(tx_session e tx, w1)", OF model]
      stm_bind_run(1) [where m = "HasTable d" and s = "(?s, w1)", OF has]
    by (simp add: stm_bind_def panic)
  from Transaction_run [where fs = "migrate_fn d (Some x)", OF assms(1) this]
  show "Migrate d e (Some x) w = (Panic ''reflect: NumField of non-struct type'', snd (d_Rollback d tx w2))"
    by (simp add: Migrate_def stm_bind_def)
  show "fst (Migrate d' e' v w') \<noteq> Ret (Some err)"
    by (auto simp: Migrate_def stm_bind_def stm_ret_def split: prod.splits outcome.splits)
qed

theorem Migrate_missing_table_witness:
  "Migrate (log_driver\<lparr>d_QueryRow := \<lambda>_ _ _ log. (Inl ''sql: no rows in result set'', log)\<rparr>) \<lparr>e_dialect = sqlite3\<rparr>
     (Some (user_obj ''Tom'' 12)) []
     = (Panic ''reflect: NumField of non-struct type'', [(''BEGIN'', []), (''ROLLBACK'', [])])"
proof -
  let ?d = "log_driver\<lparr>d_QueryRow := \<lambda>_ _ _ log. (Inl ''sql: no rows in result set'', log)\<rparr>"
  obtain q where q: "TableExistsSQL sqlite3 ''User'' = (q, [VStr ''User''])"
    by (simp add: sqlite3_def sqlite3_TableExistsSQL_def)
  have "\<not> table_found ?d user_schema (Inl ''sql: no rows in result set'')"
    by (simp add: table_found_def scan_one_def user_schema_def)
  then show ?thesis
    using Migrate_missing_table [of ?d "[]" 1 "[(''BEGIN'', [])]" "user_obj ''Tom'' 12" "\<lparr>e_dialect = sqlite3\<rparr>" user_schema q
      "[VStr ''User'']" "Inl ''sql: no rows in result set''" "[(''BEGIN'', [])]", THEN conjunct1] parse_user q
    by (simp add: log_driver_def user_schema_simps)
qed

end
