(* ===== verification/RPC_Registry.thy ===== *)
theory RPC_Registry
  imports Go_HTTP
begin

section \<open>Package registry: the registry of RPC servers\<close>

text \<open>
  \<^verbatim>\<open>SuRPC/registry/registry.go\<close>. Points in time and durations are integers (nanoseconds);
  the times that \<^verbatim>\<open>time.Now\<close> returns are parameters, for \<^verbatim>\<open>aliveServers\<close>, which reads the
  clock once for each server, a function from the number of the reading. The order in which
  the map of servers is visited is a parameter too.
\<close>

subsection \<open>State and operations\<close>

record server_item =
  si_Addr :: string
  si_start :: int

record registry =
  reg_timeout :: int
  reg_servers :: "string \<rightharpoonup> server_item"

definition time_Second :: int where
  "time_Second = 1000000000"

definition time_Minute :: int where
  "time_Minute = 60 * time_Second"

definition defaultTimeout :: int where
  "defaultTimeout = time_Minute * 5"

definition NewSuRegistry :: "int \<Rightarrow> registry" where
  "NewSuRegistry timeout = \<lparr>reg_timeout = timeout, reg_servers = Map.empty\<rparr>"

definition putServer :: "string \<Rightarrow> int \<Rightarrow> registry \<Rightarrow> registry" where
  "putServer addr now s =
     (case reg_servers s addr of
        None \<Rightarrow> s\<lparr>reg_servers := (reg_servers s)(addr \<mapsto> \<lparr>si_Addr = addr, si_start = now\<rparr>)\<rparr>
      | Some server \<Rightarrow> s\<lparr>reg_servers := (reg_servers s)(addr \<mapsto> server\<lparr>si_start := now\<rparr>)\<rparr>)"

text \<open>
  The loop of \<^verbatim>\<open>aliveServers\<close> over the addresses in the order it visits them; \<open>n\<close> counts the
  readings of the clock. With a timeout of 0 the condition is decided without a reading.
\<close>

fun alive_loop :: "(nat \<Rightarrow> int) \<Rightarrow> nat \<Rightarrow> string list \<Rightarrow> string list \<Rightarrow> registry \<Rightarrow> string list \<times> registry" where
  "alive_loop clock n [] alive s = (alive, s)"
| "alive_loop clock n (addr # addrs) alive s =
     (case reg_servers s addr of
        None \<Rightarrow> alive_loop clock n addrs alive s
      | Some server \<Rightarrow>
          if reg_timeout s = 0 then alive_loop clock n addrs (alive @ [addr]) s
          else if clock n < si_start server + reg_timeout s
          then alive_loop clock (Suc n) addrs (alive @ [addr]) s
          else alive_loop clock (Suc n) addrs alive (s\<lparr>reg_servers := (reg_servers s)(addr := None)\<rparr>))"

definition aliveServers :: "string list \<Rightarrow> (nat \<Rightarrow> int) \<Rightarrow> registry \<Rightarrow> string list \<times> registry" where
  "aliveServers order clock s =
     (case alive_loop clock 0 order [] s of (alive, s1) \<Rightarrow> (sort alive, s1))"

text \<open>
  \<^verbatim>\<open>ServeHTTP\<close> on the method of a request and its header \<^verbatim>\<open>X-Surpc-Server\<close> (empty if it is
  missing).
\<close>

definition registry_ServeHTTP ::
  "string list \<Rightarrow> (nat \<Rightarrow> int) \<Rightarrow> string \<Rightarrow> string \<Rightarrow> registry \<Rightarrow> response_writer \<times> registry" where
  "registry_ServeHTTP order clock meth addr s =
     (if meth = ''GET'' then
        (case aliveServers order clock s of
           (alive, s1) \<Rightarrow> (rw_finish (rw_Set ''X-Surpc-Servers'' (go_join '','' alive) rw_new), s1))
      else if meth = ''POST'' then
        (if addr = '''' then (rw_finish (rw_WriteHeader 500 rw_new), s)
         else (rw_finish rw_new, putServer addr (clock 0) s))
      else (rw_finish (rw_WriteHeader 405 rw_new), s))"

text \<open>
  \<^verbatim>\<open>Heartbeat\<close>: the interval of the ticker, and the loop that sends a heartbeat at each tick
  until one fails. \<open>send\<close> is the outcome of \<^verbatim>\<open>sendHeartBeat\<close> at each tick; the result is the
  list of the times at which heartbeats were sent, the first one before the ticker starts. A
  negative duration, with which the ticker panics, is left out.
\<close>

definition heartbeat_interval :: "int \<Rightarrow> int" where
  "heartbeat_interval duration = (if duration = 0 then defaultTimeout - 1 * time_Minute else duration)"

fun heartbeat_loop :: "(nat \<Rightarrow> goerror option) \<Rightarrow> nat \<Rightarrow> nat \<Rightarrow> nat list" where
  "heartbeat_loop send 0 tick = []"
| "heartbeat_loop send (Suc ticks) tick =
     tick # (if send tick = None then heartbeat_loop send ticks (Suc tick) else [])"

definition Heartbeat :: "int \<Rightarrow> (nat \<Rightarrow> goerror option) \<Rightarrow> int \<Rightarrow> nat \<Rightarrow> int list" where
  "Heartbeat duration send start ticks =
     map (\<lambda>k. start + int k * heartbeat_interval duration) (heartbeat_loop send (Suc ticks) 0)"

text \<open>
  \<^verbatim>\<open>sendHeartBeat\<close>. \<open>http_Do\<close> is \<^verbatim>\<open>Client.Do\<close> for a method, an address and a value of the
  header \<^verbatim>\<open>X-Surpc-Server\<close>: an error or an answer, which the code does not look at. The
  error of \<^verbatim>\<open>http.NewRequest\<close> is dropped, so that an invalid address panics.
\<close>

definition sendHeartBeat ::
  "(string \<Rightarrow> bool) \<Rightarrow> (string \<Rightarrow> string \<Rightarrow> string \<Rightarrow> 'w \<Rightarrow> (goerror + response_writer) \<times> 'w) \<Rightarrow>
   string \<Rightarrow> string \<Rightarrow> ('w, goerror option) stm" where
  "sendHeartBeat valid_url http_Do reg_addr addr w =
     (if \<not> valid_url reg_addr then (Panic ''invalid memory address or nil pointer dereference'', w)
      else case http_Do ''POST'' reg_addr addr w of
          (Inl err, w1) \<Rightarrow> (Ret (Some err), w1)
        | (Inr answer, w1) \<Rightarrow> (Ret None, w1))"

definition defaultPath :: string where
  "defaultPath = ''/_surpc_/registry''"

definition registry_HandleHTTP :: "'h \<Rightarrow> string \<Rightarrow> ('h mux, unit) stm" where
  "registry_HandleHTTP s registryPath = http_Handle registryPath s"

text \<open>A registry that is reached over the network, or not.\<close>

definition registry_Do ::
  "string list \<Rightarrow> (nat \<Rightarrow> int) \<Rightarrow> goerror option \<Rightarrow> string \<Rightarrow> string \<Rightarrow> string \<Rightarrow> registry \<Rightarrow>
   (goerror + response_writer) \<times> registry" where
  "registry_Do order clock down meth url addr s =
     (case down of
        Some err \<Rightarrow> (Inl err, s)
      | None \<Rightarrow> (case registry_ServeHTTP order clock meth addr s of (rw, s1) \<Rightarrow> (Inr rw, s1)))"

text \<open>
  A heartbeat that arrives stores the server with the time of its arrival. The sender learns of
  a failed request only: an address the registry refuses with status 500 counts as sent.
\<close>

lemma sendHeartBeat_registry:
  assumes "valid_url url"
  shows "sendHeartBeat valid_url (registry_Do order clock None) url addr s
    = (Ret None, if addr = '''' then s else putServer addr (clock 0) s)"
    and "sendHeartBeat valid_url (registry_Do order clock (Some err)) url addr s = (Ret (Some err), s)"
  using assms by (simp_all add: sendHeartBeat_def registry_Do_def registry_ServeHTTP_def)

subsection \<open>What aliveServers computes\<close>

text \<open>
  A server is alive at a time when the registry has no timeout or the server's start plus the
  timeout is later. A visiting order lists each address of the map once.
\<close>

definition alive_at :: "registry \<Rightarrow> int \<Rightarrow> string \<Rightarrow> bool" where
  "alive_at s now addr \<longleftrightarrow>
     (case reg_servers s addr of
        None \<Rightarrow> False
      | Some server \<Rightarrow> reg_timeout s = 0 \<or> now < si_start server + reg_timeout s)"

definition visit_order :: "registry \<Rightarrow> string list \<Rightarrow> bool" where
  "visit_order s order \<longleftrightarrow> distinct order \<and> set order = dom (reg_servers s)"

text \<open>Addresses that expire between two readings of the clock are decided by one of them.\<close>

lemma alive_loop_spec:
  assumes "\<And>i j. i \<le> j \<Longrightarrow> clock i \<le> clock j" and "distinct order"
    and "alive_loop clock n order alive s = (alive', s')"
  shows "reg_timeout s' = reg_timeout s \<and>
    (\<exists>keep. alive' = alive @ keep \<and> set keep \<subseteq> set order \<and> distinct keep \<and>
      (\<forall>a \<in> set keep. alive_at s (clock n) a) \<and>
      (\<forall>a \<in> set order. alive_at s (clock (n + length order)) a \<longrightarrow> a \<in> set keep) \<and>
      reg_servers s' = (\<lambda>a. if a \<in> set order \<and> a \<notin> set keep then None else reg_servers s a))"
  using assms(2,3)
proof (induction order arbitrary: n alive s)
  case Nil
  then show ?case by auto
next
  case (Cons addr order)
  have mono: "alive_at s (clock j) a \<Longrightarrow> i \<le> j \<Longrightarrow> alive_at s (clock i) a" for s a i j
    using assms(1) [of i j] by (auto simp: alive_at_def split: option.splits)
  consider (absent) "reg_servers s addr = None"
    | (forever) server where "reg_servers s addr = Some server" "reg_timeout s = 0"
    | (alive) server where "reg_servers s addr = Some server" "reg_timeout s \<noteq> 0"
        "clock n < si_start server + reg_timeout s"
    | (expired) server where "reg_servers s addr = Some server" "reg_timeout s \<noteq> 0"
        "\<not> clock n < si_start server + reg_timeout s"
    by blast
  then show ?case
  proof cases
    case absent
    then have "alive_loop clock n order alive s = (alive', s')" using Cons.prems by simp
    from Cons.IH [OF _ this] Cons.prems(1) obtain keep where keep: "reg_timeout s' = reg_timeout s"
      "alive' = alive @ keep" "set keep \<subseteq> set order" "distinct keep" "\<forall>a \<in> set keep. alive_at s (clock n) a"
      "\<forall>a \<in> set order. alive_at s (clock (n + length order)) a \<longrightarrow> a \<in> set keep"
      "reg_servers s' = (\<lambda>a. if a \<in> set order \<and> a \<notin> set keep then None else reg_servers s a)" by auto
    with absent Cons.prems(1) mono [of s "n + length (addr # order)" _ "n + length order"]
    show ?thesis by (intro conjI exI [of _ keep]) (auto simp: alive_at_def fun_eq_iff)
  next
    case forever
    then have "alive_loop clock n order (alive @ [addr]) s = (alive', s')" using Cons.prems by simp
    from Cons.IH [OF _ this] Cons.prems(1) obtain keep where keep: "reg_timeout s' = reg_timeout s"
      "alive' = (alive @ [addr]) @ keep" "set keep \<subseteq> set order" "distinct keep" "\<forall>a \<in> set keep. alive_at s (clock n) a"
      "\<forall>a \<in> set order. alive_at s (clock (n + length order)) a \<longrightarrow> a \<in> set keep"
      "reg_servers s' = (\<lambda>a. if a \<in> set order \<and> a \<notin> set keep then None else reg_servers s a)" by auto
    with forever Cons.prems(1) mono [of s "n + length (addr # order)" _ "n + length order"]
    show ?thesis by (intro conjI exI [of _ "addr # keep"]) (auto simp: alive_at_def fun_eq_iff)
  next
    case alive
    then have "alive_loop clock (Suc n) order (alive @ [addr]) s = (alive', s')" using Cons.prems by simp
    from Cons.IH [OF _ this] Cons.prems(1) obtain keep where keep: "reg_timeout s' = reg_timeout s"
      "alive' = (alive @ [addr]) @ keep" "set keep \<subseteq> set order" "distinct keep" "\<forall>a \<in> set keep. alive_at s (clock (Suc n)) a"
      "\<forall>a \<in> set order. alive_at s (clock (Suc n + length order)) a \<longrightarrow> a \<in> set keep"
      "reg_servers s' = (\<lambda>a. if a \<in> set order \<and> a \<notin> set keep then None else reg_servers s a)" by auto
    with alive Cons.prems(1) mono [of s "Suc n" _ n]
    show ?thesis by (intro conjI exI [of _ "addr # keep"]) (auto simp: alive_at_def fun_eq_iff)
  next
    case expired
    let ?s = "s\<lparr>reg_servers := (reg_servers s)(addr := None)\<rparr>"
    have other: "alive_at ?s t a = alive_at s t a" if "a \<noteq> addr" for t a
      using that by (auto simp: alive_at_def split: option.splits)
    have gone: "\<not> alive_at s (clock (n + length (addr # order))) addr"
      using expired mono [of s "n + length (addr # order)" addr n] by (auto simp: alive_at_def)
    have "alive_loop clock (Suc n) order alive ?s = (alive', s')" using expired Cons.prems by simp
    from Cons.IH [OF _ this] Cons.prems(1) obtain keep where keep: "reg_timeout s' = reg_timeout ?s"
      "alive' = alive @ keep" "set keep \<subseteq> set order" "distinct keep" "\<forall>a \<in> set keep. alive_at ?s (clock (Suc n)) a"
      "\<forall>a \<in> set order. alive_at ?s (clock (Suc n + length order)) a \<longrightarrow> a \<in> set keep"
      "reg_servers s' = (\<lambda>a. if a \<in> set order \<and> a \<notin> set keep then None else reg_servers ?s a)" by auto
    have "addr \<notin> set order" "addr \<notin> set keep" using Cons.prems(1) keep(3) by auto
    then have ne: "a \<noteq> addr" if "a \<in> set keep \<or> a \<in> set order" for a using that by auto
    have "\<forall>a \<in> set keep. alive_at s (clock n) a"
    proof
      fix a
      assume "a \<in> set keep"
      with keep(5) ne other [of a "clock (Suc n)"] have "alive_at s (clock (Suc n)) a" by auto
      then show "alive_at s (clock n) a" by (rule mono) simp
    qed
    moreover have "\<forall>a \<in> set (addr # order). alive_at s (clock (n + length (addr # order))) a \<longrightarrow> a \<in> set keep"
      using keep(6) gone ne other by auto
    moreover have "reg_servers s' = (\<lambda>a. if a \<in> set (addr # order) \<and> a \<notin> set keep then None else reg_servers s a)"
      using keep(7) \<open>addr \<notin> set order\<close> \<open>addr \<notin> set keep\<close> by (auto simp: fun_eq_iff)
    ultimately show ?thesis using keep(1-4) by (intro conjI exI [of _ keep]) auto
  qed
qed

subsection \<open>Heartbeats\<close>

lemma heartbeat_loop_ok: "heartbeat_loop (\<lambda>_. None) ticks t = [t..<t + ticks]"
proof (induction ticks arbitrary: t)
  case 0
  then show ?case by simp
next
  case (Suc ticks)
  then show ?case by (simp add: upt_conv_Cons)
qed

lemma heartbeat_loop_stops:
  "send k \<noteq> None \<Longrightarrow> t \<le> k \<Longrightarrow> set (heartbeat_loop send ticks t) \<subseteq> {t..k}"
proof (induction ticks arbitrary: t)
  case 0
  then show ?case by simp
next
  case (Suc ticks)
  show ?case
  proof (cases "t = k")
    case True
    with Suc.prems show ?thesis by auto
  next
    case False
    with Suc.IH [of "Suc t"] Suc.prems show ?thesis by auto
  qed
qed

lemma putServer_fields [simp]: "reg_timeout (putServer addr now s) = reg_timeout s"
  by (simp add: putServer_def split: option.split)

lemma putServer_start:
  "\<exists>server. reg_servers (putServer addr now s) addr = Some server \<and> si_start server = now"
  "a \<noteq> addr \<Longrightarrow> reg_servers (putServer addr now s) a = reg_servers s a"
  by (simp_all add: putServer_def split: option.split)

lemma fold_putServer:
  "ts \<noteq> [] \<Longrightarrow> reg_timeout (fold (putServer addr) ts s) = reg_timeout s \<and>
     (\<exists>server. reg_servers (fold (putServer addr) ts s) addr = Some server \<and> si_start server = last ts)"
  by (induction ts arbitrary: s) (auto simp: putServer_start(1))

subsection \<open>Properties\<close>

text \<open>
  Property C38. With a clock that does not go backwards, \<^verbatim>\<open>aliveServers\<close> returns a sorted list
  without duplicates that contains every server still alive at its last reading of the clock
  and only servers alive at its first, and removes from the registry exactly the servers it
  does not return; when the clock stands still it returns exactly the servers alive.
\<close>

theorem aliveServers_correct:
  assumes "\<And>i j. i \<le> j \<Longrightarrow> clock i \<le> clock j" and "visit_order s order"
    and "aliveServers order clock s = (alive, s')"
  shows "sorted alive \<and> distinct alive \<and> (\<forall>a \<in> set alive. alive_at s (clock 0) a) \<and>
    (\<forall>a. alive_at s (clock (length order)) a \<longrightarrow> a \<in> set alive) \<and>
    reg_servers s' = (reg_servers s) |` set alive \<and> reg_timeout s' = reg_timeout s \<and>
    ((\<forall>i. clock i = now) \<longrightarrow> set alive = {a. alive_at s now a})"
proof -
  obtain keep s1 where loop: "alive_loop clock 0 order [] s = (keep, s1)" by fastforce
  then have res: "alive = sort keep" "s' = s1" using assms(3) by (simp_all add: aliveServers_def)
  have dom: "distinct order" "set order = dom (reg_servers s)"
    using assms(2) by (simp_all add: visit_order_def)
  from alive_loop_spec [of clock, OF assms(1) dom(1) loop] have spec: "reg_timeout s1 = reg_timeout s"
    "set keep \<subseteq> set order" "distinct keep" "\<forall>a \<in> set keep. alive_at s (clock 0) a"
    "\<forall>a \<in> set order. alive_at s (clock (length order)) a \<longrightarrow> a \<in> set keep"
    "reg_servers s1 = (\<lambda>a. if a \<in> set order \<and> a \<notin> set keep then None else reg_servers s a)" by auto
  have known: "a \<in> set order" if "alive_at s t a" for a t
    using that unfolding dom(2) by (auto simp: alive_at_def split: option.splits)
  have "reg_servers s1 = (reg_servers s) |` set keep"
    unfolding spec(6) dom(2) by (auto simp: restrict_map_def fun_eq_iff dom_def)
  moreover have "set keep = {a. alive_at s now a}" if "\<forall>i. clock i = now"
    using that spec(4,5) known by auto
  ultimately show ?thesis using res spec known by auto
qed

definition two_servers :: registry where
  "two_servers = \<lparr>reg_timeout = 100,
     reg_servers = [''tcp@b'' \<mapsto> \<lparr>si_Addr = ''tcp@b'', si_start = 50\<rparr>, ''tcp@a'' \<mapsto> \<lparr>si_Addr = ''tcp@a'', si_start = 0\<rparr>]\<rparr>"

theorem aliveServers_correct_witness:
  "set (fst (aliveServers [''tcp@b'', ''tcp@a''] (\<lambda>_. 120) two_servers)) = {''tcp@b''} \<and>
   reg_servers (snd (aliveServers [''tcp@b'', ''tcp@a''] (\<lambda>_. 120) two_servers)) ''tcp@a'' = None"
proof -
  obtain alive s' where run: "aliveServers [''tcp@b'', ''tcp@a''] (\<lambda>_. 120) two_servers = (alive, s')" by fastforce
  have "visit_order two_servers [''tcp@b'', ''tcp@a'']"
    by (auto simp: visit_order_def two_servers_def)
  from aliveServers_correct [OF _ this run, of 120]
  have "set alive = {a. alive_at two_servers 120 a}" "reg_servers s' = (reg_servers two_servers) |` set alive"
    by simp_all
  moreover have "{a. alive_at two_servers 120 a} = {''tcp@b''}"
    by (auto simp: alive_at_def two_servers_def split: option.splits if_splits)
  ultimately show ?thesis using run by simp
qed



end
