(* ===== verification/RPC_Discovery.thy ===== *)
theory RPC_Discovery
  imports RPC_Registry "HOL-Library.Multiset"
begin

section \<open>Package xclient: discovery of servers and load balancing\<close>

text \<open>
  \<^verbatim>\<open>SuRPC/xclient/discovery.go\<close> and \<^verbatim>\<open>SuRPC/xclient/discovery_su.go\<close>. The interface
  \<^verbatim>\<open>Discovery\<close> is the locale \<open>discovery\<close>, interpreted for both of its implementations. The
  generator of random numbers is a parameter with its state; so are the clock and
  \<^verbatim>\<open>http.Get\<close>, which act on the world of the registry's client.
\<close>

subsection \<open>MultiServerDiscovery\<close>

datatype select_mode = RandomSelect | RoundRobinSelect | OtherMode int

text \<open>\<open>intn n\<close> is \<^verbatim>\<open>rand.Intn(n)\<close>, a number below \<open>n\<close> for positive \<open>n\<close>.\<close>

type_synonym 'g intn = "nat \<Rightarrow> 'g \<Rightarrow> nat \<times> 'g"

record 'g multi =
  md_rand :: 'g
  md_servers :: "string list"
  md_index :: nat

definition NewMultiServerDiscovery :: "'g intn \<Rightarrow> 'g \<Rightarrow> string list \<Rightarrow> 'g multi" where
  "NewMultiServerDiscovery intn g servers =
     (let d = \<lparr>md_rand = g, md_servers = servers, md_index = 0\<rparr>
      in case intn (2147483647 - 1) (md_rand d) of (i, g1) \<Rightarrow> d\<lparr>md_rand := g1, md_index := i\<rparr>)"

definition multi_Refresh :: "'g multi \<Rightarrow> goerror option \<times> 'g multi" where
  "multi_Refresh m = (None, m)"

definition multi_Update :: "string list \<Rightarrow> 'g multi \<Rightarrow> goerror option \<times> 'g multi" where
  "multi_Update servers m = (None, m\<lparr>md_servers := servers\<rparr>)"

definition multi_Get :: "'g intn \<Rightarrow> select_mode \<Rightarrow> 'g multi \<Rightarrow> (goerror + string) \<times> 'g multi" where
  "multi_Get intn mode m =
     (let len = length (md_servers m)
      in if len = 0 then (Inl ''rpc discovery: no available servers'', m)
         else case mode of
           RandomSelect \<Rightarrow>
             (case intn len (md_rand m) of (i, g1) \<Rightarrow> (Inr (md_servers m ! i), m\<lparr>md_rand := g1\<rparr>))
         | RoundRobinSelect \<Rightarrow>
             (let s = md_servers m ! (md_index m mod len);
                  m1 = m\<lparr>md_index := (md_index m + 1) mod len\<rparr>
              in (Inr s, m1))
         | OtherMode _ \<Rightarrow> (Inl ''rpc discovery: not supported mode'', m))"

definition multi_GetAll :: "'g multi \<Rightarrow> (goerror + string list) \<times> 'g multi" where
  "multi_GetAll m = (Inr (take (length (md_servers m)) (md_servers m)), m)"

subsection \<open>SuRegistryDiscovery\<close>

record 'g reg_disc =
  sd_multi :: "'g multi"
  sd_registry :: string
  sd_timeout :: int
  sd_lastUpdate :: int

definition defaultUpdateTimeout :: int where
  "defaultUpdateTimeout = time_Second * 10"

text \<open>The zero value of \<^verbatim>\<open>time.Time\<close>, the first of January of the year 1.\<close>

definition zero_time :: int where
  "zero_time = - (62135596800 * time_Second)"

definition NewSuRegistryDiscovery :: "'g intn \<Rightarrow> 'g \<Rightarrow> string \<Rightarrow> int \<Rightarrow> 'g reg_disc" where
  "NewSuRegistryDiscovery intn g registryAddr timeout =
     \<lparr>sd_multi = NewMultiServerDiscovery intn g [], sd_registry = registryAddr,
      sd_timeout = (if timeout = 0 then defaultUpdateTimeout else timeout), sd_lastUpdate = zero_time\<rparr>"

definition reg_disc_Update ::
  "('w \<Rightarrow> int \<times> 'w) \<Rightarrow> string list \<Rightarrow> 'g reg_disc \<times> 'w \<Rightarrow> goerror option \<times> ('g reg_disc \<times> 'w)" where
  "reg_disc_Update time_Now servers dw =
     (case dw of (d, w) \<Rightarrow>
        (case time_Now w of (now, w1) \<Rightarrow>
           (None, (d\<lparr>sd_multi := (sd_multi d)\<lparr>md_servers := servers\<rparr>, sd_lastUpdate := now\<rparr>, w1))))"

text \<open>
  The servers that \<^verbatim>\<open>Refresh\<close> makes of the header: the slice starts with as many empty strings
  as the header has parts, and the trimmed parts that are not empty are appended.
\<close>

definition refresh_servers :: "string \<Rightarrow> string list" where
  "refresh_servers header =
     (let servers = split_byte (CHR '','') header
      in fold (\<lambda>server ds. if trimSpace server \<noteq> '''' then ds @ [trimSpace server] else ds) servers
           (replicate (length servers) ''''))"

text \<open>\<open>http_Get\<close> gives the error or the header \<^verbatim>\<open>X-Surpc-Servers\<close> of the registry's response.\<close>

definition reg_disc_Refresh ::
  "('w \<Rightarrow> int \<times> 'w) \<Rightarrow> (string \<Rightarrow> 'w \<Rightarrow> (goerror + string) \<times> 'w) \<Rightarrow>
   'g reg_disc \<times> 'w \<Rightarrow> goerror option \<times> ('g reg_disc \<times> 'w)" where
  "reg_disc_Refresh time_Now http_Get dw =
     (case dw of (d, w) \<Rightarrow>
        (case time_Now w of (now, w1) \<Rightarrow>
           if now < sd_lastUpdate d + sd_timeout d then (None, (d, w1))
           else
             (case http_Get (sd_registry d) w1 of
                (Inl err, w2) \<Rightarrow> (Some err, (d, w2))
              | (Inr header, w2) \<Rightarrow>
                  (case time_Now w2 of (now2, w3) \<Rightarrow>
                     (None, (d\<lparr>sd_multi := (sd_multi d)\<lparr>md_servers := refresh_servers header\<rparr>,
                               sd_lastUpdate := now2\<rparr>, w3))))))"

definition reg_disc_Get ::
  "('w \<Rightarrow> int \<times> 'w) \<Rightarrow> (string \<Rightarrow> 'w \<Rightarrow> (goerror + string) \<times> 'w) \<Rightarrow> 'g intn \<Rightarrow> select_mode \<Rightarrow>
   'g reg_disc \<times> 'w \<Rightarrow> (goerror + string) \<times> ('g reg_disc \<times> 'w)" where
  "reg_disc_Get time_Now http_Get intn mode dw =
     (case reg_disc_Refresh time_Now http_Get dw of
        (Some err, dw1) \<Rightarrow> (Inl err, dw1)
      | (None, (d, w)) \<Rightarrow>
          (case multi_Get intn mode (sd_multi d) of (r, m) \<Rightarrow> (r, (d\<lparr>sd_multi := m\<rparr>, w))))"

definition reg_disc_GetAll ::
  "('w \<Rightarrow> int \<times> 'w) \<Rightarrow> (string \<Rightarrow> 'w \<Rightarrow> (goerror + string) \<times> 'w) \<Rightarrow>
   'g reg_disc \<times> 'w \<Rightarrow> (goerror + string list) \<times> ('g reg_disc \<times> 'w)" where
  "reg_disc_GetAll time_Now http_Get dw =
     (case reg_disc_Refresh time_Now http_Get dw of
        (Some err, dw1) \<Rightarrow> (Inl err, dw1)
      | (None, (d, w)) \<Rightarrow>
          (case multi_GetAll (sd_multi d) of (r, m) \<Rightarrow> (r, (d\<lparr>sd_multi := m\<rparr>, w))))"

subsection \<open>The interface Discovery\<close>

text \<open>
  What a client relies on: \<^verbatim>\<open>Get\<close> chooses one of the servers known after the call, whatever the
  mode, \<^verbatim>\<open>GetAll\<close> returns all of them, and \<^verbatim>\<open>Update\<close> replaces them.
\<close>

locale discovery =
  fixes get :: "select_mode \<Rightarrow> 's \<Rightarrow> (goerror + string) \<times> 's"
    and getAll :: "'s \<Rightarrow> (goerror + string list) \<times> 's"
    and update :: "string list \<Rightarrow> 's \<Rightarrow> goerror option \<times> 's"
    and known :: "'s \<Rightarrow> string list"
  assumes get_known: "get mode s = (Inr x, s') \<Longrightarrow> x \<in> set (known s')"
    and getAll_known: "getAll s = (Inr xs, s') \<Longrightarrow> xs = known s'"
    and update_known: "update servers s = (None, s') \<Longrightarrow> known s' = servers"
begin

lemma get_after_update:
  "update servers s = (None, s1) \<Longrightarrow> get mode s1 = (Inr x, s2) \<Longrightarrow> known s2 = known s1 \<Longrightarrow> x \<in> set servers"
  using get_known update_known by metis

lemma getAll_member: "getAll s = (Inr xs, s') \<Longrightarrow> x \<in> set xs \<longleftrightarrow> x \<in> set (known s')"
  using getAll_known by blast

end

lemma multi_Get_member:
  assumes "\<And>n g. 0 < n \<Longrightarrow> fst (intn n g) < n" and "multi_Get intn mode m = (Inr x, m')"
  shows "x \<in> set (md_servers m') \<and> md_servers m' = md_servers m"
proof -
  have "m mod length xs < length xs" if "xs \<noteq> []" for m :: nat and xs :: "string list"
    using that by simp
  then show ?thesis
    using assms(2) assms(1) [of "length (md_servers m)" "md_rand m"]
    by (auto simp: multi_Get_def Let_def split: if_splits select_mode.splits prod.splits)
qed

text \<open>A generator that satisfies the contract of \<^verbatim>\<open>rand.Intn\<close>: a state reduced modulo \<open>n\<close>.\<close>

definition mod_intn :: "'g intn \<Rightarrow> 'g intn" where
  "mod_intn raw n g = (fst (raw n g) mod n, snd (raw n g))"

lemma mod_intn_bound: "0 < n \<Longrightarrow> fst (mod_intn raw n g) < n"
  by (simp add: mod_intn_def)

interpretation multi: discovery "multi_Get (mod_intn raw)" multi_GetAll multi_Update md_servers for raw
proof
  show "multi_Get (mod_intn raw) mode s = (Inr x, s') \<Longrightarrow> x \<in> set (md_servers s')" for mode s x s'
    using multi_Get_member [of "mod_intn raw", OF mod_intn_bound] by blast
  show "multi_GetAll s = (Inr xs, s') \<Longrightarrow> xs = md_servers s'" for s xs and s' :: "'a multi"
    by (auto simp: multi_GetAll_def)
  show "multi_Update servers s = (None, s') \<Longrightarrow> md_servers s' = servers" for servers s and s' :: "'a multi"
    by (auto simp: multi_Update_def)
qed

interpretation reg_disc: discovery "reg_disc_Get time_Now http_Get (mod_intn raw)"
  "reg_disc_GetAll time_Now http_Get" "reg_disc_Update time_Now" "\<lambda>dw. md_servers (sd_multi (fst dw))"
  for time_Now http_Get raw
proof
  show "reg_disc_Get time_Now http_Get (mod_intn raw) mode s = (Inr x, s') \<Longrightarrow>
      x \<in> set (md_servers (sd_multi (fst s')))" for mode s x s'
    by (auto simp: reg_disc_Get_def split: prod.splits option.splits dest!: multi.get_known)
  show "reg_disc_GetAll time_Now http_Get s = (Inr xs, s') \<Longrightarrow> xs = md_servers (sd_multi (fst s'))" for s xs s'
    by (auto simp: reg_disc_GetAll_def split: prod.splits option.splits dest!: multi.getAll_known)
  show "reg_disc_Update time_Now servers s = (None, s') \<Longrightarrow> md_servers (sd_multi (fst s')) = servers" for servers s s'
    by (auto simp: reg_disc_Update_def split: prod.splits)
qed

subsection \<open>Round robin\<close>

text \<open>The results of \<open>n\<close> calls of \<^verbatim>\<open>Get\<close> in a row.\<close>

fun multi_gets :: "'g intn \<Rightarrow> select_mode \<Rightarrow> nat \<Rightarrow> 'g multi \<Rightarrow> (goerror + string) list \<times> 'g multi" where
  "multi_gets intn mode 0 m = ([], m)"
| "multi_gets intn mode (Suc n) m =
     (case multi_Get intn mode m of (r, m1) \<Rightarrow>
        (case multi_gets intn mode n m1 of (rs, m2) \<Rightarrow> (r # rs, m2)))"

lemma round_robin_Get:
  "md_servers m \<noteq> [] \<Longrightarrow> multi_Get intn RoundRobinSelect m
    = (Inr (md_servers m ! (md_index m mod length (md_servers m))),
       m\<lparr>md_index := (md_index m + 1) mod length (md_servers m)\<rparr>)"
  by (simp add: multi_Get_def Let_def)

lemma round_robin_gets:
  "md_servers m \<noteq> [] \<Longrightarrow> fst (multi_gets intn RoundRobinSelect n m)
    = map (\<lambda>k. Inr (md_servers m ! ((md_index m + k) mod length (md_servers m)))) [0..<n]"
proof (induction n arbitrary: m)
  case 0
  then show ?case by simp
next
  case (Suc n)
  let ?len = "length (md_servers m)"
  let ?m = "m\<lparr>md_index := (md_index m + 1) mod ?len\<rparr>"
  have "((md_index m + 1) mod ?len + k) mod ?len = (md_index m + Suc k) mod ?len" for k
    by (simp add: mod_add_left_eq)
  then have "fst (multi_gets intn RoundRobinSelect n ?m)
      = map (\<lambda>k. Inr (md_servers m ! ((md_index m + Suc k) mod ?len))) [0..<n]"
    using Suc.IH [of ?m] Suc.prems by simp
  then show ?case
    using Suc.prems by (simp add: round_robin_Get case_prod_beta map_upt_Suc del: upt_Suc)
qed

lemma mset_rotation:
  assumes "xs \<noteq> []"
  shows "mset (map (\<lambda>k. xs ! ((i + k) mod length xs)) [0..<length xs]) = mset xs"
proof -
  have "map (\<lambda>k. xs ! ((i + k) mod length xs)) [0..<length xs] = rotate i xs"
    using assms by (intro nth_equalityI) (simp_all add: nth_rotate add.commute)
  moreover have "mset (drop n xs @ take n xs) = mset xs" for n
    by (metis add.commute append_take_drop_id mset_append)
  ultimately show ?thesis by (simp only: rotate_drop_take)
qed

subsection \<open>Refreshing from the registry\<close>

lemma refresh_servers_eq:
  "refresh_servers header
    = replicate (length (split_byte (CHR '','') header)) '''' @
      filter (\<lambda>s. s \<noteq> '''') (map trimSpace (split_byte (CHR '','') header))"
proof -
  have "fold (\<lambda>server ds. if trimSpace server \<noteq> '''' then ds @ [trimSpace server] else ds) xs ds
      = ds @ filter (\<lambda>s. s \<noteq> '''') (map trimSpace xs)" for xs ds
    by (induction xs arbitrary: ds) auto
  then show ?thesis by (simp add: refresh_servers_def Let_def)
qed

text \<open>An address that survives the list of the registry: not empty, no comma and no space.\<close>

definition plain_address :: "string \<Rightarrow> bool" where
  "plain_address a \<longleftrightarrow> a \<noteq> '''' \<and> CHR '','' \<notin> set a \<and> list_all (\<lambda>c. \<not> is_space c) a"

lemma refresh_join:
  assumes "list_all plain_address alive"
  shows "refresh_servers (go_join '','' alive)
    = replicate (if alive = [] then 1 else length alive) '''' @ alive"
proof (cases "alive = []")
  case True
  then show ?thesis by (simp add: refresh_servers_eq trimSpace_def)
next
  case False
  have split: "split_byte (CHR '','') (go_join '','' alive) = alive"
    using False assms by (intro split_join) (auto simp: plain_address_def list_all_iff)
  have "map trimSpace alive = alive"
    using assms by (intro map_idI trimSpace_id) (auto simp: plain_address_def list_all_iff)
  moreover have "filter (\<lambda>s. s \<noteq> '''') alive = alive"
    using assms by (auto simp: plain_address_def list_all_iff filter_id_conv)
  ultimately show ?thesis using False by (simp add: refresh_servers_eq split)
qed

subsection \<open>Properties\<close>

text \<open>
  Property C40. Round robin is fair: from any index, as many calls of \<^verbatim>\<open>Get\<close> in a row as there
  are servers return every server exactly once, in the cyclic order of the list; with a
  sound generator of random numbers every mode returns a known server.
\<close>

theorem round_robin_fair:
  assumes "md_servers m \<noteq> []"
  shows "(\<exists>xs. fst (multi_gets intn RoundRobinSelect (length (md_servers m)) m) = map Inr xs \<and>
      mset xs = mset (md_servers m) \<and> xs = rotate (md_index m) (md_servers m)) \<and>
    (fst (multi_Get (mod_intn intn) mode m) = Inr x \<longrightarrow> x \<in> set (md_servers m))"
proof
  let ?xs = "map (\<lambda>k. md_servers m ! ((md_index m + k) mod length (md_servers m))) [0..<length (md_servers m)]"
  have "fst (multi_gets intn RoundRobinSelect (length (md_servers m)) m) = map Inr ?xs"
    unfolding round_robin_gets [OF assms] by simp
  moreover have "?xs = rotate (md_index m) (md_servers m)"
    using assms by (intro nth_equalityI) (simp_all add: nth_rotate add.commute)
  moreover have "mset ?xs = mset (md_servers m)" by (rule mset_rotation [OF assms])
  ultimately show "\<exists>xs. fst (multi_gets intn RoundRobinSelect (length (md_servers m)) m) = map Inr xs \<and>
      mset xs = mset (md_servers m) \<and> xs = rotate (md_index m) (md_servers m)" by blast
  show "fst (multi_Get (mod_intn intn) mode m) = Inr x \<longrightarrow> x \<in> set (md_servers m)"
    using multi_Get_member [of "mod_intn intn", OF mod_intn_bound] by (metis prod.collapse)
qed

theorem round_robin_fair_witness:
  "\<exists>xs. fst (multi_gets (\<lambda>_ g. (g, g)) RoundRobinSelect 3
      \<lparr>md_rand = 0, md_servers = [''a'', ''b'', ''c''], md_index = 7\<rparr>) = map Inr xs \<and> xs = [''b'', ''c'', ''a'']"
proof -
  have "rotate 7 [''a'', ''b'', ''c''] = [''b'', ''c'', ''a'']" by (simp add: rotate_drop_take)
  moreover have "length [''a'', ''b'', ''c''] = 3" by simp
  ultimately show ?thesis
    using round_robin_fair [of "\<lparr>md_rand = 0, md_servers = [''a'', ''b'', ''c''], md_index = 7\<rparr>" "\<lambda>_ g. (g, g)",
      THEN conjunct1]
    unfolding multi.simps by (metis list.distinct(1))
qed

text \<open>
  From registry to discovery: when the cached list is out of date, \<^verbatim>\<open>Refresh\<close>
  fetches the list that the registry's handler sends, and the discovery then knows exactly the
  alive servers, in order, but preceded by as many empty addresses (one if there are none), so
  that \<^verbatim>\<open>Get\<close> never reports that no server is available and half of a round of calls return
  the empty address.
\<close>

theorem registry_to_discovery:
  assumes "aliveServers order clock s = (alive, s1)" and "list_all plain_address alive"
    and "time_Now w = (now, w1)" and "sd_lastUpdate d + sd_timeout d \<le> now"
    and "http_Get (sd_registry d) w1
      = (Inr (sent_header ''X-Surpc-Servers'' (fst (registry_ServeHTTP order clock ''GET'' '''' s))), w2)"
    and "time_Now w2 = (now2, w3)"
  shows "\<exists>d'. reg_disc_Refresh time_Now http_Get (d, w) = (None, (d', w3)) \<and> sd_lastUpdate d' = now2 \<and>
    md_servers (sd_multi d') = replicate (if alive = [] then 1 else length alive) '''' @ alive \<and>
    (\<exists>xs. fst (multi_gets intn RoundRobinSelect (length (md_servers (sd_multi d'))) (sd_multi d')) = map Inr xs \<and>
      count (mset xs) '''' = (if alive = [] then 1 else length alive))"
proof -
  have header: "sent_header ''X-Surpc-Servers'' (fst (registry_ServeHTTP order clock ''GET'' '''' s)) = go_join '','' alive"
    by (simp add: registry_ServeHTTP_def assms(1) rw_finish_def rw_Set_def rw_new_def rw_WriteHeader_def sent_header_def)
  let ?d = "d\<lparr>sd_multi := (sd_multi d)\<lparr>md_servers := refresh_servers (go_join '','' alive)\<rparr>, sd_lastUpdate := now2\<rparr>"
  have run: "reg_disc_Refresh time_Now http_Get (d, w) = (None, (?d, w3))"
    using assms(3-6) unfolding header by (simp add: reg_disc_Refresh_def)
  have servers: "md_servers (sd_multi ?d) = replicate (if alive = [] then 1 else length alive) '''' @ alive"
    using refresh_join [OF assms(2)] by simp
  then have ne: "md_servers (sd_multi ?d) \<noteq> []" by (cases alive) auto
  have "count (mset alive) '''' = 0"
    using assms(2) by (auto simp: plain_address_def list_all_iff count_eq_zero_iff)
  then have "count (mset (md_servers (sd_multi ?d))) '''' = (if alive = [] then 1 else length alive)"
    unfolding servers by (simp add: count_mset)
  moreover define m where "m = sd_multi ?d"
  moreover define xs where
    "xs = map (\<lambda>k. md_servers m ! ((md_index m + k) mod length (md_servers m))) [0..<length (md_servers m)]"
  ultimately have count: "count (mset xs) '''' = (if alive = [] then 1 else length alive)"
    using mset_rotation [of "md_servers m" "md_index m"] ne by simp
  have gets: "fst (multi_gets intn RoundRobinSelect (length (md_servers m)) m) = map Inr xs"
    using round_robin_gets [of m intn "length (md_servers m)"] ne unfolding m_def [symmetric] xs_def by simp
  have "\<exists>xs. fst (multi_gets intn RoundRobinSelect (length (md_servers m)) m) = map Inr xs \<and>
      count (mset xs) '''' = (if alive = [] then 1 else length alive)"
    using gets count by blast
  then show ?thesis
    unfolding m_def by (intro exI [of _ ?d] conjI run servers) simp_all
qed

theorem registry_to_discovery_witness:
  "\<exists>d'. reg_disc_Refresh (\<lambda>w. (w, w + 1))
      (\<lambda>_ w. (Inr (sent_header ''X-Surpc-Servers'' (fst (registry_ServeHTTP [''tcp@b'', ''tcp@a''] (\<lambda>_. 120) ''GET'' ''''
        two_servers))), w))
      (NewSuRegistryDiscovery (\<lambda>_ g. (g, g)) 0 ''http://registry'' 0, 0) = (None, (d', 2)) \<and>
    md_servers (sd_multi d') = ['''', ''tcp@b'']"
proof -
  let ?get = "\<lambda>(_ :: string) w. (Inr (sent_header ''X-Surpc-Servers'' (fst (registry_ServeHTTP [''tcp@b'', ''tcp@a'']
      (\<lambda>_. 120) ''GET'' '''' two_servers))) :: goerror + string, w :: int)"
  obtain s1 where alive: "aliveServers [''tcp@b'', ''tcp@a''] (\<lambda>_. 120) two_servers = ([''tcp@b''], s1)"
    by (simp add: aliveServers_def two_servers_def)
  have plain: "list_all plain_address [''tcp@b'']" by (simp add: plain_address_def is_space_def)
  have old: "sd_lastUpdate (NewSuRegistryDiscovery (\<lambda>_ g. (g, g)) 0 ''http://registry'' 0) +
      sd_timeout (NewSuRegistryDiscovery (\<lambda>_ g. (g, g)) (0 :: nat) ''http://registry'' 0) \<le> (0 :: int)"
    by (simp add: NewSuRegistryDiscovery_def zero_time_def defaultUpdateTimeout_def time_Second_def)
  have "\<exists>d'. reg_disc_Refresh (\<lambda>w. (w, w + 1)) ?get (NewSuRegistryDiscovery (\<lambda>_ g. (g, g)) (0 :: nat) ''http://registry'' 0, 0)
      = (None, (d', 2)) \<and> sd_lastUpdate d' = 1 \<and>
    md_servers (sd_multi d') = replicate (if [''tcp@b''] = [] then 1 else length [''tcp@b'']) '''' @ [''tcp@b''] \<and>
    (\<exists>xs. fst (multi_gets (\<lambda>_ g. (g, g)) RoundRobinSelect (length (md_servers (sd_multi d'))) (sd_multi d')) = map Inr xs \<and>
      count (mset xs) '''' = (if [''tcp@b''] = [] then 1 else length [''tcp@b'']))"
    by (rule registry_to_discovery [OF alive plain _ old]) simp_all
  then show ?thesis by fastforce
qed

end
