(* ===== verification/RPC_Codec.thy ===== *)
theory RPC_Codec
  imports Go_Prelude
begin

section \<open>Package codec: framing of requests and responses\<close>

text \<open>
  \<^verbatim>\<open>SuRPC/codec/codec.go\<close> and \<^verbatim>\<open>SuRPC/codec/gob.go\<close>. A connection carries a sequence of
  encoded values, alternately a header and a body; the encoding of one value by
  \<^verbatim>\<open>encoding/gob\<close> is atomic here, and whether a body can be encoded or decoded is a
  parameter. The buffered writer is flushed at the end of every \<^verbatim>\<open>Write\<close>.
\<close>

record header =
  h_ServiceMethod :: string
  h_Seq :: uint64
  h_Err :: string

datatype 'a message = MHeader header | MBody 'a

text \<open>\<^verbatim>\<open>GobCodec\<close>: what was written to the connection, what is buffered, and whether it is open.\<close>

record 'a gob_codec =
  gc_out :: "'a message list"
  gc_buf :: "'a message list"
  gc_open :: bool

definition GobType :: string where
  "GobType = ''application/gob''"

definition JsonType :: string where
  "JsonType = ''application/json''"

text \<open>The types that \<^verbatim>\<open>CodecFuncMap\<close> has a constructor for.\<close>

definition CodecFuncMap :: "string \<Rightarrow> bool" where
  "CodecFuncMap t \<longleftrightarrow> t = GobType"

definition NewGobCodec :: "'a gob_codec" where
  "NewGobCodec = \<lparr>gc_out = [], gc_buf = [], gc_open = True\<rparr>"

definition gob_Close :: "'a gob_codec \<Rightarrow> 'a gob_codec" where
  "gob_Close g = g\<lparr>gc_open := False\<rparr>"

text \<open>\<^verbatim>\<open>g.buf.Flush()\<close>: the buffered values reach an open connection, its error is ignored.\<close>

definition gob_Flush :: "'a gob_codec \<Rightarrow> 'a gob_codec" where
  "gob_Flush g =
     (if gc_open g then g\<lparr>gc_out := gc_out g @ gc_buf g, gc_buf := []\<rparr> else g)"

definition gob_Encode :: "'a message \<Rightarrow> 'a gob_codec \<Rightarrow> 'a gob_codec" where
  "gob_Encode m g = g\<lparr>gc_buf := gc_buf g @ [m]\<rparr>"

text \<open>
  \<^verbatim>\<open>Write\<close>. \<open>enc\<close> tells the error of encoding a body, if any; a header can always be encoded.
  The deferred function flushes and, after an error, closes the connection. \<open>gob_Write_body\<close> is
  what follows the encoding of the header.
\<close>

definition gob_Write_body :: "('a \<Rightarrow> goerror option) \<Rightarrow> 'a \<Rightarrow> 'a gob_codec \<Rightarrow> goerror option \<times> 'a gob_codec" where
  "gob_Write_body enc body g =
     (case enc body of
        Some err \<Rightarrow> (Some err, gob_Close (gob_Flush g))
      | None \<Rightarrow> (None, gob_Flush (gob_Encode (MBody body) g)))"

definition gob_Write :: "('a \<Rightarrow> goerror option) \<Rightarrow> header \<Rightarrow> 'a \<Rightarrow> 'a gob_codec \<Rightarrow> goerror option \<times> 'a gob_codec" where
  "gob_Write enc h body g = gob_Write_body enc body (gob_Encode (MHeader h) g)"

text \<open>
  \<^verbatim>\<open>ReadHeader\<close> and \<^verbatim>\<open>ReadBody\<close> on the values that are still to be read. Decoding consumes a
  value even if it has the wrong type; \<^verbatim>\<open>ReadBody(nil)\<close> skips a value. \<open>dec\<close> decodes a body for
  the type of the destination.
\<close>

fun gob_ReadHeader :: "'a message list \<Rightarrow> (goerror + header) \<times> 'a message list" where
  "gob_ReadHeader [] = (Inl ''EOF'', [])"
| "gob_ReadHeader (MHeader h # ms) = (Inr h, ms)"
| "gob_ReadHeader (MBody b # ms) = (Inl ''gob: type mismatch'', ms)"

fun gob_ReadBody :: "('a \<Rightarrow> goerror + 'b) \<Rightarrow> 'a message list \<Rightarrow> (goerror + 'b) \<times> 'a message list" where
  "gob_ReadBody dec [] = (Inl ''EOF'', [])"
| "gob_ReadBody dec (MHeader h # ms) = (Inl ''gob: type mismatch'', ms)"
| "gob_ReadBody dec (MBody b # ms) = (dec b, ms)"

subsection \<open>Framing\<close>

text \<open>The values of complete messages, a header and a body each.\<close>

fun frames :: "(header \<times> 'a) list \<Rightarrow> 'a message list" where
  "frames [] = []"
| "frames ((h, b) # fs) = MHeader h # MBody b # frames fs"

lemma frames_append: "frames (xs @ ys) = frames xs @ frames ys"
  by (induction xs rule: frames.induct) auto

text \<open>The contract of a codec: while it is open, it has written complete messages only.\<close>

definition framed :: "(header \<times> 'a) list \<Rightarrow> 'a gob_codec \<Rightarrow> bool" where
  "framed fs g \<longleftrightarrow> gc_open g \<and> gc_out g = frames fs \<and> gc_buf g = []"

locale frame_writer =
  fixes put_msg :: "header \<Rightarrow> 'a \<Rightarrow> 'c \<Rightarrow> goerror option \<times> 'c"
    and written :: "(header \<times> 'a) list \<Rightarrow> 'c \<Rightarrow> bool"
  assumes write_frame: "written fs c \<Longrightarrow> put_msg h b c = (None, c') \<Longrightarrow> written (fs @ [(h, b)]) c'"
begin

text \<open>Messages written one after the other.\<close>

fun writes :: "(header \<times> 'a) list \<Rightarrow> 'c \<Rightarrow> goerror option \<times> 'c" where
  "writes [] c = (None, c)"
| "writes ((h, b) # ms) c =
     (case put_msg h b c of (None, c1) \<Rightarrow> writes ms c1 | (Some e, c1) \<Rightarrow> (Some e, c1))"

lemma writes_frames: "written fs c \<Longrightarrow> writes ms c = (None, c') \<Longrightarrow> written (fs @ ms) c'"
proof (induction ms arbitrary: fs c)
  case Nil
  then show ?case by simp
next
  case (Cons m ms)
  obtain h b where m: "m = (h, b)" by (cases m)
  obtain r c1 where w: "put_msg h b c = (r, c1)" by fastforce
  with Cons.prems(2) m have r: "r = None" "writes ms c1 = (None, c')" by (cases r; simp)+
  from Cons.IH [OF write_frame [OF Cons.prems(1)] r(2), of h b] w r(1) m show ?case by simp
qed

end

lemma gob_Write_framed: "framed fs g \<Longrightarrow> gob_Write enc h b g = (None, g') \<Longrightarrow> framed (fs @ [(h, b)]) g'"
  by (auto simp: framed_def gob_Write_def gob_Write_body_def gob_Encode_def gob_Flush_def frames_append Let_def
    split: option.splits)

interpretation gob: frame_writer "gob_Write enc" framed for enc
  by unfold_locales (rule gob_Write_framed)

text \<open>Reading back a message that was written.\<close>

lemma read_frame:
  "gob_ReadHeader (frames ((h, b) # fs)) = (Inr h, MBody b # frames fs)"
  "gob_ReadBody dec (MBody b # frames fs) = (dec b, frames fs)"
  by simp_all

end
