(* ===== verification/RPC_Client.thy ===== *)
theory RPC_Client
  imports RPC_Codec
begin

section \<open>Package surpc: the client\<close>

text \<open>
  \<^verbatim>\<open>SuRPC/client.go\<close>. A client is shared by the goroutines that call \<^verbatim>\<open>Go\<close> or \<^verbatim>\<open>Call\<close> and by
  the goroutine \<^verbatim>\<open>receive\<close>. The step relation \<open>cl_step\<close> has one step for each critical section
  of the code: the mutex \<^verbatim>\<open>mu\<close> protects single steps, the mutex \<^verbatim>\<open>sending\<close> is part of the
  state. What the connection delivers, the success of writes and the cancellation of contexts
  are chosen by the environment. \<open>cl_regs\<close> records, beside the state of the code, the calls in
  the order of their registration.
\<close>

subsection \<open>State\<close>

text \<open>
  A call with the number of values sent on its channel \<^verbatim>\<open>Done\<close>, which is assumed to have room
  for one (as the channel of \<^verbatim>\<open>Call\<close> has), the sequence number of the response whose body was
  stored in \<^verbatim>\<open>Reply\<close>, and that body.
\<close>

record 'a rcall =
  rc_Seq :: uint64
  rc_ServiceMethod :: string
  rc_Args :: 'a
  rc_Reply :: "(uint64 \<times> 'a) option"
  rc_Error :: "goerror option"
  rc_done :: nat

text \<open>The goroutine that sends a call, by its position in \<^verbatim>\<open>send\<close> and \<^verbatim>\<open>Call\<close>.\<close>

datatype send_pc =
    Unused
  | SStart          \<comment> \<open>before \<^verbatim>\<open>c.sending.Lock()\<close>\<close>
  | SLocked         \<comment> \<open>before \<^verbatim>\<open>registerCall\<close>\<close>
  | SWrite uint64   \<comment> \<open>registered under a number, before \<^verbatim>\<open>Write\<close>\<close>
  | SWaiting        \<comment> \<open>\<^verbatim>\<open>send\<close> has returned\<close>
  | SReturned "goerror option"  \<comment> \<open>\<^verbatim>\<open>Call\<close> has returned\<close>

text \<open>The goroutine \<^verbatim>\<open>receive\<close>.\<close>

datatype recv_pc =
    RRead
  | RGot "nat option" header   \<comment> \<open>the call was removed, the body is to be read\<close>
  | RTerminate goerror
  | RStopped

record 'a client =
  cl_seq :: uint64
  cl_pending :: "uint64 \<rightharpoonup> nat"
  cl_closing :: bool
  cl_shutdown :: bool
  cl_sending :: "nat option"
  cl_calls :: "nat \<rightharpoonup> 'a rcall"
  cl_pc :: "nat \<Rightarrow> send_pc"
  cl_recv :: recv_pc
  cl_wire :: "(header \<times> 'a) list"
  cl_regs :: "nat list"

definition ErrShutdown :: goerror where
  "ErrShutdown = ''Connection is shutdown''"

text \<open>\<^verbatim>\<open>newCientCodec\<close>\<close>

definition newCientCodec :: "'a client" where
  "newCientCodec =
     \<lparr>cl_seq = 1, cl_pending = Map.empty, cl_closing = False, cl_shutdown = False, cl_sending = None,
      cl_calls = Map.empty, cl_pc = (\<lambda>_. Unused), cl_recv = RRead, cl_wire = [], cl_regs = []\<rparr>"

definition IsAvailable :: "'a client \<Rightarrow> bool" where
  "IsAvailable c \<longleftrightarrow> \<not> cl_shutdown c \<and> \<not> cl_closing c"

text \<open>\<^verbatim>\<open>Close\<close>: its error, without that of closing the connection.\<close>

definition client_Close :: "'a client \<Rightarrow> goerror option \<times> 'a client" where
  "client_Close c =
     (if cl_shutdown c then (Some ErrShutdown, c) else (None, c\<lparr>cl_closing := True\<rparr>))"

definition upd_call :: "nat \<Rightarrow> ('a rcall \<Rightarrow> 'a rcall) \<Rightarrow> 'a client \<Rightarrow> 'a client" where
  "upd_call i f c = c\<lparr>cl_calls := (cl_calls c)(i := map_option f (cl_calls c i))\<rparr>"

text \<open>\<^verbatim>\<open>call.Error = err; call.done()\<close>\<close>

definition call_done :: "goerror option \<Rightarrow> 'a rcall \<Rightarrow> 'a rcall" where
  "call_done err k = k\<lparr>rc_Error := err, rc_done := rc_done k + 1\<rparr>"

definition registerCall :: "nat \<Rightarrow> 'a client \<Rightarrow> (goerror + uint64) \<times> 'a client" where
  "registerCall i c =
     (if cl_shutdown c \<or> cl_closing c then (Inl ErrShutdown, c)
      else
        (let c1 = upd_call i (\<lambda>k. k\<lparr>rc_Seq := cl_seq c\<rparr>) c;
             c2 = c1\<lparr>cl_pending := (cl_pending c1)(cl_seq c \<mapsto> i), cl_regs := cl_regs c1 @ [i]\<rparr>;
             c3 = c2\<lparr>cl_seq := cl_seq c2 + 1\<rparr>
         in (Inr (cl_seq c), c3)))"

definition removeCall :: "uint64 \<Rightarrow> 'a client \<Rightarrow> nat option \<times> 'a client" where
  "removeCall seq c = (cl_pending c seq, c\<lparr>cl_pending := (cl_pending c)(seq := None)\<rparr>)"

text \<open>\<^verbatim>\<open>terminateCalls\<close>: every pending call is completed, none is removed.\<close>

definition terminateCalls :: "goerror \<Rightarrow> 'a client \<Rightarrow> 'a client" where
  "terminateCalls err c =
     c\<lparr>cl_shutdown := True,
       cl_calls := (\<lambda>i. if i \<in> ran (cl_pending c) then map_option (call_done (Some err)) (cl_calls c i)
                        else cl_calls c i)\<rparr>"

subsection \<open>Steps\<close>

text \<open>
  What becomes of a call after its response's header \<open>h\<close> and body: an error of the server, the
  body, or an error reading it. The error of the server is the format of \<^verbatim>\<open>fmt.Errorf\<close>: it is
  taken to contain no formatting verb.
\<close>

definition complete_call :: "header \<Rightarrow> goerror + 'a \<Rightarrow> 'a rcall \<Rightarrow> 'a rcall" where
  "complete_call h body k =
     (if h_Err h \<noteq> '''' then call_done (Some (h_Err h)) k
      else case body of
        Inr v \<Rightarrow> call_done (rc_Error k) (k\<lparr>rc_Reply := Some (h_Seq h, v)\<rparr>)
      | Inl e \<Rightarrow> call_done (Some (''reading body error: '' @ e)) k)"

definition request_header :: "nat \<Rightarrow> uint64 \<Rightarrow> 'a client \<Rightarrow> header" where
  "request_header i seq c =
     \<lparr>h_ServiceMethod = (case cl_calls c i of Some k \<Rightarrow> rc_ServiceMethod k | None \<Rightarrow> ''''),
      h_Seq = seq, h_Err = ''''\<rparr>"

text \<open>The goroutines that call \<^verbatim>\<open>Go\<close> or \<^verbatim>\<open>Call\<close>.\<close>

inductive call_step :: "'a client \<Rightarrow> 'a client \<Rightarrow> bool" where
  \<comment> \<open>\<^verbatim>\<open>Go\<close>: a new call\<close>
  call_go:
    "cl_pc c i = Unused \<Longrightarrow>
     k = \<lparr>rc_Seq = 0, rc_ServiceMethod = m, rc_Args = a, rc_Reply = None, rc_Error = None, rc_done = 0\<rparr> \<Longrightarrow>
     call_step c (c\<lparr>cl_calls := (cl_calls c)(i \<mapsto> k), cl_pc := (cl_pc c)(i := SStart)\<rparr>)"
  \<comment> \<open>\<^verbatim>\<open>send\<close>\<close>
| call_lock:
    "cl_pc c i = SStart \<Longrightarrow> cl_sending c = None \<Longrightarrow>
     call_step c (c\<lparr>cl_sending := Some i, cl_pc := (cl_pc c)(i := SLocked)\<rparr>)"
| call_refused:
    "cl_pc c i = SLocked \<Longrightarrow> registerCall i c = (Inl err, c1) \<Longrightarrow>
     call_step c ((upd_call i (call_done (Some err)) c1)\<lparr>cl_sending := None, cl_pc := (cl_pc c1)(i := SWaiting)\<rparr>)"
| call_register:
    "cl_pc c i = SLocked \<Longrightarrow> registerCall i c = (Inr seq, c1) \<Longrightarrow>
     call_step c (c1\<lparr>cl_pc := (cl_pc c1)(i := SWrite seq)\<rparr>)"
| call_write:
    "cl_pc c i = SWrite seq \<Longrightarrow> cl_calls c i = Some k \<Longrightarrow>
     wire \<in> {cl_wire c, cl_wire c @ [(request_header i seq c, rc_Args k)]} \<Longrightarrow>
     call_step c (c\<lparr>cl_wire := wire, cl_sending := None, cl_pc := (cl_pc c)(i := SWaiting)\<rparr>)"
  \<comment> \<open>\<^verbatim>\<open>Call\<close>: the result arrives, or the context ends first\<close>
| call_result:
    "cl_pc c i = SWaiting \<Longrightarrow> cl_calls c i = Some k \<Longrightarrow> rc_done k > 0 \<Longrightarrow>
     call_step c (c\<lparr>cl_pc := (cl_pc c)(i := SReturned (rc_Error k))\<rparr>)"
| call_cancel:
    "cl_pc c i = SWaiting \<Longrightarrow> cl_calls c i = Some k \<Longrightarrow> removeCall (rc_Seq k) c = (r, c1) \<Longrightarrow>
     call_step c (c1\<lparr>cl_pc := (cl_pc c1)(i := SReturned (Some (''rpc client: call failed: '' @ e)))\<rparr>)"

text \<open>The goroutine \<^verbatim>\<open>receive\<close>.\<close>

inductive receive_step :: "'a client \<Rightarrow> 'a client \<Rightarrow> bool" where
  recv_header:
    "cl_recv c = RRead \<Longrightarrow> removeCall (h_Seq h) c = (r, c1) \<Longrightarrow> receive_step c (c1\<lparr>cl_recv := RGot r h\<rparr>)"
| recv_header_error:
    "cl_recv c = RRead \<Longrightarrow> receive_step c (c\<lparr>cl_recv := RTerminate e\<rparr>)"
| recv_skip_body:
    "cl_recv c = RGot None h \<Longrightarrow> rc \<in> {RRead, RTerminate e} \<Longrightarrow> receive_step c (c\<lparr>cl_recv := rc\<rparr>)"
| recv_body:
    "cl_recv c = RGot (Some i) h \<Longrightarrow>
     receive_step c ((upd_call i (complete_call h body) c)
       \<lparr>cl_recv := (case body of Inr _ \<Rightarrow> RRead | Inl e \<Rightarrow> RTerminate e)\<rparr>)"
| recv_terminate:
    "cl_recv c = RTerminate e \<Longrightarrow> cl_sending c = None \<Longrightarrow>
     receive_step c ((terminateCalls e c)\<lparr>cl_recv := RStopped\<rparr>)"

text \<open>All of them, and calls of \<^verbatim>\<open>Close\<close>.\<close>

definition cl_step :: "'a client \<Rightarrow> 'a client \<Rightarrow> bool" where
  "cl_step c d \<longleftrightarrow> call_step c d \<or> receive_step c d \<or> (\<exists>r. client_Close c = (r, d))"

lemma call_cl_step: "call_step c d \<Longrightarrow> cl_step c d"
  by (simp add: cl_step_def)

lemma receive_cl_step: "receive_step c d \<Longrightarrow> cl_step c d"
  by (simp add: cl_step_def)

lemmas step_go = call_go [THEN call_cl_step]
lemmas step_lock = call_lock [THEN call_cl_step]
lemmas step_refused = call_refused [THEN call_cl_step]
lemmas step_register = call_register [THEN call_cl_step]
lemmas step_write = call_write [THEN call_cl_step]
lemmas step_result = call_result [THEN call_cl_step]
lemmas step_cancel = call_cancel [THEN call_cl_step]
lemmas step_header = recv_header [THEN receive_cl_step]
lemmas step_header_error = recv_header_error [THEN receive_cl_step]
lemmas step_skip_body = recv_skip_body [THEN receive_cl_step]
lemmas step_body = recv_body [THEN receive_cl_step]
lemmas step_terminate = recv_terminate [THEN receive_cl_step]

definition cl_init :: "'a client \<Rightarrow> bool" where
  "cl_init c \<longleftrightarrow> c = newCientCodec"

subsection \<open>The invariant\<close>

text \<open>
  Fewer calls than sequence numbers: the numbers are distinct until the 64-bit counter wraps
  around.
\<close>

definition few_calls :: "'a client \<Rightarrow> bool" where
  "few_calls c \<longleftrightarrow> length (cl_regs c) < 2 ^ 64 - 1"

definition numbering_ok :: "'a client \<Rightarrow> bool" where
  "numbering_ok c \<longleftrightarrow> cl_seq c = of_nat (Suc (length (cl_regs c))) \<and> distinct (cl_regs c) \<and>
     (\<forall>k < length (cl_regs c). map_option rc_Seq (cl_calls c (cl_regs c ! k)) = Some (of_nat (Suc k)))"

definition pending_ok :: "'a client \<Rightarrow> bool" where
  "pending_ok c \<longleftrightarrow> (\<forall>s i. cl_pending c s = Some i \<longrightarrow> i \<in> set (cl_regs c) \<and> map_option rc_Seq (cl_calls c i) = Some s)"

definition locks_ok :: "'a client \<Rightarrow> bool" where
  "locks_ok c \<longleftrightarrow> (cl_shutdown c \<longleftrightarrow> cl_recv c = RStopped) \<and>
     (\<forall>i. cl_sending c = Some i \<longleftrightarrow> (cl_pc c i = SLocked \<or> (\<exists>s. cl_pc c i = SWrite s)))"

text \<open>Where a call is: with its sender, pending, in the hands of \<^verbatim>\<open>receive\<close>, done or given up.\<close>

definition call_state_ok :: "'a client \<Rightarrow> nat \<Rightarrow> 'a rcall \<Rightarrow> bool" where
  "call_state_ok c i x \<longleftrightarrow>
     rc_done x \<le> 1 \<and>
     (\<forall>s v. rc_Reply x = Some (s, v) \<longrightarrow> s = rc_Seq x \<and> rc_done x = 1 \<and> i \<in> set (cl_regs c)) \<and>
     cl_pc c i \<noteq> Unused \<and> (i \<notin> set (cl_regs c) \<longrightarrow> rc_Seq x = 0) \<and>
     (cl_pc c i \<in> {SStart, SLocked} \<longrightarrow> i \<notin> set (cl_regs c) \<and> rc_done x = 0) \<and>
     (\<forall>s. cl_pc c i = SWrite s \<longrightarrow> i \<in> set (cl_regs c) \<and> rc_Seq x = s) \<and>
     (i \<notin> set (cl_regs c) \<and> cl_pc c i \<notin> {SStart, SLocked} \<longrightarrow> rc_done x = 1) \<and>
     (i \<in> set (cl_regs c) \<longrightarrow> cl_pending c (rc_Seq x) = Some i \<or> rc_done x = 1 \<or>
        (\<exists>h. cl_recv c = RGot (Some i) h) \<or> (\<exists>e. cl_pc c i = SReturned e)) \<and>
     (cl_pending c (rc_Seq x) = Some i \<longrightarrow> rc_done x = (if cl_recv c = RStopped then 1 else 0)) \<and>
     (\<forall>h. cl_recv c = RGot (Some i) h \<longrightarrow> i \<in> set (cl_regs c) \<and> rc_Seq x = h_Seq h \<and> rc_done x = 0 \<and>
        cl_pending c (rc_Seq x) \<noteq> Some i)"

definition calls_ok :: "'a client \<Rightarrow> bool" where
  "calls_ok c \<longleftrightarrow> (\<forall>i. case cl_calls c i of
       None \<Rightarrow> cl_pc c i = Unused \<and> (\<forall>h. cl_recv c \<noteq> RGot (Some i) h)
     | Some x \<Rightarrow> call_state_ok c i x)"

text \<open>Every request on the connection is that of a registered call.\<close>

definition wire_ok :: "'a client \<Rightarrow> bool" where
  "wire_ok c \<longleftrightarrow> (\<forall>(h, a) \<in> set (cl_wire c). \<exists>i \<in> set (cl_regs c). \<exists>x. cl_calls c i = Some x \<and>
     rc_Seq x = h_Seq h \<and> rc_Args x = a \<and> rc_ServiceMethod x = h_ServiceMethod h \<and> h_Err h = '''')"

definition cl_inv :: "'a client \<Rightarrow> bool" where
  "cl_inv c \<longleftrightarrow> (few_calls c \<longrightarrow> numbering_ok c \<and> pending_ok c \<and> locks_ok c \<and> calls_ok c \<and> wire_ok c)"

lemmas cl_parts = numbering_ok_def pending_ok_def locks_ok_def

lemma wireD:
  "wire_ok c \<Longrightarrow> (h, a) \<in> set (cl_wire c) \<Longrightarrow> \<exists>i x. i \<in> set (cl_regs c) \<and> cl_calls c i = Some x \<and>
     rc_Seq x = h_Seq h \<and> rc_Args x = a \<and> rc_ServiceMethod x = h_ServiceMethod h \<and> h_Err h = ''''"
  unfolding wire_ok_def by (drule (1) bspec) auto

lemma callsD: "calls_ok c \<Longrightarrow> cl_calls c i = Some x \<Longrightarrow> call_state_ok c i x"
  unfolding calls_ok_def by (drule spec [of _ i]) simp

lemma callsN: "calls_ok c \<Longrightarrow> cl_calls c i = None \<Longrightarrow> cl_pc c i = Unused"
  unfolding calls_ok_def by (drule spec [of _ i]) simp

lemma callsI:
  assumes "\<And>i x. cl_calls c i = Some x \<Longrightarrow> call_state_ok c i x"
    and "\<And>i. cl_calls c i = None \<Longrightarrow> cl_pc c i = Unused"
    and "\<And>i h. cl_recv c = RGot (Some i) h \<Longrightarrow> cl_calls c i \<noteq> None"
  shows "calls_ok c"
  using assms by (auto simp: calls_ok_def split: option.splits)

lemma callsR: "calls_ok c \<Longrightarrow> cl_recv c = RGot (Some i) h \<Longrightarrow> \<exists>x. cl_calls c i = Some x"
  unfolding calls_ok_def by (drule spec [of _ i]) (auto split: option.splits)

lemma of_nat_seq_inj:
  "j < 2 ^ 64 \<Longrightarrow> k < 2 ^ 64 \<Longrightarrow> (of_nat j :: uint64) = of_nat k \<longleftrightarrow> j = k"
  by (simp add: word_of_nat_eq_iff take_bit_nat_eq_self)

lemma fresh_number:
  assumes "numbering_ok c" and "pending_ok c" and "length (cl_regs c) + 1 < 2 ^ 64"
  shows "cl_pending c (cl_seq c) = None"
    and "i \<in> set (cl_regs c) \<Longrightarrow> cl_calls c i = Some x \<Longrightarrow> rc_Seq x \<noteq> cl_seq c"
proof -
  show ne: "rc_Seq x \<noteq> cl_seq c" if reg: "i \<in> set (cl_regs c)" and call: "cl_calls c i = Some x" for i x
  proof -
    obtain k where k: "k < length (cl_regs c)" "i = cl_regs c ! k"
      using reg unfolding in_set_conv_nth by blast
    have "map_option rc_Seq (cl_calls c (cl_regs c ! k)) = Some (of_nat (Suc k))"
      using assms(1) [unfolded numbering_ok_def] k(1) by simp
    then have seq: "rc_Seq x = of_nat (Suc k)" using call k(2) by (simp del: of_nat_Suc)
    have nxt: "cl_seq c = of_nat (Suc (length (cl_regs c)))" using assms(1) [unfolded numbering_ok_def] by simp
    have "Suc k < 2 ^ 64" "Suc (length (cl_regs c)) < 2 ^ 64" using k(1) assms(3) by linarith+
    then have "(of_nat (Suc k) :: uint64) \<noteq> of_nat (Suc (length (cl_regs c)))"
      using of_nat_seq_inj [of "Suc k" "Suc (length (cl_regs c))"] k(1) by (simp del: of_nat_Suc)
    then show ?thesis unfolding seq nxt .
  qed
  show "cl_pending c (cl_seq c) = None"
  proof (rule ccontr)
    assume "cl_pending c (cl_seq c) \<noteq> None"
    then obtain i where i: "cl_pending c (cl_seq c) = Some i" by blast
    then obtain x where "i \<in> set (cl_regs c)" "cl_calls c i = Some x" "rc_Seq x = cl_seq c"
      using assms(2) by (auto simp: pending_ok_def)
    with ne show False by blast
  qed
qed

lemma registered_seq:
  assumes "numbering_ok c" and "few_calls c" and "i \<in> set (cl_regs c)" and "cl_calls c i = Some x"
  shows "rc_Seq x \<noteq> 0"
    and "j \<in> set (cl_regs c) \<Longrightarrow> cl_calls c j = Some y \<Longrightarrow> rc_Seq y = rc_Seq x \<Longrightarrow> j = i"
proof -
  have number: "\<exists>k < length (cl_regs c). cl_regs c ! k = i \<and> rc_Seq x = of_nat (Suc k)"
    if reg: "i \<in> set (cl_regs c)" and call: "cl_calls c i = Some x" for i x
  proof -
    obtain k where k: "k < length (cl_regs c)" "cl_regs c ! k = i"
      using reg unfolding in_set_conv_nth by blast
    then have "map_option rc_Seq (cl_calls c i) = Some (of_nat (Suc k))"
      using assms(1) [unfolded numbering_ok_def] by blast
    with k call show ?thesis by (auto simp del: of_nat_Suc)
  qed
  obtain k where k: "k < length (cl_regs c)" "cl_regs c ! k = i" "rc_Seq x = of_nat (Suc k)"
    using number [OF assms(3,4)] by blast
  have bound: "Suc m < 2 ^ 64" if "m < length (cl_regs c)" for m
    using that assms(2) unfolding few_calls_def by linarith
  have "(of_nat (Suc k) :: uint64) \<noteq> of_nat 0"
    using of_nat_seq_inj [of "Suc k" 0] bound [OF k(1)] by (simp del: of_nat_Suc)
  then show "rc_Seq x \<noteq> 0" using k(3) by (simp del: of_nat_Suc)
  assume "j \<in> set (cl_regs c)" "cl_calls c j = Some y" and same: "rc_Seq y = rc_Seq x"
  then obtain l where l: "l < length (cl_regs c)" "cl_regs c ! l = j" "rc_Seq y = of_nat (Suc l)"
    using number by blast
  have "Suc l = Suc k"
    using of_nat_seq_inj [of "Suc l" "Suc k"] bound [OF k(1)] bound [OF l(1)] same k(3) l(3)
    by (simp del: of_nat_Suc)
  then show "j = i" using k(2) l(2) by simp
qed

lemma pendingD:
  "pending_ok c \<Longrightarrow> cl_pending c s = Some i \<Longrightarrow>
   i \<in> set (cl_regs c) \<and> (\<exists>x. cl_calls c i = Some x \<and> rc_Seq x = s)"
  by (auto simp: pending_ok_def)

lemma regsD: "numbering_ok c \<Longrightarrow> i \<in> set (cl_regs c) \<Longrightarrow> \<exists>x. cl_calls c i = Some x"
  by (auto simp: numbering_ok_def in_set_conv_nth)

text \<open>A call that is pending under one number is pending under its own number only.\<close>

lemma ran_pending:
  "pending_ok c \<Longrightarrow> cl_calls c i = Some x \<Longrightarrow> i \<in> ran (cl_pending c) \<longleftrightarrow> cl_pending c (rc_Seq x) = Some i"
  using pendingD [of c _ i] by (fastforce simp: ran_def)

subsection \<open>Each step keeps the invariant\<close>

text \<open>Steps that do not touch registration keep the numbering when sequence numbers are kept.\<close>

lemma numbering_cong:
  assumes "numbering_ok c" and "cl_seq d = cl_seq c" and "cl_regs d = cl_regs c"
    and "\<And>i. i \<in> set (cl_regs c) \<Longrightarrow> map_option rc_Seq (cl_calls d i) = map_option rc_Seq (cl_calls c i)"
  shows "numbering_ok d"
  using assms by (auto simp: numbering_ok_def)

lemma keep_go:
  assumes "cl_inv c" and "cl_pc c i = Unused" and "rc_done k = 0" and "rc_Reply k = None" and "rc_Seq k = 0"
  shows "cl_inv (c\<lparr>cl_calls := (cl_calls c)(i \<mapsto> k), cl_pc := (cl_pc c)(i := SStart)\<rparr>)"
    (is "cl_inv ?d")
  unfolding cl_inv_def
proof
  assume "few_calls ?d"
  then have inv: "numbering_ok c" "pending_ok c" "locks_ok c" "calls_ok c" "wire_ok c"
    using assms(1) by (simp_all add: cl_inv_def few_calls_def)
  have none: "cl_calls c i = None"
    using assms(2) callsD [OF inv(4), of i] by (cases "cl_calls c i") (auto simp: call_state_ok_def)
  have fresh: "i \<notin> set (cl_regs c)" using regsD [OF inv(1), of i] none by auto
  have pend: "cl_pending c s \<noteq> Some i" for s using pendingD [OF inv(2), of s i] none by auto
  have recv: "cl_recv c \<noteq> RGot (Some i) h" for h using callsR [OF inv(4), of i h] none by auto
  have "numbering_ok ?d" using fresh by (intro numbering_cong [OF inv(1)]) auto
  moreover have "pending_ok ?d" using inv(2) pend by (auto simp: pending_ok_def)
  moreover have "locks_ok ?d" using inv(3) assms(2) by (auto simp: locks_ok_def)
  moreover have "calls_ok ?d"
  proof (rule callsI)
    show "call_state_ok ?d j x" if "cl_calls ?d j = Some x" for j x
      using that assms(3-5) fresh pend recv callsD [OF inv(4), of j x]
      by (cases "j = i") (auto simp: call_state_ok_def)
    show "cl_pc ?d j = Unused" if "cl_calls ?d j = None" for j
      using that callsN [OF inv(4), of j] by (auto split: if_splits)
    show "cl_calls ?d j \<noteq> None" if "cl_recv ?d = RGot (Some j) h" for j h
      using that callsR [OF inv(4), of j h] by auto
  qed
  moreover have "wire_ok ?d" using inv(5) fresh unfolding wire_ok_def by fastforce
  ultimately show "numbering_ok ?d \<and> pending_ok ?d \<and> locks_ok ?d \<and> calls_ok ?d \<and> wire_ok ?d" by blast
qed

lemma inv_unfold:
  "cl_inv c \<Longrightarrow> few_calls c \<Longrightarrow> numbering_ok c \<and> pending_ok c \<and> locks_ok c \<and> calls_ok c \<and> wire_ok c"
  by (simp add: cl_inv_def)

lemma inv_fold:
  "(few_calls d \<Longrightarrow> numbering_ok d \<and> pending_ok d \<and> locks_ok d \<and> calls_ok d \<and> wire_ok d) \<Longrightarrow> cl_inv d"
  by (simp add: cl_inv_def)

lemma locks_release:
  assumes "locks_ok c" and "cl_pc c i = SLocked \<or> (\<exists>s. cl_pc c i = SWrite s)"
    and "cl_sending d = None" and "cl_pc d = (cl_pc c)(i := SWaiting)"
    and "cl_recv d = cl_recv c" and "cl_shutdown d = cl_shutdown c"
  shows "locks_ok d"
proof -
  have "cl_sending c = Some i" using assms(1,2) by (simp add: locks_ok_def)
  then have "\<not> (cl_pc c j = SLocked \<or> (\<exists>s. cl_pc c j = SWrite s))" if "j \<noteq> i" for j
    using that assms(1) unfolding locks_ok_def by (metis option.inject)
  then show ?thesis using assms by (simp add: locks_ok_def)
qed

text \<open>
  A step that only moves the sender of one call, within the positions that its call allows.
\<close>

lemma keep_sender:
  assumes inv: "cl_inv c" and some: "cl_calls c i = Some x"
    and d: "cl_calls d = cl_calls c" "cl_regs d = cl_regs c" "cl_seq d = cl_seq c" "cl_pending d = cl_pending c"
      "cl_recv d = cl_recv c" "cl_shutdown d = cl_shutdown c" "cl_pc d = (cl_pc c)(i := pc)"
      "set (cl_wire d) \<subseteq> set (cl_wire c) \<union> {(request_header i (rc_Seq x) c, rc_Args x)}"
    and wire: "cl_wire d \<noteq> cl_wire c \<Longrightarrow> i \<in> set (cl_regs c)"
    and lock: "few_calls c \<Longrightarrow> locks_ok c \<Longrightarrow> locks_ok d"
    and state: "few_calls c \<Longrightarrow> call_state_ok c i x \<Longrightarrow> call_state_ok d i x"
  shows "cl_inv d"
proof (rule inv_fold)
  assume "few_calls d"
  then have few: "few_calls c" using d(2) by (simp add: few_calls_def)
  note ok = inv_unfold [OF inv few]
  have "numbering_ok d" using ok d by (simp add: numbering_ok_def)
  moreover have "pending_ok d" using ok d by (simp add: pending_ok_def)
  moreover have "calls_ok d"
  proof (rule callsI)
    show "call_state_ok d j y" if "cl_calls d j = Some y" for j y
    proof (cases "j = i")
      case True
      with that some d(1) have "y = x" by simp
      with True ok few state some callsD [of c i x] show ?thesis by simp
    next
      case False
      have "call_state_ok c j y" using that ok d(1) by (intro callsD) simp_all
      moreover have pc: "cl_pc d j = cl_pc c j" using False d(7) by simp
      have "call_state_ok d j y = call_state_ok c j y"
        unfolding call_state_ok_def d(2,4,5) pc by (rule refl)
      ultimately show ?thesis by simp
    qed
    show "cl_pc d j = Unused" if "cl_calls d j = None" for j
      using that ok d some by (auto intro: callsN)
    show "cl_calls d j \<noteq> None" if "cl_recv d = RGot (Some j) h" for j h
      using that ok d callsR [of c j h] by auto
  qed
  moreover have "wire_ok d"
    unfolding wire_ok_def
  proof (clarify)
    fix h a
    assume mem: "(h, a) \<in> set (cl_wire d)"
    show "\<exists>i \<in> set (cl_regs d). \<exists>x. cl_calls d i = Some x \<and> rc_Seq x = h_Seq h \<and> rc_Args x = a \<and>
        rc_ServiceMethod x = h_ServiceMethod h \<and> h_Err h = ''''"
    proof (cases "(h, a) \<in> set (cl_wire c)")
      case True
      then show ?thesis using ok d unfolding wire_ok_def by fastforce
    next
      case False
      then have "cl_wire d \<noteq> cl_wire c" "h = request_header i (rc_Seq x) c" "a = rc_Args x"
        using mem d(8) by auto
      then show ?thesis using wire d some by (intro bexI [of _ i]) (auto simp: request_header_def)
    qed
  qed
  ultimately show "numbering_ok d \<and> pending_ok d \<and> locks_ok d \<and> calls_ok d \<and> wire_ok d"
    using lock few ok by blast
qed

lemma keep_lock:
  assumes "cl_inv c" and "cl_pc c i = SStart" and "cl_sending c = None" and "few_calls c \<Longrightarrow> cl_calls c i \<noteq> None"
  shows "cl_inv (c\<lparr>cl_sending := Some i, cl_pc := (cl_pc c)(i := SLocked)\<rparr>)"
proof (cases "few_calls c")
  case True
  then obtain x where "cl_calls c i = Some x" using assms(4) by blast
  then show ?thesis
    using assms(2,3)
    by (intro keep_sender [OF assms(1), of i x _ SLocked]) (auto simp: locks_ok_def call_state_ok_def)
next
  case False
  then show ?thesis by (simp add: cl_inv_def few_calls_def)
qed

lemma inv_call:
  assumes "cl_inv c" and "few_calls c" and "cl_pc c i \<noteq> Unused"
  shows "\<exists>x. cl_calls c i = Some x \<and> call_state_ok c i x"
proof (cases "cl_calls c i")
  case None
  then show ?thesis using inv_unfold [OF assms(1,2)] callsN [of c i] assms(3) by simp
next
  case (Some x)
  then show ?thesis using inv_unfold [OF assms(1,2)] callsD [of c i x] by simp
qed

lemma keep_write:
  assumes "cl_inv c" and "cl_pc c i = SWrite seq" and some: "cl_calls c i = Some k"
    and wire: "w \<in> {cl_wire c, cl_wire c @ [(request_header i seq c, rc_Args k)]}"
  shows "cl_inv (c\<lparr>cl_wire := w, cl_sending := None, cl_pc := (cl_pc c)(i := SWaiting)\<rparr>)"
proof (cases "few_calls c")
  case True
  then have st: "call_state_ok c i k" using inv_unfold [OF assms(1)] callsD some by blast
  then have reg: "i \<in> set (cl_regs c)" "rc_Seq k = seq" using assms(2) by (auto simp: call_state_ok_def)
  let ?d = "c\<lparr>cl_wire := w, cl_sending := None, cl_pc := (cl_pc c)(i := SWaiting)\<rparr>"
  show ?thesis
  proof (rule keep_sender [OF assms(1) some, of _ SWaiting])
    show "locks_ok c \<Longrightarrow> locks_ok ?d" by (erule locks_release [where i = i]) (use assms(2) in simp_all)
    show "call_state_ok c i k \<Longrightarrow> call_state_ok ?d i k"
      using assms(2) reg by (auto simp: call_state_ok_def split: if_splits)
  qed (use wire reg in auto)
next
  case False
  then show ?thesis by (simp add: cl_inv_def few_calls_def)
qed

lemma keep_result:
  assumes "cl_inv c" and "cl_pc c i = SWaiting" and some: "cl_calls c i = Some k"
  shows "cl_inv (c\<lparr>cl_pc := (cl_pc c)(i := SReturned e)\<rparr>)"
  using assms(2)
  by (intro keep_sender [OF assms(1) some, of _ "SReturned e"]) (auto simp: locks_ok_def call_state_ok_def split: if_splits)

text \<open>Removing a call from the pending ones, once it is in other hands or given up.\<close>

lemma keep_removed:
  assumes inv: "cl_inv c"
    and d: "cl_calls d = cl_calls c" "cl_regs d = cl_regs c" "cl_seq d = cl_seq c" "cl_wire d = cl_wire c"
      "cl_pending d = (cl_pending c)(s := None)" "cl_shutdown d = cl_shutdown c"
    and lock: "locks_ok c \<Longrightarrow> locks_ok d"
    and pcs: "\<And>j. cl_pc c j = Unused \<Longrightarrow> cl_pc d j = Unused"
    and recv: "\<And>j h. few_calls c \<Longrightarrow> cl_recv d = RGot (Some j) h \<Longrightarrow> cl_calls c j \<noteq> None"
    and state: "\<And>j x. few_calls c \<Longrightarrow> pending_ok c \<Longrightarrow> cl_calls c j = Some x \<Longrightarrow> call_state_ok c j x \<Longrightarrow> call_state_ok d j x"
  shows "cl_inv d"
proof (rule inv_fold)
  assume "few_calls d"
  then have few: "few_calls c" using d(2) by (simp add: few_calls_def)
  note ok = inv_unfold [OF inv few]
  have "numbering_ok d" using ok d by (simp add: numbering_ok_def)
  moreover have "pending_ok d" using ok d by (auto simp: pending_ok_def)
  moreover have "calls_ok d"
  proof (rule callsI)
    show "call_state_ok d j x" if "cl_calls d j = Some x" for j x
      using that ok d(1) few by (intro state callsD) simp_all
    show "cl_pc d j = Unused" if "cl_calls d j = None" for j
      using that ok d(1) by (intro pcs callsN) simp_all
    show "cl_calls d j \<noteq> None" if "cl_recv d = RGot (Some j) h" for j h
      using recv [OF few that] d(1) by simp
  qed
  moreover have "wire_ok d" using ok d by (simp add: wire_ok_def)
  ultimately show "numbering_ok d \<and> pending_ok d \<and> locks_ok d \<and> calls_ok d \<and> wire_ok d"
    using lock ok by blast
qed

lemma keep_cancel:
  assumes "cl_inv c" and "cl_pc c i = SWaiting" and some: "cl_calls c i = Some k"
    and "removeCall (rc_Seq k) c = (r, c1)"
  shows "cl_inv (c1\<lparr>cl_pc := (cl_pc c1)(i := SReturned e)\<rparr>)"
proof -
  have c1: "c1 = c\<lparr>cl_pending := (cl_pending c)(rc_Seq k := None)\<rparr>"
    using assms(4) by (simp add: removeCall_def)
  let ?d = "(c\<lparr>cl_pending := (cl_pending c)(rc_Seq k := None)\<rparr>)
      \<lparr>cl_pc := (cl_pc (c\<lparr>cl_pending := (cl_pending c)(rc_Seq k := None)\<rparr>))(i := SReturned e)\<rparr>"
  show ?thesis
    unfolding c1
  proof (rule keep_removed [OF assms(1)])
    show "locks_ok c \<Longrightarrow> locks_ok ?d" using assms(2) by (auto simp: locks_ok_def)
    show "cl_calls c j \<noteq> None" if "few_calls c" "cl_recv ?d = RGot (Some j) h" for j h
      using inv_unfold [OF assms(1) that(1)] callsR [of c j h] that(2) by auto
    fix j x
    assume few: "few_calls c" and pend: "pending_ok c" and x: "cl_calls c j = Some x" "call_state_ok c j x"
    show "call_state_ok ?d j x"
    proof (cases "j = i")
      case True
      with x some assms(2) show ?thesis by (auto simp: call_state_ok_def split: if_splits)
    next
      case False
      have "cl_pending c (rc_Seq k) \<noteq> Some j"
      proof
        assume "cl_pending c (rc_Seq k) = Some j"
        then have j: "j \<in> set (cl_regs c)" "rc_Seq x = rc_Seq k"
          using pendingD [OF pend] x(1) by fastforce+
        have ok: "numbering_ok c" "call_state_ok c i k"
          using inv_unfold [OF assms(1) few] callsD some by blast+
        then have "i \<in> set (cl_regs c)"
          using registered_seq(1) [OF ok(1) few j(1) x(1)] j(2) by (auto simp: call_state_ok_def)
        with registered_seq(2) [OF ok(1) few j(1) x(1)] some j(2) False show False by auto
      qed
      then have "((cl_pending c)(rc_Seq k := None)) (rc_Seq x) = Some j \<longleftrightarrow> cl_pending c (rc_Seq x) = Some j"
        by auto
      moreover have "cl_pc ?d j = cl_pc c j" using False by simp
      ultimately have "call_state_ok ?d j x = call_state_ok c j x" by (simp add: call_state_ok_def)
      with x(2) show ?thesis by simp
    qed
  qed (use assms(2) in \<open>auto split: if_splits\<close>)
qed

lemma keep_header:
  assumes "cl_inv c" and "cl_recv c = RRead" and "removeCall (h_Seq h) c = (r, c1)"
  shows "cl_inv (c1\<lparr>cl_recv := RGot r h\<rparr>)"
proof -
  have c1: "c1 = c\<lparr>cl_pending := (cl_pending c)(h_Seq h := None)\<rparr>" "r = cl_pending c (h_Seq h)"
    using assms(3) by (simp_all add: removeCall_def)
  let ?d = "(c\<lparr>cl_pending := (cl_pending c)(h_Seq h := None)\<rparr>)\<lparr>cl_recv := RGot (cl_pending c (h_Seq h)) h\<rparr>"
  show ?thesis
    unfolding c1
  proof (rule keep_removed [OF assms(1)])
    show "locks_ok c \<Longrightarrow> locks_ok ?d" using assms(2) by (auto simp: locks_ok_def)
    show "cl_calls c j \<noteq> None" if "few_calls c" "cl_recv ?d = RGot (Some j) h'" for j h'
      using inv_unfold [OF assms(1) that(1)] pendingD [of c "h_Seq h" j] that(2) by auto
    fix j x
    assume few: "few_calls c" and pend: "pending_ok c" and x: "cl_calls c j = Some x" "call_state_ok c j x"
    show "call_state_ok ?d j x"
    proof (cases "cl_pending c (h_Seq h) = Some j")
      case True
      then have "j \<in> set (cl_regs c)" "rc_Seq x = h_Seq h" using pendingD [OF pend] x(1) by fastforce+
      with True x(2) assms(2) show ?thesis by (auto simp: call_state_ok_def split: if_splits)
    next
      case False
      then have "((cl_pending c)(h_Seq h := None)) (rc_Seq x) = Some j \<longleftrightarrow> cl_pending c (rc_Seq x) = Some j"
        by auto
      with False x(2) assms(2) show ?thesis by (auto simp: call_state_ok_def split: if_splits)
    qed
  qed auto
qed

text \<open>Steps that complete calls, keeping what was sent and under which number.\<close>

lemma keep_update:
  assumes inv: "cl_inv c"
    and d: "cl_regs d = cl_regs c" "cl_seq d = cl_seq c" "cl_wire d = cl_wire c" "cl_pending d = cl_pending c"
    and sent: "\<And>j. map_option (\<lambda>x. (rc_Seq x, rc_Args x, rc_ServiceMethod x)) (cl_calls d j)
      = map_option (\<lambda>x. (rc_Seq x, rc_Args x, rc_ServiceMethod x)) (cl_calls c j)"
    and lock: "locks_ok c \<Longrightarrow> locks_ok d"
    and pcs: "\<And>j. cl_pc c j = Unused \<Longrightarrow> cl_pc d j = Unused"
    and recv: "\<And>j h. cl_recv d \<noteq> RGot (Some j) h"
    and state: "\<And>j x y. few_calls c \<Longrightarrow> pending_ok c \<Longrightarrow> cl_calls c j = Some x \<Longrightarrow> call_state_ok c j x \<Longrightarrow>
      cl_calls d j = Some y \<Longrightarrow> call_state_ok d j y"
  shows "cl_inv d"
proof (rule inv_fold)
  assume "few_calls d"
  then have few: "few_calls c" using d(1) by (simp add: few_calls_def)
  note ok = inv_unfold [OF inv few]
  have seqs: "map_option rc_Seq (cl_calls d j) = map_option rc_Seq (cl_calls c j)" for j
    using arg_cong [OF sent [of j], of "map_option fst"] by (simp add: option.map_comp comp_def)
  have "numbering_ok d" using ok d seqs by (simp add: numbering_ok_def)
  moreover have "pending_ok d" using ok d seqs by (simp add: pending_ok_def)
  moreover have "calls_ok d"
  proof (rule callsI)
    show "call_state_ok d j y" if y: "cl_calls d j = Some y" for j y
    proof -
      obtain x where "cl_calls c j = Some x" using seqs [of j] y by (cases "cl_calls c j") auto
      then show ?thesis using state [OF few _ _ _ y] ok callsD [of c j x] by blast
    qed
    show "cl_pc d j = Unused" if "cl_calls d j = None" for j
      using that ok seqs [of j] by (intro pcs callsN) auto
    show "cl_calls d j \<noteq> None" if "cl_recv d = RGot (Some j) h" for j h using recv that by blast
  qed
  moreover have "wire_ok d"
    unfolding wire_ok_def d
  proof (clarify)
    fix h a
    assume mem: "(h, a) \<in> set (cl_wire c)"
    from ok have "wire_ok c" by simp
    from bspec [OF this [unfolded wire_ok_def] mem] obtain i x where x: "i \<in> set (cl_regs c)"
      "cl_calls c i = Some x" "rc_Seq x = h_Seq h" "rc_Args x = a" "rc_ServiceMethod x = h_ServiceMethod h \<and> h_Err h = ''''"
      by auto
    from sent [of i] x(2) obtain y where "cl_calls d i = Some y" "rc_Seq y = rc_Seq x" "rc_Args y = rc_Args x"
      "rc_ServiceMethod y = rc_ServiceMethod x" by (cases "cl_calls d i") auto
    with x show "\<exists>i \<in> set (cl_regs c). \<exists>x. cl_calls d i = Some x \<and> rc_Seq x = h_Seq h \<and> rc_Args x = a \<and>
        rc_ServiceMethod x = h_ServiceMethod h \<and> h_Err h = ''''" by auto
  qed
  ultimately show "numbering_ok d \<and> pending_ok d \<and> locks_ok d \<and> calls_ok d \<and> wire_ok d"
    using lock ok by blast
qed

lemma complete_call_simps [simp]:
  "rc_Seq (complete_call h body k) = rc_Seq k" "rc_Args (complete_call h body k) = rc_Args k"
  "rc_ServiceMethod (complete_call h body k) = rc_ServiceMethod k"
  "rc_done (complete_call h body k) = rc_done k + 1"
  by (simp_all add: complete_call_def call_done_def split: sum.split)

lemma complete_call_Reply:
  "rc_Reply (complete_call h body k) = Some (s, v) \<Longrightarrow> rc_Reply k = Some (s, v) \<or> s = h_Seq h"
  by (auto simp: complete_call_def call_done_def split: if_splits sum.splits)

lemma call_done_simps [simp]:
  "rc_Seq (call_done e k) = rc_Seq k" "rc_Args (call_done e k) = rc_Args k"
  "rc_ServiceMethod (call_done e k) = rc_ServiceMethod k" "rc_done (call_done e k) = rc_done k + 1"
  "rc_Reply (call_done e k) = rc_Reply k"
  by (simp_all add: call_done_def)

lemma keep_body:
  assumes "cl_inv c" and "cl_recv c = RGot (Some i) h" and "\<And>j h. rc \<noteq> RGot (Some j) h" and "rc \<noteq> RStopped"
  shows "cl_inv ((upd_call i (complete_call h body) c)\<lparr>cl_recv := rc\<rparr>)" (is "cl_inv ?d")
proof (rule keep_update [OF assms(1)])
  show "locks_ok c \<Longrightarrow> locks_ok ?d" using assms(2,4) by (auto simp: locks_ok_def upd_call_def)
  show "cl_recv ?d \<noteq> RGot (Some j) h" for j h using assms(3) by simp
  fix j x y
  assume few: "few_calls c" and x: "cl_calls c j = Some x" "call_state_ok c j x" and y: "cl_calls ?d j = Some y"
  show "call_state_ok ?d j y"
  proof (cases "j = i")
    case True
    with x y have yx: "y = complete_call h body x" by (simp add: upd_call_def)
    have st: "i \<in> set (cl_regs c)" "rc_Seq x = h_Seq h" "rc_done x = 0" "cl_pending c (rc_Seq x) \<noteq> Some i"
      "rc_Reply x = None"
      using x(2) True assms(2) by (cases "rc_Reply x"; auto simp: call_state_ok_def)+
    then show ?thesis
      using x(2) True assms(4) unfolding call_state_ok_def yx
      by (auto simp: upd_call_def assms(3) dest: complete_call_Reply)
  next
    case False
    with x y have "y = x" by (simp add: upd_call_def)
    then show ?thesis using x(2) False assms(2-4) by (auto simp: call_state_ok_def upd_call_def split: if_splits)
  qed
qed (simp_all add: upd_call_def option.map_comp comp_def)

lemma keep_recv:
  assumes "cl_inv c" and "\<And>j h. cl_recv c \<noteq> RGot (Some j) h" and "\<And>j h. rc \<noteq> RGot (Some j) h"
    and "cl_recv c \<noteq> RStopped" and "rc \<noteq> RStopped"
  shows "cl_inv (c\<lparr>cl_recv := rc\<rparr>)"
proof (rule keep_update [OF assms(1)])
  show "locks_ok c \<Longrightarrow> locks_ok (c\<lparr>cl_recv := rc\<rparr>)" using assms(4,5) by (simp add: locks_ok_def)
  show "call_state_ok (c\<lparr>cl_recv := rc\<rparr>) j y"
    if "call_state_ok c j x" "cl_calls c j = Some x" "cl_calls (c\<lparr>cl_recv := rc\<rparr>) j = Some y" for j x y
    using that assms(2-5) by (simp add: call_state_ok_def)
qed (use assms(3) in simp_all)

lemma keep_terminate:
  assumes "cl_inv c" and "cl_recv c = RTerminate e" and "cl_sending c = None"
  shows "cl_inv ((terminateCalls e c)\<lparr>cl_recv := RStopped\<rparr>)" (is "cl_inv ?d")
proof (rule keep_update [OF assms(1)])
  show "locks_ok c \<Longrightarrow> locks_ok ?d" using assms(2,3) by (auto simp: locks_ok_def terminateCalls_def)
  fix j x y
  assume pend: "pending_ok c" and x: "cl_calls c j = Some x" "call_state_ok c j x" and y: "cl_calls ?d j = Some y"
  show "call_state_ok ?d j y"
  proof (cases "cl_pending c (rc_Seq x) = Some j")
    case True
    then have "y = call_done (Some e) x" "j \<in> set (cl_regs c)" "rc_done x = 0" "rc_Reply x = None"
      using x y assms(2) ran_pending [OF pend x(1)] pendingD [OF pend True]
      by (cases "rc_Reply x"; auto simp: terminateCalls_def call_state_ok_def)+
    with True x(2) assms(2) show ?thesis by (auto simp: call_state_ok_def terminateCalls_def)
  next
    case False
    then have "y = x" using x y ran_pending [OF pend x(1)] by (simp add: terminateCalls_def)
    with False x(2) assms(2) show ?thesis by (auto simp: call_state_ok_def terminateCalls_def)
  qed
qed (simp_all add: terminateCalls_def option.map_comp comp_def)

text \<open>What the state of a call depends on.\<close>

lemma call_state_cong:
  assumes "cl_pc d j = cl_pc c j" and "cl_recv d = cl_recv c"
    and "(j \<in> set (cl_regs d)) = (j \<in> set (cl_regs c))"
    and "(cl_pending d (rc_Seq y) = Some j) = (cl_pending c (rc_Seq y) = Some j)"
  shows "call_state_ok d j y = call_state_ok c j y"
  unfolding call_state_ok_def assms by (rule refl)

lemma keep_refused:
  assumes "cl_inv c" and "cl_pc c i = SLocked" and "registerCall i c = (Inl err, c1)"
  shows "cl_inv ((upd_call i (call_done (Some err)) c1)\<lparr>cl_sending := None, cl_pc := (cl_pc c1)(i := SWaiting)\<rparr>)"
proof -
  have c1: "c1 = c" using assms(3) by (simp add: registerCall_def Let_def split: if_splits)
  let ?d = "(upd_call i (call_done (Some err)) c)\<lparr>cl_sending := None, cl_pc := (cl_pc c)(i := SWaiting)\<rparr>"
  show ?thesis
    unfolding c1
  proof (cases "\<exists>h. cl_recv c = RGot (Some i) h")
    case True
    then obtain h where "cl_recv c = RGot (Some i) h" ..
    then have "\<not> few_calls c"
      using inv_call [OF assms(1), of i] assms(2) by (auto simp: call_state_ok_def)
    then show "cl_inv ?d" by (simp add: cl_inv_def few_calls_def upd_call_def)
  next
    case False
    show "cl_inv ?d"
    proof (rule inv_fold)
      assume "few_calls ?d"
      then have few: "few_calls c" by (simp add: few_calls_def upd_call_def)
      note ok = inv_unfold [OF assms(1) few]
      obtain x where x: "cl_calls c i = Some x" "call_state_ok c i x"
        using inv_call [OF assms(1) few, of i] assms(2) by auto
      have reg: "i \<notin> set (cl_regs c)" "rc_done x = 0" using x(2) assms(2) by (simp_all add: call_state_ok_def)
      have num: "numbering_ok c" and pending: "pending_ok c" using ok by simp_all
      have pend: "cl_pending c s \<noteq> Some i" for s using pendingD [OF pending, of s i] reg(1) by auto
      have seqs: "map_option rc_Seq (cl_calls ?d j) = map_option rc_Seq (cl_calls c j)" for j
        by (simp add: upd_call_def option.map_comp comp_def)
      have "numbering_ok ?d" by (rule numbering_cong [OF num _ _ seqs]) (simp_all add: upd_call_def)
      moreover have "pending_ok ?d"
        using pending unfolding pending_ok_def seqs by (simp add: upd_call_def)
      moreover have "locks_ok ?d"
        by (rule locks_release [of c i]) (simp_all add: upd_call_def ok assms(2))
      moreover have "calls_ok ?d"
      proof (rule callsI)
        show "call_state_ok ?d j y" if y: "cl_calls ?d j = Some y" for j y
        proof (cases "j = i")
          case True
          with y x have "y = call_done (Some err) x" by (simp add: upd_call_def)
          with True x(2) reg pend False show ?thesis
            by (auto simp: call_state_ok_def upd_call_def)
        next
          case False
          then have "call_state_ok c j y" using y by (intro callsD) (simp_all add: upd_call_def ok)
          moreover have "call_state_ok ?d j y = call_state_ok c j y"
            using False by (intro call_state_cong) (simp_all add: upd_call_def)
          ultimately show ?thesis by simp
        qed
        show "cl_pc ?d j = Unused" if "cl_calls ?d j = None" for j
          using that x(1) callsN [of c j] by (auto simp: upd_call_def ok split: if_splits)
        show "cl_calls ?d j \<noteq> None" if "cl_recv ?d = RGot (Some j) h" for j h
          using that callsR [of c j h] by (auto simp: upd_call_def ok)
      qed
      moreover have "wire_ok ?d"
      proof -
        have "wire_ok c" using ok by simp
        then show ?thesis using reg(1) unfolding wire_ok_def by (fastforce simp: upd_call_def)
      qed
      ultimately show "numbering_ok ?d \<and> pending_ok ?d \<and> locks_ok ?d \<and> calls_ok ?d \<and> wire_ok ?d" by blast
    qed
  qed
qed

lemma keep_register:
  assumes "cl_inv c" and "cl_pc c i = SLocked" and "registerCall i c = (Inr seq, c1)"
  shows "cl_inv (c1\<lparr>cl_pc := (cl_pc c1)(i := SWrite seq)\<rparr>)"
proof (rule inv_fold)
  let ?d = "c1\<lparr>cl_pc := (cl_pc c1)(i := SWrite seq)\<rparr>"
  have c1: "\<not> cl_shutdown c" "seq = cl_seq c" "cl_calls c1 = (cl_calls c)(i := map_option (\<lambda>k. k\<lparr>rc_Seq := cl_seq c\<rparr>) (cl_calls c i))"
    "cl_pending c1 = (cl_pending c)(cl_seq c \<mapsto> i)" "cl_regs c1 = cl_regs c @ [i]" "cl_seq c1 = cl_seq c + 1"
    "cl_pc c1 = cl_pc c" "cl_recv c1 = cl_recv c" "cl_sending c1 = cl_sending c" "cl_shutdown c1 = cl_shutdown c"
    "cl_wire c1 = cl_wire c"
    using assms(3) by (auto simp: registerCall_def upd_call_def Let_def split: if_splits)
  assume "few_calls ?d"
  then have few: "few_calls c" and room: "length (cl_regs c) + 1 < 2 ^ 64"
    using c1(5) by (simp_all add: few_calls_def)
  note ok = inv_unfold [OF assms(1) few]
  obtain x where x: "cl_calls c i = Some x" "call_state_ok c i x"
    using inv_call [OF assms(1) few, of i] assms(2) by auto
  have reg: "i \<notin> set (cl_regs c)" "rc_done x = 0" "rc_Reply x = None"
    using x(2) assms(2) by (cases "rc_Reply x"; auto simp: call_state_ok_def)+
  have recv: "cl_recv c \<noteq> RGot (Some i) h" for h using x(2) reg(1) by (auto simp: call_state_ok_def)
  have run: "cl_recv c \<noteq> RStopped" using ok c1(1) by (simp add: locks_ok_def)
  have num: "numbering_ok c" and pend: "pending_ok c" using ok by simp_all
  note fresh = fresh_number [OF num pend room]
  have "numbering_ok ?d"
    using num reg(1) x(1) by (auto simp: numbering_ok_def c1 nth_append less_Suc_eq)
  moreover have "pending_ok ?d"
    using pend reg(1) x(1) fresh(1) unfolding pending_ok_def by (auto simp: c1)
  moreover have "locks_ok ?d" using ok assms(2) by (auto simp: locks_ok_def c1)
  moreover have "calls_ok ?d"
  proof (rule callsI)
    show "call_state_ok ?d j y" if y: "cl_calls ?d j = Some y" for j y
    proof (cases "j = i")
      case True
      with y x have "y = x\<lparr>rc_Seq := cl_seq c\<rparr>" by (simp add: c1)
      with True reg recv run show ?thesis by (simp add: call_state_ok_def c1)
    next
      case False
      then have st: "call_state_ok c j y" and yc: "cl_calls c j = Some y"
        using y ok callsD [of c j y] by (simp_all add: c1)
      have "rc_Seq y \<noteq> cl_seq c \<or> cl_pending c (rc_Seq y) = None" using fresh(1) by auto
      then have "((cl_pending c)(cl_seq c \<mapsto> i)) (rc_Seq y) = Some j \<longleftrightarrow> cl_pending c (rc_Seq y) = Some j"
        using False by auto
      then have "call_state_ok ?d j y = call_state_ok c j y"
        using False by (intro call_state_cong) (simp_all add: c1)
      with st show ?thesis by simp
    qed
    show "cl_pc ?d j = Unused" if "cl_calls ?d j = None" for j
      using that ok x(1) callsN [of c j] by (auto simp: c1 split: if_splits)
    show "cl_calls ?d j \<noteq> None" if "cl_recv ?d = RGot (Some j) h" for j h
      using that ok callsR [of c j h] by (auto simp: c1)
  qed
  moreover have "wire_ok ?d"
    using ok reg(1) by (fastforce simp: wire_ok_def c1)
  ultimately show "numbering_ok ?d \<and> pending_ok ?d \<and> locks_ok ?d \<and> calls_ok ?d \<and> wire_ok ?d" by blast
qed

lemma call_state_closing [simp]: "call_state_ok (c\<lparr>cl_closing := b\<rparr>) = call_state_ok c"
  by (simp add: fun_eq_iff call_state_ok_def)

lemma keep_close: "cl_inv c \<Longrightarrow> client_Close c = (r, c1) \<Longrightarrow> cl_inv c1"
  by (cases "cl_shutdown c") (auto simp: client_Close_def cl_inv_def few_calls_def numbering_ok_def
    pending_ok_def locks_ok_def calls_ok_def wire_ok_def cong: option.case_cong)

lemma cl_init_inv: "cl_init c \<Longrightarrow> cl_inv c"
  by (simp add: cl_init_def newCientCodec_def cl_inv_def numbering_ok_def pending_ok_def locks_ok_def
    calls_ok_def wire_ok_def)

lemma call_step_inv: "cl_inv c \<Longrightarrow> call_step c d \<Longrightarrow> cl_inv d"
proof -
  assume inv: "cl_inv c" and "call_step c d"
  from this(2) show "cl_inv d"
  proof cases
    case (call_go i k m a)
    with inv keep_go [OF inv, of i k] show ?thesis by simp
  next
    case (call_lock i)
    have "few_calls c \<Longrightarrow> cl_calls c i \<noteq> None" using inv_call [OF inv, of i] call_lock(2) by auto
    with inv keep_lock [OF inv] call_lock show ?thesis by simp
  next
    case (call_refused i err c1)
    with keep_refused [OF inv] show ?thesis by simp
  next
    case (call_register i seq c1)
    with keep_register [OF inv] show ?thesis by simp
  next
    case (call_write i seq k wire)
    with keep_write [OF inv] show ?thesis by simp
  next
    case (call_result i k)
    with keep_result [OF inv] show ?thesis by simp
  next
    case (call_cancel i k r c1 e)
    with keep_cancel [OF inv] show ?thesis by simp
  qed
qed

lemma receive_step_inv: "cl_inv c \<Longrightarrow> receive_step c d \<Longrightarrow> cl_inv d"
proof -
  assume inv: "cl_inv c" and "receive_step c d"
  from this(2) show "cl_inv d"
  proof cases
    case (recv_header h r c1)
    with keep_header [OF inv] show ?thesis by simp
  next
    case (recv_header_error e)
    with keep_recv [OF inv, of "RTerminate e"] show ?thesis by simp
  next
    case (recv_skip_body h rc e)
    with keep_recv [OF inv, of rc] show ?thesis by auto
  next
    case (recv_body i h body)
    with keep_body [OF inv, of i h "case body of Inr _ \<Rightarrow> RRead | Inl e \<Rightarrow> RTerminate e" body] show ?thesis
      by (simp split: sum.splits)
  next
    case (recv_terminate e)
    with keep_terminate [OF inv] show ?thesis by simp
  qed
qed

lemma cl_step_inv: "cl_inv c \<Longrightarrow> cl_step c d \<Longrightarrow> cl_inv d"
  by (auto simp: cl_step_def intro: call_step_inv receive_step_inv keep_close)

interpretation client: inductive_invariant cl_init cl_step cl_inv
  by unfold_locales (auto intro: cl_init_inv cl_step_inv)


subsection \<open>Two runs\<close>

text \<open>One call, sent on a new connection; then its response, or a failure of the connection.\<close>

definition demo_call :: "(uint64 \<times> nat) option \<Rightarrow> goerror option \<Rightarrow> nat \<Rightarrow> nat rcall" where
  "demo_call r e n = \<lparr>rc_Seq = 1, rc_ServiceMethod = ''Foo.Sum'', rc_Args = 7, rc_Reply = r, rc_Error = e, rc_done = n\<rparr>"

definition demo_header :: header where
  "demo_header = \<lparr>h_ServiceMethod = ''Foo.Sum'', h_Seq = 1, h_Err = ''''\<rparr>"

definition demo_sent :: "nat client" where
  "demo_sent =
     \<lparr>cl_seq = 2, cl_pending = [1 \<mapsto> 0], cl_closing = False, cl_shutdown = False, cl_sending = None,
      cl_calls = [0 \<mapsto> demo_call None None 0], cl_pc = (\<lambda>_. Unused)(0 := SWaiting), cl_recv = RRead,
      cl_wire = [(demo_header, 7)], cl_regs = [0]\<rparr>"

definition demo_replied :: "nat client" where
  "demo_replied =
     demo_sent\<lparr>cl_pending := Map.empty, cl_calls := [0 \<mapsto> demo_call (Some (1, 42)) None 1]\<rparr>"

definition demo_failed :: "nat client" where
  "demo_failed =
     demo_sent\<lparr>cl_shutdown := True, cl_calls := [0 \<mapsto> demo_call None (Some ''EOF'') 1], cl_recv := RStopped\<rparr>"

lemmas demo_defs = demo_call_def demo_header_def demo_sent_def demo_replied_def demo_failed_def

lemma demo_sent_reach: "reach cl_init cl_step demo_sent"
proof -
  let ?k = "\<lparr>rc_Seq = 0, rc_ServiceMethod = ''Foo.Sum'', rc_Args = 7, rc_Reply = None, rc_Error = None, rc_done = 0\<rparr>"
  let ?c1 = "newCientCodec\<lparr>cl_calls := [0 \<mapsto> ?k], cl_pc := (\<lambda>_. Unused)(0 := SStart)\<rparr> :: nat client"
  let ?c2 = "?c1\<lparr>cl_sending := Some 0, cl_pc := (\<lambda>_. Unused)(0 := SLocked)\<rparr>"
  let ?c3 = "?c2\<lparr>cl_seq := 2, cl_pending := [1 \<mapsto> 0], cl_calls := [0 \<mapsto> demo_call None None 0],
    cl_regs := [0], cl_pc := (\<lambda>_. Unused)(0 := SWrite 1)\<rparr>"
  have "reach cl_init cl_step newCientCodec" by (simp add: reach_init cl_init_def)
  moreover have "cl_step newCientCodec ?c1"
    using step_go [of newCientCodec 0 ?k "''Foo.Sum''" 7] by (simp add: newCientCodec_def)
  moreover have "cl_step ?c1 ?c2"
    using step_lock [of ?c1 0] by (simp add: newCientCodec_def)
  moreover have "cl_step ?c2 ?c3"
    using step_register [of ?c2 0 1] 
    by (simp add: newCientCodec_def registerCall_def upd_call_def Let_def demo_call_def)
  moreover have "cl_step ?c3 demo_sent"
    using step_write [of ?c3 0 1 "demo_call None None 0" "[(demo_header, 7)]"]
    by (simp add: newCientCodec_def demo_defs request_header_def)
  ultimately show ?thesis by (meson reach_step)
qed

lemma demo_replied_reach: "reach cl_init cl_step demo_replied"
proof -
  let ?c = "demo_sent\<lparr>cl_pending := Map.empty, cl_recv := RGot (Some 0) demo_header\<rparr>"
  have "cl_step demo_sent ?c"
    using step_header [of demo_sent demo_header "Some 0"] by (simp add: removeCall_def demo_defs)
  moreover have "cl_step ?c demo_replied"
    using step_body [of ?c 0 demo_header "Inr 42"]
    by (simp add: demo_defs complete_call_def call_done_def upd_call_def)
  ultimately show ?thesis using demo_sent_reach by (meson reach_step)
qed

lemma demo_failed_reach:
  "reach cl_init cl_step (demo_sent\<lparr>cl_recv := RTerminate ''EOF''\<rparr>)" "reach cl_init cl_step demo_failed"
proof -
  have "cl_step demo_sent (demo_sent\<lparr>cl_recv := RTerminate ''EOF''\<rparr>)"
    by (rule step_header_error) (simp add: demo_defs)
  with demo_sent_reach show r: "reach cl_init cl_step (demo_sent\<lparr>cl_recv := RTerminate ''EOF''\<rparr>)"
    by (rule reach_step)
  have "(terminateCalls ''EOF'' (demo_sent\<lparr>cl_recv := RTerminate ''EOF''\<rparr>))\<lparr>cl_recv := RStopped\<rparr> = demo_failed"
    by (simp add: demo_defs terminateCalls_def call_done_def fun_eq_iff)
  then have "cl_step (demo_sent\<lparr>cl_recv := RTerminate ''EOF''\<rparr>) demo_failed"
    using step_terminate [of "demo_sent\<lparr>cl_recv := RTerminate ''EOF''\<rparr>" "''EOF''"] by (simp add: demo_defs)
  with r show "reach cl_init cl_step demo_failed" by (rule reach_step)
qed

subsection \<open>What callers can rely on\<close>



text \<open>The next lemma brings the mutex \<^verbatim>\<open>sending\<close> to be free.\<close>

lemma step_then: "cl_step b d \<Longrightarrow> P d \<Longrightarrow> \<exists>d. cl_step\<^sup>*\<^sup>* b d \<and> P d"
  by blast

lemma release_sending:
  assumes inv: "cl_inv c" and few: "few_calls c"
  shows "\<exists>d. cl_step\<^sup>*\<^sup>* c d \<and> cl_sending d = None \<and> cl_recv d = cl_recv c"
proof (cases "cl_sending c")
  case None
  then show ?thesis by blast
next
  case (Some i)
  have locks: "locks_ok c" using inv_unfold [OF inv few] by simp
  then have pc: "cl_pc c i = SLocked \<or> (\<exists>s. cl_pc c i = SWrite s)" using Some unfolding locks_ok_def by blast
  then obtain x where x: "cl_calls c i = Some x" using inv_call [OF inv few, of i] by force
  have done_writing: "\<exists>d. cl_step\<^sup>*\<^sup>* b d \<and> cl_sending d = None \<and> cl_recv d = cl_recv b"
    if "cl_pc b i = SWrite s" "cl_calls b i = Some y" for b s y
    using step_then [OF step_write [OF that, of "cl_wire b"], where P = "\<lambda>d. cl_sending d = None \<and> cl_recv d = cl_recv b"]
    by simp
  show ?thesis
  proof (cases "\<exists>s. cl_pc c i = SWrite s")
    case True
    with done_writing x show ?thesis by blast
  next
    case False
    with pc have l: "cl_pc c i = SLocked" by blast
    obtain r c1 where r: "registerCall i c = (r, c1)" by fastforce
    show ?thesis
    proof (cases r)
      case (Inl err)
      with r have c1: "c1 = c" by (auto simp: registerCall_def Let_def split: if_splits)
      show ?thesis
        using step_then [OF step_refused [OF l r [unfolded Inl]], where P = "\<lambda>d. cl_sending d = None \<and> cl_recv d = cl_recv c"] c1
        by (simp add: upd_call_def)
    next
      case (Inr s)
      let ?b = "c1\<lparr>cl_pc := (cl_pc c1)(i := SWrite s)\<rparr>"
      have fields: "cl_recv c1 = cl_recv c" "cl_calls c1 i \<noteq> None"
        using r Inr x by (auto simp: registerCall_def upd_call_def Let_def split: if_splits)
      then obtain y where "cl_calls ?b i = Some y" by auto
      then obtain d where "cl_step\<^sup>*\<^sup>* ?b d" "cl_sending d = None" "cl_recv d = cl_recv ?b"
        using done_writing [of ?b s y] by auto
      moreover have "cl_recv ?b = cl_recv c" using fields(1) by simp
      ultimately show ?thesis
        using converse_rtranclp_into_rtranclp [of cl_step c ?b d] step_register [OF l r [unfolded Inr]] by metis
    qed
  qed
qed

text \<open>
  No caller waits forever on a connection that failed. Once \<^verbatim>\<open>receive\<close> has met an error it
  can always reach its end, whoever holds the mutex \<^verbatim>\<open>sending\<close>; and when it has ended, every call
  whose \<^verbatim>\<open>send\<close> has returned and that was not given up has been completed, so that \<^verbatim>\<open>Call\<close> can
  return its error.
\<close>

theorem client_no_caller_stuck:
  assumes "reach cl_init cl_step c" and "few_calls c"
  shows "(cl_recv c = RTerminate e \<longrightarrow> (\<exists>d. cl_step\<^sup>*\<^sup>* c d \<and> cl_recv d = RStopped)) \<and>
    (cl_recv c = RStopped \<and> cl_pc c i = SWaiting \<longrightarrow>
       (\<exists>x. cl_calls c i = Some x \<and> rc_done x = 1 \<and>
            cl_step c (c\<lparr>cl_pc := (cl_pc c)(i := SReturned (rc_Error x))\<rparr>)))"
proof (intro conjI impI)
  have inv: "cl_inv c" by (rule client.inv_reach [OF assms(1)])
  {
    assume t: "cl_recv c = RTerminate e"
    obtain d where d: "cl_step\<^sup>*\<^sup>* c d" "cl_sending d = None" "cl_recv d = RTerminate e"
      using release_sending [OF inv assms(2)] t by metis
    have "cl_step d ((terminateCalls e d)\<lparr>cl_recv := RStopped\<rparr>)" by (rule step_terminate [OF d(3,2)])
    with d(1) show "\<exists>d. cl_step\<^sup>*\<^sup>* c d \<and> cl_recv d = RStopped"
      by (intro exI conjI, rule rtranclp.rtrancl_into_rtrancl) simp_all
  }
  assume w: "cl_recv c = RStopped \<and> cl_pc c i = SWaiting"
  then obtain x where x: "cl_calls c i = Some x" "call_state_ok c i x"
    using inv_call [OF inv assms(2), of i] by auto
  then have "rc_done x = 1" using w by (auto simp: call_state_ok_def)
  with x(1) w step_result [of c i x]
  show "\<exists>x. cl_calls c i = Some x \<and> rc_done x = 1 \<and> cl_step c (c\<lparr>cl_pc := (cl_pc c)(i := SReturned (rc_Error x))\<rparr>)"
    by simp
qed

theorem client_no_caller_stuck_witness:
  "(\<exists>d. cl_step\<^sup>*\<^sup>* (demo_sent\<lparr>cl_recv := RTerminate ''EOF''\<rparr>) d \<and> cl_recv d = RStopped) \<and>
   cl_step demo_failed (demo_failed\<lparr>cl_pc := (cl_pc demo_failed)(0 := SReturned (Some ''EOF''))\<rparr>)"
proof -
  have few: "few_calls (demo_sent\<lparr>cl_recv := RTerminate ''EOF''\<rparr>)" "few_calls demo_failed"
    by (simp_all add: few_calls_def demo_defs)
  show ?thesis
    using client_no_caller_stuck [OF demo_failed_reach(1) few(1), of "''EOF''" 0]
      client_no_caller_stuck [OF demo_failed_reach(2) few(2), of _ 0]
    by (simp add: demo_defs)
qed

end
