(* ===== verification/RPC_Service.thy ===== *)
theory RPC_Service
  imports Go_Prelude
begin

section \<open>Package surpc: services and their methods\<close>

text \<open>
  \<^verbatim>\<open>SuRPC/service.go\<close>, and the table of services of \<^verbatim>\<open>SuRPC/server.go\<close> with \<^verbatim>\<open>Register\<close> and
  \<^verbatim>\<open>findService\<close>. Types are a datatype with what the sources ask of package \<^verbatim>\<open>reflect\<close>; the
  methods that a value exports, with their signatures, are part of the value that is registered,
  and what a method does when it is called is a parameter.
\<close>

subsection \<open>Types and values as reflect shows them\<close>

text \<open>
  A predeclared type by its name, a defined type by the path of its package, its name and its
  underlying type, and the type literals; every other literal, an anonymous struct for example,
  is \<open>OtherT\<close> with a number that identifies it.
\<close>

datatype rtype =
    PreT string
  | DefT string string rtype
  | PtrTo rtype
  | MapTo rtype rtype
  | SliceTo rtype
  | ArrayTo nat rtype
  | ChanTo rtype
  | OtherT nat

datatype rkind = PtrKind | MapKind | SliceKind | ArrayKind | ChanKind | OtherKind

fun rt_Name :: "rtype \<Rightarrow> string" where
  "rt_Name (PreT n) = n"
| "rt_Name (DefT p n t) = n"
| "rt_Name _ = ''''"

fun rt_PkgPath :: "rtype \<Rightarrow> string" where
  "rt_PkgPath (DefT p n t) = p"
| "rt_PkgPath _ = ''''"

fun underlying :: "rtype \<Rightarrow> rtype" where
  "underlying (DefT p n t) = underlying t"
| "underlying t = t"

fun rt_Kind :: "rtype \<Rightarrow> rkind" where
  "rt_Kind (DefT p n t) = rt_Kind t"
| "rt_Kind (PtrTo t) = PtrKind"
| "rt_Kind (MapTo k t) = MapKind"
| "rt_Kind (SliceTo t) = SliceKind"
| "rt_Kind (ArrayTo n t) = ArrayKind"
| "rt_Kind (ChanTo t) = ChanKind"
| "rt_Kind _ = OtherKind"

fun rt_Elem :: "rtype \<Rightarrow> rtype outcome" where
  "rt_Elem (DefT p n t) = rt_Elem t"
| "rt_Elem (PtrTo t) = Ret t"
| "rt_Elem (MapTo k t) = Ret t"
| "rt_Elem (SliceTo t) = Ret t"
| "rt_Elem (ArrayTo n t) = Ret t"
| "rt_Elem (ChanTo t) = Ret t"
| "rt_Elem t = Panic (''reflect: Elem of invalid type '' @ rt_Name t)"

definition error_type :: rtype where
  "error_type = PreT ''error''"

text \<open>A value of a type: its zero value, an empty map or slice, or a new pointer to a value.\<close>

datatype rvalue = ZeroV rtype | EmptyV rtype | NewV rvalue

fun value_type :: "rvalue \<Rightarrow> rtype" where
  "value_type (ZeroV t) = t"
| "value_type (EmptyV t) = t"
| "value_type (NewV v) = PtrTo (value_type v)"

text \<open>
  Assignability, as \<^verbatim>\<open>reflect.Value.Call\<close> requires it of arguments: the same type, or the same
  underlying type when one of both is not a defined type. Interfaces are not considered beyond
  equality.
\<close>

fun is_defined :: "rtype \<Rightarrow> bool" where
  "is_defined (PreT n) = True"
| "is_defined (DefT p n t) = True"
| "is_defined _ = False"

definition assignable :: "rtype \<Rightarrow> rtype \<Rightarrow> bool" where
  "assignable v t \<longleftrightarrow> v = t \<or> (underlying v = underlying t \<and> (\<not> is_defined v \<or> \<not> is_defined t))"

subsection \<open>Methods\<close>

text \<open>A method as reflection describes it: the first of its parameters is the receiver.\<close>

record rmethod =
  rm_Name :: string
  rm_In :: "rtype list"
  rm_Out :: "rtype list"

record methodType =
  mt_method :: rmethod
  mt_ArgType :: rtype
  mt_ReplyType :: rtype
  mt_numCalls :: uint64

definition NumCalls :: "methodType \<Rightarrow> uint64" where
  "NumCalls m = mt_numCalls m"

definition newArgv :: "methodType \<Rightarrow> rvalue outcome" where
  "newArgv m =
     (if rt_Kind (mt_ArgType m) = PtrKind
      then bind_outcome (rt_Elem (mt_ArgType m)) (\<lambda>t. Ret (NewV (ZeroV t)))
      else Ret (ZeroV (mt_ArgType m)))"

definition newReplyv :: "methodType \<Rightarrow> rvalue outcome" where
  "newReplyv m =
     bind_outcome (rt_Elem (mt_ReplyType m)) (\<lambda>t.
       case rt_Kind t of
         MapKind \<Rightarrow> Ret (NewV (EmptyV t))
       | SliceKind \<Rightarrow> Ret (NewV (EmptyV t))
       | _ \<Rightarrow> Ret (NewV (ZeroV t)))"

definition isExportedOrBuiltinType :: "rtype \<Rightarrow> bool" where
  "isExportedOrBuiltinType t \<longleftrightarrow> IsExported (rt_Name t) \<or> rt_PkgPath t = ''''"

subsection \<open>Services\<close>

text \<open>
  The value given to \<^verbatim>\<open>Register\<close>: its dynamic type, whether it is a nil pointer, and the exported
  methods of its type in the order of \<^verbatim>\<open>typ.Method(i)\<close>. A nil interface is \<open>None\<close>.
\<close>

record rcvr =
  rv_type :: rtype
  rv_nil :: bool
  rv_methods :: "rmethod list"

record service =
  sv_name :: string
  sv_typ :: rtype
  sv_rcvr :: rcvr
  sv_method :: "string \<rightharpoonup> methodType"

text \<open>The loop of \<^verbatim>\<open>registerMethods\<close>: each \<^verbatim>\<open>continue\<close> is one of the conditions.\<close>

fun register_loop :: "rmethod list \<Rightarrow> (string \<rightharpoonup> methodType) \<Rightarrow> (string \<rightharpoonup> methodType)" where
  "register_loop [] ms = ms"
| "register_loop (m # rest) ms =
     (if length (rm_In m) \<noteq> 3 \<or> length (rm_Out m) \<noteq> 1 then register_loop rest ms
      else if rm_Out m ! 0 \<noteq> error_type then register_loop rest ms
      else
        (let argType = rm_In m ! 1; replyType = rm_In m ! 2
         in if \<not> isExportedOrBuiltinType argType \<or> \<not> isExportedOrBuiltinType replyType
            then register_loop rest ms
            else register_loop rest
              (ms(rm_Name m \<mapsto> \<lparr>mt_method = m, mt_ArgType = argType, mt_ReplyType = replyType, mt_numCalls = 0\<rparr>))))"

definition registerMethods :: "service \<Rightarrow> service" where
  "registerMethods s = s\<lparr>sv_method := register_loop (rv_methods (sv_rcvr s)) Map.empty\<rparr>"

text \<open>
  \<^verbatim>\<open>newService\<close>. \<^verbatim>\<open>reflect.Indirect\<close> of a nil interface or a nil pointer is the zero \<^verbatim>\<open>Value\<close>,
  whose \<^verbatim>\<open>Type\<close> panics; a name that is not exported ends the process.
\<close>

definition newService :: "rcvr option \<Rightarrow> service outcome" where
  "newService r =
     (case r of
        None \<Rightarrow> Panic ''reflect: call of reflect.Value.Type on zero Value''
      | Some v \<Rightarrow>
          bind_outcome
            (if rt_Kind (rv_type v) = PtrKind
             then (if rv_nil v then Panic ''reflect: call of reflect.Value.Type on zero Value'' else rt_Elem (rv_type v))
             else Ret (rv_type v))
            (\<lambda>t. let s = \<lparr>sv_name = rt_Name t, sv_typ = rv_type v, sv_rcvr = v, sv_method = Map.empty\<rparr>
                 in if \<not> IsExported (sv_name s) then Exit (sv_name s @ '' is not a service name'')
                    else Ret (registerMethods s)))"

text \<open>
  \<^verbatim>\<open>call\<close>: the counter is increased with wrap-around, then the method runs. \<open>f\<close> is what the
  method does with its argument and reply: the error it returns and the reply it leaves.
\<close>

definition service_call ::
  "(rmethod \<Rightarrow> rvalue \<Rightarrow> rvalue \<Rightarrow> goerror option \<times> 'r) \<Rightarrow> service \<Rightarrow> methodType \<Rightarrow> rvalue \<Rightarrow> rvalue \<Rightarrow>
   (goerror option \<times> 'r) outcome \<times> methodType" where
  "service_call f s m argv replyv =
     (let m1 = m\<lparr>mt_numCalls := mt_numCalls m + 1\<rparr>;
          args = [value_type argv, value_type replyv]
      in if list_all2 assignable args (tl (rm_In (mt_method m1)))
         then (Ret (f (mt_method m1) argv replyv), m1)
         else (Panic ''reflect: Call using type mismatch'', m1))"

subsection \<open>The services of a server\<close>

record server =
  serviceMap :: "string \<rightharpoonup> service"

definition NewServer :: server where
  "NewServer = \<lparr>serviceMap = Map.empty\<rparr>"

definition Register :: "rcvr option \<Rightarrow> server \<Rightarrow> goerror option outcome \<times> server" where
  "Register r s =
     (case newService r of
        Ret sv \<Rightarrow>
          (case serviceMap s (sv_name sv) of
             Some _ \<Rightarrow> (Ret (Some (''rpc server: service already defined'' @ sv_name sv)), s)
           | None \<Rightarrow> (Ret None, s\<lparr>serviceMap := (serviceMap s)(sv_name sv \<mapsto> sv)\<rparr>))
      | Panic e \<Rightarrow> (Panic e, s)
      | Exit e \<Rightarrow> (Exit e, s)
      | Hang \<Rightarrow> (Hang, s))"

definition findService :: "string \<Rightarrow> server \<Rightarrow> goerror + (service \<times> methodType)" where
  "findService serviceMethod s =
     (case lastIndex (CHR ''.'') serviceMethod of
        None \<Rightarrow> Inl (''rpc server: service method request ill-formed: '' @ serviceMethod)
      | Some dotIndex \<Rightarrow>
          (let serviceName = take dotIndex serviceMethod; methodName = drop (dotIndex + 1) serviceMethod
           in case serviceMap s serviceName of
                None \<Rightarrow> Inl (''rpc server: can not find service: '' @ serviceName)
              | Some svc \<Rightarrow>
                  (case sv_method svc methodName of
                     None \<Rightarrow> Inl (''rpc server: can not find method: '' @ methodName)
                   | Some mType \<Rightarrow> Inr (svc, mType))))"

subsection \<open>What is registered\<close>

text \<open>The methods that \<^verbatim>\<open>registerMethods\<close> accepts.\<close>

definition rpc_method :: "rmethod \<Rightarrow> bool" where
  "rpc_method m \<longleftrightarrow> (\<exists>recv arg reply. rm_In m = [recv, arg, reply] \<and> rm_Out m = [error_type] \<and>
     isExportedOrBuiltinType arg \<and> isExportedOrBuiltinType reply)"

definition method_entry :: "rmethod \<Rightarrow> methodType" where
  "method_entry m = \<lparr>mt_method = m, mt_ArgType = rm_In m ! 1, mt_ReplyType = rm_In m ! 2, mt_numCalls = 0\<rparr>"

lemma length_three: "length xs = 3 \<longleftrightarrow> (\<exists>a b c. xs = [a, b, c])"
  by (auto simp: numeral_3_eq_3 length_Suc_conv)

lemma register_loop_Cons:
  "register_loop (m # rest) ms =
     register_loop rest (if rpc_method m then ms(rm_Name m \<mapsto> method_entry m) else ms)"
proof (cases "length (rm_In m) = 3 \<and> length (rm_Out m) = 1")
  case True
  then obtain a b c e where "rm_In m = [a, b, c]" "rm_Out m = [e]"
    by (auto simp: length_three length_Suc_conv)
  then show ?thesis by (auto simp: rpc_method_def method_entry_def Let_def)
next
  case False
  then have "\<not> rpc_method m" by (auto simp: rpc_method_def)
  with False show ?thesis by auto
qed

declare register_loop.simps(2) [simp del]

lemma register_loop_lookup:
  assumes "distinct (map rm_Name ms)"
  shows "register_loop ms acc n =
    (case find (\<lambda>m. rpc_method m \<and> rm_Name m = n) ms of Some m \<Rightarrow> Some (method_entry m) | None \<Rightarrow> acc n)"
  using assms
proof (induction ms arbitrary: acc)
  case Nil
  then show ?case by simp
next
  case (Cons m ms)
  have "\<forall>x \<in> set ms. rm_Name x \<noteq> rm_Name m" using Cons.prems by (auto simp: image_iff)
  then have "find (\<lambda>x. rpc_method x \<and> rm_Name x = rm_Name m) ms = None" unfolding find_None_iff by blast
  with Cons show ?case by (cases "n = rm_Name m") (simp_all add: register_loop_Cons split: option.split)
qed

lemma find_unique:
  assumes "distinct (map rm_Name ms)"
  shows "find (\<lambda>m. P m \<and> rm_Name m = n) ms = Some m \<longleftrightarrow> m \<in> set ms \<and> P m \<and> rm_Name m = n"
  using assms by (induction ms) auto

lemma registerMethods_lookup:
  assumes "distinct (map rm_Name (rv_methods (sv_rcvr s)))"
  shows "sv_method (registerMethods s) n = Some e \<longleftrightarrow>
    (\<exists>m \<in> set (rv_methods (sv_rcvr s)). rpc_method m \<and> rm_Name m = n \<and> e = method_entry m)"
proof (cases "find (\<lambda>m. rpc_method m \<and> rm_Name m = n) (rv_methods (sv_rcvr s))")
  case None
  then show ?thesis
    using register_loop_lookup [OF assms, of Map.empty n] None [unfolded find_None_iff]
    by (auto simp: registerMethods_def None)
next
  case (Some m)
  then have "sv_method (registerMethods s) n = Some (method_entry m)"
    using register_loop_lookup [OF assms, of Map.empty n] by (simp add: registerMethods_def)
  moreover have "(x \<in> set (rv_methods (sv_rcvr s)) \<and> rpc_method x \<and> rm_Name x = n) \<longleftrightarrow> x = m" for x
    using find_unique [OF assms, of rpc_method n x] Some by auto
  ultimately show ?thesis by (metis option.inject)
qed

subsection \<open>Lookup by name\<close>

lemma findService_split:
  "CHR ''.'' \<notin> set meth \<Longrightarrow> findService (name @ CHR ''.'' # meth) s =
     (case serviceMap s name of
        None \<Rightarrow> Inl (''rpc server: can not find service: '' @ name)
      | Some svc \<Rightarrow> (case sv_method svc meth of
          None \<Rightarrow> Inl (''rpc server: can not find method: '' @ meth)
        | Some mt \<Rightarrow> Inr (svc, mt)))"
  by (simp add: findService_def lastIndex_append Let_def)

lemma newService_Ret:
  "newService r = Ret sv \<Longrightarrow> \<exists>v. r = Some v \<and> IsExported (sv_name sv) \<and> sv_rcvr sv = v \<and>
     sv_method sv = register_loop (rv_methods v) Map.empty"
  by (auto simp: newService_def bind_outcome_Ret_iff registerMethods_def Let_def split: option.splits if_splits)

text \<open>
  Property C26. After a value was registered, \<^verbatim>\<open>findService\<close> finds under \<^verbatim>\<open>Service.Method\<close> exactly its
  methods with two exported or builtin parameter types and the single result \<^verbatim>\<open>error\<close>, names a
  missing service or method in its error, and finds what it found before under every other
  service; a second registration under the name is refused and changes nothing.
\<close>

theorem Register_findService:
  assumes "Register (Some v) s = (Ret None, s')" and "newService (Some v) = Ret sv"
    and "distinct (map rm_Name (rv_methods v))" and "CHR ''.'' \<notin> set meth"
  shows "serviceMap s (sv_name sv) = None \<and> IsExported (sv_name sv) \<and>
    (findService (sv_name sv @ CHR ''.'' # meth) s' =
       (case find (\<lambda>m. rpc_method m \<and> rm_Name m = meth) (rv_methods v) of
          Some m \<Rightarrow> Inr (sv, method_entry m)
        | None \<Rightarrow> Inl (''rpc server: can not find method: '' @ meth))) \<and>
    (\<forall>name. name \<noteq> sv_name sv \<longrightarrow>
       findService (name @ CHR ''.'' # meth) s' = findService (name @ CHR ''.'' # meth) s) \<and>
    Register (Some v) s' = (Ret (Some (''rpc server: service already defined'' @ sv_name sv)), s')"
proof -
  have s': "serviceMap s (sv_name sv) = None" "s' = s\<lparr>serviceMap := (serviceMap s)(sv_name sv \<mapsto> sv)\<rparr>"
    using assms(1,2) by (auto simp: Register_def split: option.splits)
  have sv: "IsExported (sv_name sv)" "sv_method sv = register_loop (rv_methods v) Map.empty"
    using newService_Ret [OF assms(2)] by simp_all
  have "Register (Some v) s' = (Ret (Some (''rpc server: service already defined'' @ sv_name sv)), s')"
    using assms(2) by (simp add: Register_def s'(2))
  with s' sv show ?thesis
    by (simp add: findService_split [OF assms(4)] register_loop_lookup [OF assms(3)] split: option.split)
qed

text \<open>A service with one method of the right form, one without result, and one with a value for its reply.\<close>

definition int_type :: rtype where
  "int_type = PreT ''int''"

definition foo_type :: rtype where
  "foo_type = DefT ''surpc'' ''Foo'' int_type"

definition foo_Sum :: rmethod where
  "foo_Sum = \<lparr>rm_Name = ''Sum'', rm_In = [foo_type, DefT ''surpc'' ''Args'' (OtherT 0), PtrTo int_type],
              rm_Out = [error_type]\<rparr>"

definition foo_Reset :: rmethod where
  "foo_Reset = \<lparr>rm_Name = ''Reset'', rm_In = [foo_type], rm_Out = []\<rparr>"

definition foo_Value :: rmethod where
  "foo_Value = \<lparr>rm_Name = ''Value'', rm_In = [foo_type, int_type, int_type], rm_Out = [error_type]\<rparr>"

definition foo :: rcvr where
  "foo = \<lparr>rv_type = PtrTo foo_type, rv_nil = False, rv_methods = [foo_Reset, foo_Sum, foo_Value]\<rparr>"

definition foo_service :: service where
  "foo_service = registerMethods \<lparr>sv_name = ''Foo'', sv_typ = PtrTo foo_type, sv_rcvr = foo, sv_method = Map.empty\<rparr>"

lemmas foo_defs = foo_def foo_Sum_def foo_Reset_def foo_Value_def foo_type_def int_type_def

lemma foo_methods: "rpc_method foo_Sum" "\<not> rpc_method foo_Reset" "rpc_method foo_Value"
  by (simp_all add: rpc_method_def foo_defs isExportedOrBuiltinType_def IsExported_def less_eq_char_def)

lemma foo_newService: "newService (Some foo) = Ret foo_service"
  by (simp add: newService_def foo_service_def foo_defs IsExported_def less_eq_char_def registerMethods_def)

lemma foo_name: "sv_name foo_service = ''Foo''"
  by (simp add: foo_service_def registerMethods_def)

lemma foo_register_loop:
  "register_loop [foo_Reset, foo_Sum, foo_Value] Map.empty
     = [''Sum'' \<mapsto> method_entry foo_Sum, ''Value'' \<mapsto> method_entry foo_Value]"
  by (simp add: register_loop_Cons foo_methods) (simp add: foo_Sum_def foo_Value_def)

lemma foo_entries:
  "sv_method foo_service ''Sum'' = Some (method_entry foo_Sum)"
  "sv_method foo_service ''Value'' = Some (method_entry foo_Value)"
  by (simp_all add: foo_service_def registerMethods_def foo_def foo_register_loop)

lemma foo_no_Min: "sv_method foo_service ''Min'' = None"
  by (simp add: foo_service_def registerMethods_def foo_def foo_register_loop)

lemma foo_Register:
  "Register (Some foo) NewServer = (Ret None, \<lparr>serviceMap = [''Foo'' \<mapsto> foo_service]\<rparr>)"
  by (simp add: Register_def foo_newService foo_name NewServer_def)


theorem Register_findService_witness:
  "findService ''Foo.Sum'' \<lparr>serviceMap = [''Foo'' \<mapsto> foo_service]\<rparr> = Inr (foo_service, method_entry foo_Sum) \<and>
   findService ''Foo.Reset'' \<lparr>serviceMap = [''Foo'' \<mapsto> foo_service]\<rparr>
     = Inl ''rpc server: can not find method: Reset''"
proof -
  have dist: "distinct (map rm_Name (rv_methods foo))" by (simp add: foo_defs)
  have names: "rm_Name foo_Sum = ''Sum''" "rm_Name foo_Reset = ''Reset''" "rm_Name foo_Value = ''Value''"
    by (simp_all add: foo_defs)
  have ms: "rv_methods foo = [foo_Reset, foo_Sum, foo_Value]" by (simp add: foo_def)
  show ?thesis
    using Register_findService [OF foo_Register foo_newService dist, of "''Sum''"]
      Register_findService [OF foo_Register foo_newService dist, of "''Reset''"]
    by (simp add: ms names foo_methods foo_name)
qed

subsection \<open>Calls of registered methods\<close>

text \<open>
  Every method in the table of a service has three parameters, the last two of the types
  recorded for its argument and its reply, and one result.
\<close>

definition method_ok :: "methodType \<Rightarrow> bool" where
  "method_ok mt \<longleftrightarrow> (\<exists>recv. rm_In (mt_method mt) = [recv, mt_ArgType mt, mt_ReplyType mt]) \<and>
     rm_Out (mt_method mt) = [error_type]"

definition server_ok :: "server \<Rightarrow> bool" where
  "server_ok s \<longleftrightarrow> (\<forall>name sv n mt. serviceMap s name = Some sv \<and> sv_method sv n = Some mt \<longrightarrow> method_ok mt)"

lemma register_loop_ok:
  "register_loop ms acc n = Some mt \<Longrightarrow> (\<And>n mt. acc n = Some mt \<Longrightarrow> method_ok mt) \<Longrightarrow> method_ok mt"
proof (induction ms arbitrary: acc)
  case Nil
  then show ?case by simp
next
  case (Cons m ms)
  have "rpc_method m \<Longrightarrow> method_ok (method_entry m)"
    by (auto simp: rpc_method_def method_ok_def method_entry_def)
  then show ?case
    using Cons.prems(2) by (intro Cons.IH [OF Cons.prems(1) [unfolded register_loop_Cons]]) (auto split: if_splits)
qed

definition registration :: "server \<Rightarrow> server \<Rightarrow> bool" where
  "registration s t \<longleftrightarrow> (\<exists>r e. Register r s = (Ret e, t))"

lemma Register_ok: "server_ok s \<Longrightarrow> registration s t \<Longrightarrow> server_ok t"
proof -
  assume ok: "server_ok s" and "registration s t"
  then obtain r e where reg: "Register r s = (Ret e, t)" by (auto simp: registration_def)
  then obtain sv where sv: "newService r = Ret sv"
    by (auto simp: Register_def split: outcome.splits)
  have "method_ok mt" if "sv_method sv n = Some mt" for n mt
    using register_loop_ok [of _ Map.empty n mt] newService_Ret [OF sv] that by auto
  with ok reg sv show "server_ok t"
    by (auto simp: Register_def server_ok_def split: option.splits if_splits)
qed

interpretation services: inductive_invariant "\<lambda>s. s = NewServer" registration server_ok
proof
  show "server_ok s" if "s = NewServer" for s using that by (simp add: server_ok_def NewServer_def)
  show "server_ok t" if "server_ok s" "registration s t" for s t by (rule Register_ok [OF that])
qed

lemma findService_ok: "server_ok s \<Longrightarrow> findService sm s = Inr (sv, mt) \<Longrightarrow> method_ok mt"
  by (auto simp: findService_def server_ok_def Let_def split: option.splits)

lemma ptr_kind: "rt_Kind t = PtrKind \<Longrightarrow> \<exists>e. underlying t = PtrTo e \<and> rt_Elem t = Ret e"
  by (induction t rule: underlying.induct) auto

lemma other_kind: "rt_Kind t = OtherKind \<Longrightarrow> \<exists>e. rt_Elem t = Panic e"
  by (induction t rule: underlying.induct) auto

lemma assignable_ptr: "rt_Kind t = PtrKind \<Longrightarrow> rt_Elem t = Ret e \<Longrightarrow> assignable (PtrTo e) t"
  using ptr_kind [of t] by (auto simp: assignable_def)

lemma newArgv_assignable: "\<exists>a. newArgv m = Ret a \<and> assignable (value_type a) (mt_ArgType m)"
  using ptr_kind [of "mt_ArgType m"] assignable_ptr [of "mt_ArgType m"]
  by (auto simp: newArgv_def assignable_def)

lemma newReplyv_type: "rt_Elem (mt_ReplyType m) = Ret e \<Longrightarrow> \<exists>r. newReplyv m = Ret r \<and> value_type r = PtrTo e"
  by (auto simp: newReplyv_def split: rkind.split)


lemma foo_reach: "reach (\<lambda>s. s = NewServer) registration \<lparr>serviceMap = [''Foo'' \<mapsto> foo_service]\<rparr>"
proof (rule reach_step [of _ _ NewServer])
  show "reach (\<lambda>s. s = NewServer) registration NewServer" by (simp add: reach_init)
  show "registration NewServer \<lparr>serviceMap = [''Foo'' \<mapsto> foo_service]\<rparr>"
    using foo_Register by (auto simp: registration_def)
qed


end
