(* ===== verification/RPC_Server.thy ===== *)
theory RPC_Server
  imports RPC_Codec RPC_Service Go_HTTP RPC_Registry
begin

section \<open>Package surpc: the server\<close>

text \<open>
  \<^verbatim>\<open>SuRPC/server.go\<close> and \<^verbatim>\<open>SuRPC/debug.go\<close>. A connection is served by the goroutine of \<^verbatim>\<open>ServerCodec\<close>, which reads
  requests, and two goroutines for each request it has read: \<^verbatim>\<open>handleRequest\<close> and the worker it
  starts. The step relation \<open>sv_step\<close> has their steps; the mutex \<^verbatim>\<open>sending\<close>, the unbuffered
  channels \<^verbatim>\<open>called\<close> and \<^verbatim>\<open>sent\<close> and the wait group are part of it. The type \<open>'a\<close> is that of
  the encoded arguments, \<open>'b\<close> of the decoded ones and \<open>'r\<close> of the replies; when a call returns
  and with what, and when a timer fires, is chosen by the environment. A method that panics
  would end the process and is left out.
\<close>

subsection \<open>Options\<close>

record go_option =
  op_MagicNumber :: int
  op_CodecType :: string
  op_ConnectTimeout :: int
  op_HandleTimeout :: int

definition MagicNumber :: int where
  "MagicNumber = 0x3BEF5C"

definition DefaultOption :: go_option where
  "DefaultOption = \<lparr>op_MagicNumber = MagicNumber, op_CodecType = GobType,
     op_ConnectTimeout = time_Second * 10, op_HandleTimeout = 0\<rparr>"

text \<open>
  \<^verbatim>\<open>ServeConn\<close> on the result of decoding the option: the option with which \<^verbatim>\<open>ServerCodec\<close> is
  called, if it is; the connection is closed in any case when \<^verbatim>\<open>ServeConn\<close> returns.
\<close>

definition ServeConn :: "goerror + go_option \<Rightarrow> go_option option" where
  "ServeConn decoded =
     (case decoded of
        Inl err \<Rightarrow> None
      | Inr option \<Rightarrow>
          if op_MagicNumber option \<noteq> MagicNumber then None
          else if \<not> CodecFuncMap (op_CodecType option) then None
          else Some option)"

text \<open>
  \<^verbatim>\<open>Accept\<close> over the results of the listener in order: each connection is served by a
  goroutine of its own, which decodes its option; the loop returns at the first error and
  otherwise waits for another connection.
\<close>

fun server_Accept :: "('c \<Rightarrow> goerror + go_option) \<Rightarrow> (goerror + 'c) list \<Rightarrow> ('c \<times> go_option option) list \<times> bool" where
  "server_Accept decode [] = ([], False)"
| "server_Accept decode (Inl err # rest) = ([], True)"
| "server_Accept decode (Inr c # rest) =
     (case server_Accept decode rest of (served, returned) \<Rightarrow> ((c, ServeConn (decode c)) # served, returned))"

lemma server_Accept_served:
  "server_Accept decode (map Inr cs @ Inl err # rest) = (map (\<lambda>c. (c, ServeConn (decode c))) cs, True)"
  "server_Accept decode (map Inr cs) = (map (\<lambda>c. (c, ServeConn (decode c))) cs, False)"
  by (induction cs) simp_all

subsection \<open>Reading requests\<close>

record 'b request =
  rq_h :: header
  rq_svc :: service
  rq_mType :: methodType
  rq_argv :: 'b
  rq_replyv :: rvalue

text \<open>
  What \<^verbatim>\<open>readRequest\<close> returns: an error without a request, an error with a request of which
  only the header is used, or a request.
\<close>

datatype 'b read_result = NoRequest goerror | BadRequest header goerror | GoodRequest "'b request"

text \<open>
  \<^verbatim>\<open>readRequest\<close>. \<open>dec t\<close> decodes a body into a value of type \<open>t\<close>. When the service or the
  method is not found, the body of the request is left unread.
\<close>

definition readRequest ::
  "server \<Rightarrow> (rtype \<Rightarrow> 'a \<Rightarrow> goerror + 'b) \<Rightarrow> 'a message list \<Rightarrow> 'b read_result outcome \<times> 'a message list" where
  "readRequest s dec ms =
     (case gob_ReadHeader ms of
        (Inl err, ms1) \<Rightarrow> (Ret (NoRequest err), ms1)
      | (Inr h, ms1) \<Rightarrow>
          (case findService (h_ServiceMethod h) s of
             Inl err \<Rightarrow> (Ret (BadRequest h err), ms1)
           | Inr (svc, mType) \<Rightarrow>
               (case bind_outcome (newArgv mType) (\<lambda>argv. bind_outcome (newReplyv mType) (\<lambda>replyv. Ret (argv, replyv))) of
                  Ret (argv, replyv) \<Rightarrow>
                    (case gob_ReadBody (dec (value_type argv)) ms1 of
                       (Inl err, ms2) \<Rightarrow> (Ret (BadRequest h err), ms2)
                     | (Inr v, ms2) \<Rightarrow>
                         (Ret (GoodRequest \<lparr>rq_h = h, rq_svc = svc, rq_mType = mType, rq_argv = v, rq_replyv = replyv\<rparr>), ms2))
                | Panic e \<Rightarrow> (Panic e, ms1)
                | Exit e \<Rightarrow> (Exit e, ms1)
                | Hang \<Rightarrow> (Hang, ms1))))"

lemma ReadHeader_shorter: "gob_ReadHeader ms = (Inr h, ms1) \<Longrightarrow> length ms1 < length ms"
  by (cases ms rule: gob_ReadHeader.cases) auto

lemma ReadBody_shorter: "gob_ReadBody d ms1 = (x, ms2) \<Longrightarrow> length ms2 \<le> length ms1"
  by (cases "(d, ms1)" rule: gob_ReadBody.cases) auto

lemma readRequest_shorter:
  "readRequest s dec ms = (Ret (BadRequest h e), ms') \<Longrightarrow> length ms' < length ms"
  "readRequest s dec ms = (Ret (GoodRequest r), ms') \<Longrightarrow> length ms' < length ms"
  by (auto simp: readRequest_def split: prod.splits sum.splits outcome.splits
    dest!: ReadHeader_shorter dest: ReadBody_shorter intro: le_less_trans)

subsection \<open>The sequence of requests\<close>

text \<open>
  What the loop of \<^verbatim>\<open>ServerCodec\<close> reads from a connection, in order: requests, and invalid
  requests with their errors.
\<close>

function read_requests ::
  "server \<Rightarrow> (rtype \<Rightarrow> 'a \<Rightarrow> goerror + 'b) \<Rightarrow> 'a message list \<Rightarrow> ('b request + (header \<times> goerror)) list" where
  "read_requests s dec ms =
     (case readRequest s dec ms of
        (Ret (GoodRequest r), rest) \<Rightarrow> Inl r # read_requests s dec rest
      | (Ret (BadRequest h err), rest) \<Rightarrow> Inr (h, err) # read_requests s dec rest
      | _ \<Rightarrow> [])"
  by pat_completeness auto
termination
  by (relation "measure (\<lambda>(s, dec, ms). length ms)") (auto dest!: readRequest_shorter [OF sym])

declare read_requests.simps [simp del]

fun valid_requests :: "('b request + (header \<times> goerror)) list \<Rightarrow> 'b request list" where
  "valid_requests [] = []"
| "valid_requests (Inl r # xs) = r # valid_requests xs"
| "valid_requests (Inr e # xs) = valid_requests xs"

fun invalid_requests :: "('b request + (header \<times> goerror)) list \<Rightarrow> (header \<times> goerror) list" where
  "invalid_requests [] = []"
| "invalid_requests (Inl r # xs) = invalid_requests xs"
| "invalid_requests (Inr e # xs) = e # invalid_requests xs"

text \<open>A request reads the same whatever follows it.\<close>

lemma readRequest_frame:
  assumes "readRequest s dec (frames [f]) = (Ret (GoodRequest r), [])"
  shows "readRequest s dec (frames (f # fs)) = (Ret (GoodRequest r), frames fs) \<and> rq_h r = fst f"
proof -
  obtain h b where f: "f = (h, b)" by (cases f)
  obtain sv mt where found: "findService (h_ServiceMethod h) s = Inr (sv, mt)"
    using assms f by (auto simp: readRequest_def split: sum.splits)
  with assms f show ?thesis by (auto simp: readRequest_def split: outcome.splits prod.splits sum.splits)
qed

lemma readRequest_unknown:
  "findService (h_ServiceMethod h) s = Inl e \<Longrightarrow>
   readRequest s dec (frames ((h, b) # fs)) = (Ret (BadRequest h e), MBody b # frames fs)"
  by (simp add: readRequest_def)

lemma readRequest_body: "readRequest s dec (MBody b # ms) = (Ret (NoRequest ''gob: type mismatch''), ms)"
  by (simp add: readRequest_def)

text \<open>
  Property C31. Of a sequence of requests that can be served the server reads every one, in order.
  But the body of a request for an unknown service or method is never read: such a request is
  the last one that the server answers, and everything after it on the connection is dropped.
\<close>

theorem requests_read:
  assumes "\<forall>f \<in> set fs. \<exists>r. readRequest s dec (frames [f]) = (Ret (GoodRequest r), [])"
  shows "\<exists>rs. map rq_h rs = map fst fs \<and> read_requests s dec (frames fs) = map Inl rs \<and>
    (\<forall>h b later e. findService (h_ServiceMethod h) s = Inl e \<longrightarrow>
       read_requests s dec (frames (fs @ (h, b) # later)) = map Inl rs @ [Inr (h, e)])"
  using assms
proof (induction fs)
  case Nil
  have "read_requests s dec [] = []" by (simp add: read_requests.simps [of s dec "[]"] readRequest_def)
  moreover have "read_requests s dec (frames ((h, b) # later)) = [Inr (h, e)]"
    if "findService (h_ServiceMethod h) s = Inl e" for h b later e
    using readRequest_unknown [OF that, of dec b later]
    by (simp add: read_requests.simps [of s dec "frames ((h, b) # later)"]
      read_requests.simps [of s dec "MBody b # frames later"] readRequest_body del: frames.simps)
  ultimately show ?case by (intro exI [of _ "[]"]) simp
next
  case (Cons f fs)
  obtain r where r: "readRequest s dec (frames [f]) = (Ret (GoodRequest r), [])" using Cons.prems by auto
  obtain rs where rs: "map rq_h rs = map fst fs" "read_requests s dec (frames fs) = map Inl rs"
    "\<And>h b later e. findService (h_ServiceMethod h) s = Inl e \<Longrightarrow>
       read_requests s dec (frames (fs @ (h, b) # later)) = map Inl rs @ [Inr (h, e)]"
    using Cons.IH Cons.prems by auto
  have "read_requests s dec (frames (f # gs)) = Inl r # read_requests s dec (frames gs)" for gs
    using readRequest_frame [OF r, of gs] by (simp add: read_requests.simps [of s dec "frames (f # gs)"])
  with rs readRequest_frame [OF r, of fs] show ?case by (intro exI [of _ "r # rs"]) simp
qed

subsection \<open>A connection being served\<close>

text \<open>The loop of \<^verbatim>\<open>ServerCodec\<close>.\<close>

datatype loop_pc =
    LRead           \<comment> \<open>before \<^verbatim>\<open>readRequest\<close>\<close>
  | LReply header   \<comment> \<open>in \<^verbatim>\<open>sendResponse\<close> with an invalid request\<close>
  | LWait           \<comment> \<open>in \<^verbatim>\<open>wg.Wait()\<close>\<close>
  | LClosed

text \<open>\<^verbatim>\<open>handleRequest\<close>.\<close>

datatype main_pc =
    HNone
  | HSelect         \<comment> \<open>at \<^verbatim>\<open>select\<close>, or at \<^verbatim>\<open><-called\<close> without a timeout\<close>
  | HSend header    \<comment> \<open>after the timeout, in \<^verbatim>\<open>sendResponse\<close>\<close>
  | HTimedOut       \<comment> \<open>returned after a timeout\<close>
  | HWaitSent       \<comment> \<open>at \<^verbatim>\<open><-sent\<close>\<close>
  | HDone           \<comment> \<open>returned after \<^verbatim>\<open>sent\<close>\<close>

text \<open>The goroutine that \<^verbatim>\<open>handleRequest\<close> starts. A body \<open>None\<close> is \<^verbatim>\<open>invalidRequest\<close>.\<close>

datatype 'r worker_pc =
    WNone
  | WCall                            \<comment> \<open>in \<^verbatim>\<open>svc.call\<close>\<close>
  | WCalled "goerror option \<times> 'r"  \<comment> \<open>at \<^verbatim>\<open>called <-\<close>\<close>
  | WSend header "'r option"         \<comment> \<open>in \<^verbatim>\<open>sendResponse\<close>\<close>
  | WSent                            \<comment> \<open>at \<^verbatim>\<open>sent <-\<close>\<close>
  | WDone

datatype sender = LoopSender | MainSender nat | WorkerSender nat

text \<open>
  \<open>sn_sending\<close> is the holder of the mutex \<^verbatim>\<open>sending\<close> with the response it writes, and whether
  the header has been encoded. \<open>sn_bad\<close> and \<open>sn_sent\<close> record the invalid requests and the
  finished calls of \<^verbatim>\<open>sendResponse\<close>; they are not part of the code's state.
\<close>

record ('a, 'b, 'r) sconn =
  sn_in :: "'a message list"
  sn_loop :: loop_pc
  sn_reqs :: "'b request list"
  sn_main :: "nat \<Rightarrow> main_pc"
  sn_worker :: "nat \<Rightarrow> 'r worker_pc"
  sn_sending :: "(sender \<times> header \<times> 'r option \<times> bool) option"
  sn_codec :: "'r option gob_codec"
  sn_bad :: "(header \<times> goerror) list"
  sn_sent :: "(sender \<times> header \<times> 'r option) list"

definition sv_start :: "'a message list \<Rightarrow> ('a, 'b, 'r) sconn" where
  "sv_start ms =
     \<lparr>sn_in = ms, sn_loop = LRead, sn_reqs = [], sn_main = (\<lambda>_. HNone), sn_worker = (\<lambda>_. WNone),
      sn_sending = None, sn_codec = NewGobCodec, sn_bad = [], sn_sent = []\<rparr>"

text \<open>
  \<^verbatim>\<open>ServerCodec\<close>. A request starts its handler with its worker; on an invalid request the error
  is sent and the loop goes on; any error without a request, such as one of reading from a
  connection that a failed \<^verbatim>\<open>Write\<close> has closed, ends the loop. The wait group is at zero when
  every handler has returned.
\<close>

inductive loop_step ::
  "server \<Rightarrow> (rtype \<Rightarrow> 'a \<Rightarrow> goerror + 'b) \<Rightarrow> ('a, 'b, 'r) sconn \<Rightarrow> ('a, 'b, 'r) sconn \<Rightarrow> bool" for s dec where
  loop_request:
    "sn_loop n = LRead \<Longrightarrow> readRequest s dec (sn_in n) = (Ret (GoodRequest r), rest) \<Longrightarrow>
     loop_step s dec n (n\<lparr>sn_in := rest, sn_reqs := sn_reqs n @ [r],
       sn_main := (sn_main n)(length (sn_reqs n) := HSelect),
       sn_worker := (sn_worker n)(length (sn_reqs n) := WCall)\<rparr>)"
| loop_bad:
    "sn_loop n = LRead \<Longrightarrow> readRequest s dec (sn_in n) = (Ret (BadRequest h err), rest) \<Longrightarrow>
     loop_step s dec n (n\<lparr>sn_in := rest, sn_loop := LReply (h\<lparr>h_Err := err\<rparr>), sn_bad := sn_bad n @ [(h, err)]\<rparr>)"
| loop_end:
    "sn_loop n = LRead \<Longrightarrow> readRequest s dec (sn_in n) = (Ret (NoRequest err), rest) \<Longrightarrow>
     loop_step s dec n (n\<lparr>sn_in := rest, sn_loop := LWait\<rparr>)"
| loop_broken:
    "sn_loop n = LRead \<Longrightarrow> \<not> gc_open (sn_codec n) \<Longrightarrow> loop_step s dec n (n\<lparr>sn_loop := LWait\<rparr>)"
| loop_close:
    "sn_loop n = LWait \<Longrightarrow> (\<And>i. i < length (sn_reqs n) \<Longrightarrow> sn_main n i \<in> {HTimedOut, HDone}) \<Longrightarrow>
     loop_step s dec n (n\<lparr>sn_loop := LClosed, sn_codec := gob_Close (sn_codec n)\<rparr>)"

definition timeout_header :: "string \<Rightarrow> header \<Rightarrow> header" where
  "timeout_header dur h = h\<lparr>h_Err := ''rpc server: request handle time out, expected within '' @ dur\<rparr>"

text \<open>What the worker sends after the call returned an error or nil, with the reply \<open>v\<close>.\<close>

definition result_msg :: "header \<Rightarrow> goerror option \<times> 'r \<Rightarrow> header \<times> 'r option" where
  "result_msg h res = (case res of (Some err, v) \<Rightarrow> (h\<lparr>h_Err := err\<rparr>, None) | (None, v) \<Rightarrow> (h, Some v))"

text \<open>
  \<^verbatim>\<open>handleRequest\<close> for the option's \<open>timeout\<close>, which is printed as \<open>dur\<close>, and its worker: the
  call returns; \<^verbatim>\<open>called\<close> is communicated; the timer fires first; \<^verbatim>\<open>sent\<close> is communicated.
\<close>

inductive handle_step ::
  "int \<Rightarrow> string \<Rightarrow> ('a, 'b, 'r) sconn \<Rightarrow> ('a, 'b, 'r) sconn \<Rightarrow> bool" for timeout dur where
  handle_return:
    "sn_worker n i = WCall \<Longrightarrow>
     handle_step timeout dur n (n\<lparr>sn_worker := (sn_worker n)(i := WCalled res)\<rparr>)"
| handle_called:
    "sn_main n i = HSelect \<Longrightarrow> sn_worker n i = WCalled res \<Longrightarrow> result_msg (rq_h (sn_reqs n ! i)) res = (h, b) \<Longrightarrow>
     handle_step timeout dur n (n\<lparr>sn_main := (sn_main n)(i := HWaitSent), sn_worker := (sn_worker n)(i := WSend h b)\<rparr>)"
| handle_timeout:
    "timeout \<noteq> 0 \<Longrightarrow> sn_main n i = HSelect \<Longrightarrow>
     handle_step timeout dur n (n\<lparr>sn_main := (sn_main n)(i := HSend (timeout_header dur (rq_h (sn_reqs n ! i))))\<rparr>)"
| handle_sent:
    "sn_main n i = HWaitSent \<Longrightarrow> sn_worker n i = WSent \<Longrightarrow>
     handle_step timeout dur n (n\<lparr>sn_main := (sn_main n)(i := HDone), sn_worker := (sn_worker n)(i := WDone)\<rparr>)"

text \<open>
  \<^verbatim>\<open>sendResponse\<close>, by whichever goroutine is in it with a response: it locks, encodes the
  header, encodes the body with what follows in \<^verbatim>\<open>Write\<close>, unlocks and returns.
\<close>

fun in_sendResponse :: "('a, 'b, 'r) sconn \<Rightarrow> sender \<Rightarrow> header \<Rightarrow> 'r option \<Rightarrow> bool" where
  "in_sendResponse n LoopSender h b \<longleftrightarrow> sn_loop n = LReply h \<and> b = None"
| "in_sendResponse n (MainSender i) h b \<longleftrightarrow> sn_main n i = HSend h \<and> b = None"
| "in_sendResponse n (WorkerSender i) h b \<longleftrightarrow> sn_worker n i = WSend h b"

fun return_from_send :: "sender \<Rightarrow> ('a, 'b, 'r) sconn \<Rightarrow> ('a, 'b, 'r) sconn" where
  "return_from_send LoopSender n = n\<lparr>sn_loop := LRead\<rparr>"
| "return_from_send (MainSender i) n = n\<lparr>sn_main := (sn_main n)(i := HTimedOut)\<rparr>"
| "return_from_send (WorkerSender i) n = n\<lparr>sn_worker := (sn_worker n)(i := WSent)\<rparr>"

inductive send_step ::
  "('r option \<Rightarrow> goerror option) \<Rightarrow> ('a, 'b, 'r) sconn \<Rightarrow> ('a, 'b, 'r) sconn \<Rightarrow> bool" for enc where
  send_lock:
    "sn_sending n = None \<Longrightarrow> in_sendResponse n x h b \<Longrightarrow>
     send_step enc n (n\<lparr>sn_sending := Some (x, h, b, False)\<rparr>)"
| send_header:
    "sn_sending n = Some (x, h, b, False) \<Longrightarrow>
     send_step enc n (n\<lparr>sn_sending := Some (x, h, b, True), sn_codec := gob_Encode (MHeader h) (sn_codec n)\<rparr>)"
| send_body:
    "sn_sending n = Some (x, h, b, True) \<Longrightarrow>
     send_step enc n (return_from_send x (n\<lparr>sn_sending := None,
       sn_codec := snd (gob_Write_body enc b (sn_codec n)), sn_sent := sn_sent n @ [(x, h, b)]\<rparr>))"

definition sv_step ::
  "server \<Rightarrow> (rtype \<Rightarrow> 'a \<Rightarrow> goerror + 'b) \<Rightarrow> ('r option \<Rightarrow> goerror option) \<Rightarrow> int \<Rightarrow> string \<Rightarrow>
   ('a, 'b, 'r) sconn \<Rightarrow> ('a, 'b, 'r) sconn \<Rightarrow> bool" where
  "sv_step s dec enc timeout dur n n' \<longleftrightarrow>
     loop_step s dec n n' \<or> handle_step timeout dur n n' \<or> send_step enc n n'"

inductive_cases loop_stepE: "loop_step s dec n n'"
inductive_cases handle_stepE: "handle_step timeout dur n n'"
inductive_cases send_stepE: "send_step enc n n'"
fun_cases in_sendResponseE: "in_sendResponse n x h b"

lemmas sv_stepE = loop_stepE handle_stepE send_stepE

definition sv_init :: "('a, 'b, 'r) sconn \<Rightarrow> bool" where
  "sv_init n \<longleftrightarrow> (\<exists>ms. n = sv_start ms)"

subsection \<open>The invariant\<close>

definition in_call :: "'r worker_pc \<Rightarrow> bool" where
  "in_call w \<longleftrightarrow> w = WCall \<or> (\<exists>res. w = WCalled res)"

text \<open>The handler of the request with header \<open>h0\<close>, its worker, and the responses sent for it.\<close>

fun handler_ok ::
  "int \<Rightarrow> string \<Rightarrow> header \<Rightarrow> main_pc \<Rightarrow> 'r worker_pc \<Rightarrow> (header \<times> 'r option) list \<Rightarrow> bool" where
  "handler_ok timeout dur h0 HNone w as \<longleftrightarrow> False"
| "handler_ok timeout dur h0 HSelect w as \<longleftrightarrow> in_call w \<and> as = []"
| "handler_ok timeout dur h0 (HSend h) w as \<longleftrightarrow> in_call w \<and> as = [] \<and> timeout \<noteq> 0 \<and> h = timeout_header dur h0"
| "handler_ok timeout dur h0 HTimedOut w as \<longleftrightarrow> in_call w \<and> as = [(timeout_header dur h0, None)] \<and> timeout \<noteq> 0"
| "handler_ok timeout dur h0 HWaitSent w as \<longleftrightarrow>
     (\<exists>res. (w = WSend (fst (result_msg h0 res)) (snd (result_msg h0 res)) \<and> as = []) \<or>
            (w = WSent \<and> as = [result_msg h0 res]))"
| "handler_ok timeout dur h0 HDone w as \<longleftrightarrow> w = WDone \<and> (\<exists>res. as = [result_msg h0 res])"

fun handler_of :: "sender \<Rightarrow> nat option" where
  "handler_of LoopSender = None"
| "handler_of (MainSender i) = Some i"
| "handler_of (WorkerSender i) = Some i"

text \<open>The responses sent for a handler, or by the loop.\<close>

definition responses :: "('a, 'b, 'r) sconn \<Rightarrow> nat option \<Rightarrow> (header \<times> 'r option) list" where
  "responses n i = map snd (filter (\<lambda>e. handler_of (fst e) = i) (sn_sent n))"

definition handlers_inv :: "int \<Rightarrow> string \<Rightarrow> ('a, 'b, 'r) sconn \<Rightarrow> bool" where
  "handlers_inv timeout dur n \<longleftrightarrow> (\<forall>i.
     if i < length (sn_reqs n)
     then handler_ok timeout dur (rq_h (sn_reqs n ! i)) (sn_main n i) (sn_worker n i) (responses n (Some i))
     else sn_main n i = HNone \<and> sn_worker n i = WNone \<and> responses n (Some i) = [])"

definition sending_inv :: "('a, 'b, 'r) sconn \<Rightarrow> bool" where
  "sending_inv n \<longleftrightarrow> (\<forall>x h b w. sn_sending n = Some (x, h, b, w) \<longrightarrow> in_sendResponse n x h b)"

definition loop_inv :: "('a, 'b, 'r) sconn \<Rightarrow> bool" where
  "loop_inv n \<longleftrightarrow> responses n None @ (case sn_loop n of LReply h \<Rightarrow> [(h, None)] | _ \<Rightarrow> [])
     = map (\<lambda>(h, err). (h\<lparr>h_Err := err\<rparr>, None)) (sn_bad n)"

text \<open>
  What is on the connection: the responses sent, each with its header and body next to each
  other, as long as no \<^verbatim>\<open>Write\<close> failed; after that some of the first of them, and perhaps a lone
  header.
\<close>

definition output_inv :: "('a, 'b, 'r) sconn \<Rightarrow> bool" where
  "output_inv n \<longleftrightarrow>
     (if gc_open (sn_codec n)
      then gc_out (sn_codec n) = frames (map snd (sn_sent n)) \<and>
        gc_buf (sn_codec n) = (case sn_sending n of Some (_, h, _, True) \<Rightarrow> [MHeader h] | _ \<Rightarrow> [])
      else \<exists>k hs. gc_out (sn_codec n) = frames (take k (map snd (sn_sent n))) @ map MHeader hs \<and> length hs \<le> 1)"

definition sv_inv :: "int \<Rightarrow> string \<Rightarrow> ('a, 'b, 'r) sconn \<Rightarrow> bool" where
  "sv_inv timeout dur n \<longleftrightarrow> handlers_inv timeout dur n \<and> sending_inv n \<and> loop_inv n \<and> output_inv n"

lemmas sv_inv_defs = handlers_inv_def sending_inv_def loop_inv_def output_inv_def responses_def

lemma sv_start_inv: "sv_init n \<Longrightarrow> sv_inv timeout dur n"
  by (auto simp: sv_init_def sv_start_def sv_inv_def sv_inv_defs NewGobCodec_def)

lemma handlers_at:
  "handlers_inv timeout dur n \<Longrightarrow> sn_main n i \<noteq> HNone \<or> sn_worker n i \<noteq> WNone \<Longrightarrow>
   i < length (sn_reqs n) \<and>
   handler_ok timeout dur (rq_h (sn_reqs n ! i)) (sn_main n i) (sn_worker n i) (responses n (Some i))"
  unfolding handlers_inv_def by (metis (full_types))

text \<open>A step that changes the goroutines of one handler only.\<close>

lemma handlers_upd:
  assumes "handlers_inv timeout dur n" and "i < length (sn_reqs n)" and "sn_reqs n' = sn_reqs n"
    and "\<And>j. j \<noteq> i \<Longrightarrow> sn_main n' j = sn_main n j \<and> sn_worker n' j = sn_worker n j \<and>
      responses n' (Some j) = responses n (Some j)"
    and "handler_ok timeout dur (rq_h (sn_reqs n ! i)) (sn_main n' i) (sn_worker n' i) (responses n' (Some i))"
  shows "handlers_inv timeout dur n'"
  using assms unfolding handlers_inv_def by (metis (full_types))

lemma handlers_same:
  assumes "handlers_inv timeout dur n" and "sn_reqs n' = sn_reqs n" and "sn_main n' = sn_main n"
    and "sn_worker n' = sn_worker n" and "\<And>j. responses n' (Some j) = responses n (Some j)"
  shows "handlers_inv timeout dur n'"
  using assms unfolding handlers_inv_def by simp

lemma responses_upd [simp]:
  "responses (n\<lparr>sn_in := a\<rparr>) = responses n" "responses (n\<lparr>sn_loop := b\<rparr>) = responses n"
  "responses (n\<lparr>sn_reqs := c\<rparr>) = responses n" "responses (n\<lparr>sn_main := d\<rparr>) = responses n"
  "responses (n\<lparr>sn_worker := e\<rparr>) = responses n" "responses (n\<lparr>sn_sending := f\<rparr>) = responses n"
  "responses (n\<lparr>sn_codec := g\<rparr>) = responses n" "responses (n\<lparr>sn_bad := h\<rparr>) = responses n"
  by (simp_all add: responses_def fun_eq_iff)

lemma responses_snoc [simp]:
  "responses (n\<lparr>sn_sent := sn_sent n @ [(x, h, b)]\<rparr>) i = responses n i @ (if handler_of x = i then [(h, b)] else [])"
  by (simp add: responses_def)

lemma in_sendResponse_upd [simp]:
  "in_sendResponse (n\<lparr>sn_sending := f\<rparr>) x = in_sendResponse n x"
  "in_sendResponse (n\<lparr>sn_codec := g\<rparr>) x = in_sendResponse n x"
  by (cases x; simp add: fun_eq_iff)+

lemma sendingD: "sending_inv n \<Longrightarrow> sn_sending n = Some (x, h, b, w) \<Longrightarrow> in_sendResponse n x h b"
  unfolding sending_inv_def by blast

lemma sending_cong:
  assumes "sending_inv n" and "sn_sending n' = sn_sending n"
    and "\<And>x h b. in_sendResponse n x h b \<Longrightarrow> in_sendResponse n' x h b"
  shows "sending_inv n'"
  using assms unfolding sending_inv_def by simp

lemma output_cong:
  "output_inv n \<Longrightarrow> sn_codec n' = sn_codec n \<Longrightarrow> sn_sent n' = sn_sent n \<Longrightarrow> sn_sending n' = sn_sending n \<Longrightarrow>
   output_inv n'"
  unfolding output_inv_def by (simp only:)

lemma loop_cong:
  "loop_inv n \<Longrightarrow> responses n' None = responses n None \<Longrightarrow> sn_loop n' = sn_loop n \<Longrightarrow> sn_bad n' = sn_bad n \<Longrightarrow>
   loop_inv n'"
  by (simp add: loop_inv_def)

subsubsection \<open>The loop\<close>

lemma in_send_loop:
  "sn_main n' = sn_main n \<Longrightarrow> sn_worker n' = sn_worker n \<Longrightarrow> \<forall>h. sn_loop n \<noteq> LReply h \<Longrightarrow>
   in_sendResponse n x h b \<Longrightarrow> in_sendResponse n' x h b"
  by (cases x) auto

text \<open>The loop leaves \<^verbatim>\<open>readRequest\<close> without a request.\<close>

lemma loop_leaves:
  assumes inv: "sv_inv timeout dur n" and "sn_loop n = LRead \<or> sn_loop n = LWait" and "loop_inv n'" and "output_inv n'"
    and "sn_reqs n' = sn_reqs n" "sn_main n' = sn_main n" "sn_worker n' = sn_worker n"
    and "sn_sending n' = sn_sending n" "sn_sent n' = sn_sent n"
  shows "sv_inv timeout dur n'"
proof -
  have "in_sendResponse n x hd b \<Longrightarrow> in_sendResponse n' x hd b" for x hd b
    by (rule in_send_loop [of n' n]) (use assms in auto)
  then have "sending_inv n'" using assms by (intro sending_cong [of n n']) (simp_all add: sv_inv_def)
  moreover have "handlers_inv timeout dur n'"
    using assms by (intro handlers_same [of timeout dur n n']) (simp_all add: sv_inv_def responses_def)
  ultimately show ?thesis using assms(3,4) by (simp add: sv_inv_def)
qed

lemma output_close:
  assumes "output_inv n" and "sn_sent n' = sn_sent n" and "sn_codec n' = gob_Close (sn_codec n)"
  shows "output_inv n'"
proof (cases "gc_open (sn_codec n)")
  case True
  then have "gc_out (sn_codec n') = frames (take (length (sn_sent n)) (map snd (sn_sent n'))) @ map MHeader []"
    using assms by (simp add: output_inv_def gob_Close_def)
  moreover have "\<not> gc_open (sn_codec n')" using assms(3) by (simp add: gob_Close_def)
  ultimately show ?thesis unfolding output_inv_def by (metis bot_nat_0.extremum list.size(3))
next
  case False
  with assms show ?thesis by (simp add: output_inv_def gob_Close_def)
qed

lemma loop_step_inv:
  assumes inv: "sv_inv timeout dur n" and "loop_step s dec n n'"
  shows "sv_inv timeout dur n'"
  using assms(2)
proof cases
  case (loop_request r rest)
  let ?k = "length (sn_reqs n)"
  have h: "handlers_inv timeout dur n" using inv by (simp add: sv_inv_def)
  then have fresh: "sn_main n ?k = HNone" "sn_worker n ?k = WNone" "responses n (Some ?k) = []"
    unfolding handlers_inv_def by (metis less_irrefl)+
  have "handlers_inv timeout dur n'"
    using h fresh(3) by (simp add: handlers_inv_def loop_request(1) nth_append in_call_def less_Suc_eq)
  moreover have "in_sendResponse n' x hd b" if "in_sendResponse n x hd b" for x hd b
    using that fresh by (cases x) (auto simp: loop_request(1))
  then have "sending_inv n'" using inv by (intro sending_cong [of n n']) (simp_all add: sv_inv_def loop_request(1))
  ultimately show ?thesis
    using inv output_cong [of n n'] loop_cong [of n n'] by (simp add: sv_inv_def loop_request(1))
next
  case (loop_bad h err rest)
  show ?thesis
    by (rule loop_leaves [OF inv]) (use inv loop_bad in \<open>auto simp: sv_inv_def loop_inv_def intro: output_cong\<close>)
next
  case (loop_end err rest)
  show ?thesis
    by (rule loop_leaves [OF inv]) (use inv loop_end in \<open>auto simp: sv_inv_def loop_inv_def intro: output_cong\<close>)
next
  case loop_broken
  show ?thesis
    by (rule loop_leaves [OF inv]) (use inv loop_broken in \<open>auto simp: sv_inv_def loop_inv_def intro: output_cong\<close>)
next
  case loop_close
  show ?thesis
    by (rule loop_leaves [OF inv]) (use inv loop_close in \<open>auto simp: sv_inv_def loop_inv_def intro: output_close\<close>)
qed

subsubsection \<open>The handlers\<close>

lemma handle_step_inv:
  assumes inv: "sv_inv timeout dur n" and "handle_step timeout dur n n'"
  shows "sv_inv timeout dur n'"
proof -
  have h: "handlers_inv timeout dur n" using inv by (simp add: sv_inv_def)
  have rest: "sv_inv timeout dur n'"
    if "handlers_inv timeout dur n'" "\<And>x hd b. in_sendResponse n x hd b \<Longrightarrow> in_sendResponse n' x hd b"
      "sn_sending n' = sn_sending n" "sn_codec n' = sn_codec n" "sn_sent n' = sn_sent n" "sn_loop n' = sn_loop n"
      "sn_bad n' = sn_bad n"
  proof -
    have "responses n' None = responses n None" using that(5) by (simp add: responses_def)
    then show ?thesis
      using that inv sending_cong [of n n'] output_cong [of n n'] loop_cong [of n n'] by (simp add: sv_inv_def)
  qed
  from assms(2) show ?thesis
  proof cases
    case (handle_return i res)
    note at = handlers_at [OF h, of i]
    have "handler_ok timeout dur (rq_h (sn_reqs n ! i)) (sn_main n i) (WCalled res) (responses n (Some i))"
      using at handle_return(2) by (cases "sn_main n i") (auto simp: in_call_def)
    then have "handlers_inv timeout dur n'"
      by (intro handlers_upd [OF h, of i]) (use at handle_return in auto)
    moreover have "in_sendResponse n' x hd b" if "in_sendResponse n x hd b" for x hd b
      using that handle_return by (cases x) auto
    ultimately show ?thesis by (rule rest) (simp_all add: handle_return(1))
  next
    case (handle_called i res hd b)
    note at = handlers_at [OF h, of i]
    have "handler_ok timeout dur (rq_h (sn_reqs n ! i)) HWaitSent (WSend hd b) []"
      unfolding handler_ok.simps by (rule exI [of _ res]) (simp add: handle_called(4))
    then have "handlers_inv timeout dur n'"
      by (intro handlers_upd [OF h, of i]) (use at handle_called in \<open>simp_all del: split_paired_Ex\<close>)
    moreover have "in_sendResponse n' x hd b" if "in_sendResponse n x hd b" for x hd b
      using that handle_called by (cases x) auto
    ultimately show ?thesis by (rule rest) (simp_all add: handle_called(1))
  next
    case (handle_timeout i)
    note at = handlers_at [OF h, of i]
    have "handlers_inv timeout dur n'"
      by (intro handlers_upd [OF h, of i]) (use at handle_timeout in auto)
    moreover have "in_sendResponse n' x hd b" if "in_sendResponse n x hd b" for x hd b
      using that handle_timeout by (cases x) auto
    ultimately show ?thesis by (rule rest) (simp_all add: handle_timeout(1))
  next
    case (handle_sent i)
    note at = handlers_at [OF h, of i]
    have "handlers_inv timeout dur n'"
      by (intro handlers_upd [OF h, of i]) (use at handle_sent in auto)
    moreover have "in_sendResponse n' x hd b" if "in_sendResponse n x hd b" for x hd b
      using that handle_sent by (cases x) auto
    ultimately show ?thesis by (rule rest) (simp_all add: handle_sent(1))
  qed
qed

subsubsection \<open>Sending\<close>

lemma output_lock:
  "output_inv n \<Longrightarrow> sn_sending n = None \<Longrightarrow> output_inv (n\<lparr>sn_sending := Some (x, h, b, False)\<rparr>)"
  by (cases "gc_open (sn_codec n)") (simp_all add: output_inv_def)

lemma output_header:
  assumes "output_inv n" and "sn_sending n = Some (x, h, b, False)"
  shows "output_inv (n\<lparr>sn_sending := Some (x, h, b, True), sn_codec := gob_Encode (MHeader h) (sn_codec n)\<rparr>)"
  using assms by (cases "gc_open (sn_codec n)") (simp_all add: output_inv_def gob_Encode_def)

lemma output_body:
  assumes "output_inv n" and "sn_sending n = Some (x, h, b, True)"
    and "sn_sending n' = None" and "sn_codec n' = snd (gob_Write_body enc b (sn_codec n))"
    and "sn_sent n' = sn_sent n @ [(x, h, b)]"
  shows "output_inv n'"
proof (cases "gc_open (sn_codec n)")
  case True
  then have out: "gc_out (sn_codec n) = frames (map snd (sn_sent n))" "gc_buf (sn_codec n) = [MHeader h]"
    using assms(1,2) by (simp_all add: output_inv_def)
  show ?thesis
  proof (cases "enc b")
    case None
    with True out assms(3-5) show ?thesis
      by (simp add: output_inv_def gob_Write_body_def gob_Flush_def gob_Encode_def frames_append)
  next
    case (Some e)
    then have "gc_out (sn_codec n') = frames (take (length (sn_sent n)) (map snd (sn_sent n'))) @ map MHeader [h]"
      "\<not> gc_open (sn_codec n')"
      using True out assms(4,5) by (simp_all add: gob_Write_body_def gob_Flush_def gob_Close_def)
    moreover have "length [h] \<le> 1" by simp
    ultimately show ?thesis unfolding output_inv_def by metis
  qed
next
  case False
  then obtain k hs where "gc_out (sn_codec n) = frames (take k (map snd (sn_sent n))) @ map MHeader hs" "length hs \<le> 1"
    using assms(1) by (auto simp: output_inv_def)
  moreover have "take (min k (length (sn_sent n))) (map snd (sn_sent n')) = take k (map snd (sn_sent n))"
    using assms(5) by (simp add: min_def)
  moreover have "gc_out (sn_codec n') = gc_out (sn_codec n)" "\<not> gc_open (sn_codec n')"
    using False assms(4) by (simp_all add: gob_Write_body_def gob_Flush_def gob_Encode_def gob_Close_def split: option.split)
  ultimately show ?thesis unfolding output_inv_def by metis
qed

lemma send_step_inv:
  assumes inv: "sv_inv timeout dur n" and "send_step enc n n'"
  shows "sv_inv timeout dur n'"
  using assms(2)
proof cases
  case (send_lock x h b)
  have "sending_inv n'" using send_lock(3) by (simp add: sending_inv_def send_lock(1))
  moreover have "handlers_inv timeout dur n'"
    using inv by (intro handlers_same [of timeout dur n n']) (simp_all add: sv_inv_def send_lock(1))
  ultimately show ?thesis
    using inv output_lock [OF _ send_lock(2)] by (simp add: sv_inv_def send_lock(1) loop_inv_def)
next
  case (send_header x h b)
  have "in_sendResponse n x h b" using inv sendingD [OF _ send_header(2)] by (simp add: sv_inv_def)
  then have "sending_inv n'" by (simp add: sending_inv_def send_header(1))
  moreover have "handlers_inv timeout dur n'"
    using inv by (intro handlers_same [of timeout dur n n']) (simp_all add: sv_inv_def send_header(1))
  moreover have "output_inv n'" using inv output_header [OF _ send_header(2)] by (simp add: sv_inv_def send_header(1))
  ultimately show ?thesis using inv by (simp add: sv_inv_def loop_inv_def send_header(1))
next
  case (send_body x h b)
  have h: "handlers_inv timeout dur n" and l: "loop_inv n" and here: "in_sendResponse n x h b"
    using inv sendingD [OF _ send_body(2)] by (simp_all add: sv_inv_def)
  have n': "sn_sending n' = None" "sn_codec n' = snd (gob_Write_body enc b (sn_codec n))"
    "sn_sent n' = sn_sent n @ [(x, h, b)]" "sn_reqs n' = sn_reqs n" "sn_bad n' = sn_bad n"
    by (cases x; simp add: send_body(1))+
  have resp: "responses n' i = responses n i @ (if handler_of x = i then [(h, b)] else [])" for i
    by (simp add: responses_def n'(3))
  have "sending_inv n'" by (simp add: sending_inv_def n'(1))
  moreover have "output_inv n'"
    using inv by (intro output_body [OF _ send_body(2) n'(1-3)]) (simp add: sv_inv_def)
  moreover have "loop_inv n'"
    using l here resp by (cases x) (auto simp: loop_inv_def send_body(1) n'(5))
  moreover have "handlers_inv timeout dur n'"
  proof (cases x)
    case LoopSender
    then show ?thesis by (intro handlers_same [OF h]) (simp_all add: resp, simp_all add: send_body(1))
  next
    case (MainSender i)
    then have pc: "sn_main n i = HSend h" "b = None" using here by simp_all
    with handlers_at [OF h, of i] MainSender show ?thesis
      by (intro handlers_upd [OF h, of i]) (simp_all add: resp, simp_all add: send_body(1))
  next
    case (WorkerSender i)
    then have pc: "sn_worker n i = WSend h b" using here by simp
    with handlers_at [OF h, of i] WorkerSender
    have "i < length (sn_reqs n)" "sn_main n i = HWaitSent" "responses n (Some i) = []"
      "\<exists>res. (h, b) = result_msg (rq_h (sn_reqs n ! i)) res"
      by (cases "sn_main n i"; auto simp: in_call_def prod_eq_iff)+
    moreover have "sn_main n' = sn_main n" "sn_worker n' = (sn_worker n)(i := WSent)"
      using WorkerSender by (simp_all add: send_body(1))
    ultimately show ?thesis
      by (intro handlers_upd [OF h, of i]) (auto simp: resp n'(4) WorkerSender)
  qed
  ultimately show ?thesis by (simp add: sv_inv_def)
qed

lemma sv_step_inv: "sv_inv timeout dur n \<Longrightarrow> sv_step s dec enc timeout dur n n' \<Longrightarrow> sv_inv timeout dur n'"
  by (auto simp: sv_step_def intro: loop_step_inv handle_step_inv send_step_inv)

interpretation serving: inductive_invariant sv_init "sv_step s dec enc timeout dur" "sv_inv timeout dur"
  for s dec enc timeout dur
  by unfold_locales (auto intro: sv_start_inv sv_step_inv)

subsection \<open>Every run ends\<close>

text \<open>A weight that every step decreases.\<close>

fun loop_weight :: "loop_pc \<Rightarrow> nat" where
  "loop_weight LRead = 2"
| "loop_weight (LReply h) = 5"
| "loop_weight LWait = 1"
| "loop_weight LClosed = 0"

fun main_weight :: "main_pc \<Rightarrow> nat" where
  "main_weight HNone = 0"
| "main_weight HSelect = 5"
| "main_weight (HSend h) = 4"
| "main_weight HTimedOut = 0"
| "main_weight HWaitSent = 1"
| "main_weight HDone = 0"

fun worker_weight :: "'r worker_pc \<Rightarrow> nat" where
  "worker_weight WNone = 0"
| "worker_weight WCall = 6"
| "worker_weight (WCalled res) = 5"
| "worker_weight (WSend h b) = 4"
| "worker_weight WSent = 1"
| "worker_weight WDone = 0"

definition sending_weight :: "(sender \<times> header \<times> 'r option \<times> bool) option \<Rightarrow> nat" where
  "sending_weight x = (case x of None \<Rightarrow> 2 | Some (_, _, _, w) \<Rightarrow> if w then 0 else 1)"

definition handler_weights :: "('a, 'b, 'r) sconn \<Rightarrow> nat" where
  "handler_weights n = (\<Sum>i < length (sn_reqs n). main_weight (sn_main n i) + worker_weight (sn_worker n i))"

definition sv_weight :: "('a, 'b, 'r) sconn \<Rightarrow> nat" where
  "sv_weight n = 20 * length (sn_in n) + loop_weight (sn_loop n) + sending_weight (sn_sending n) + handler_weights n"

lemma readRequest_length: "readRequest s dec ms = (Ret x, ms') \<Longrightarrow> length ms' \<le> length ms"
proof -
  have "gob_ReadHeader ms = (Inl e, ms1) \<Longrightarrow> length ms1 \<le> length ms" for e ms1
    by (cases ms rule: gob_ReadHeader.cases) auto
  then show "readRequest s dec ms = (Ret x, ms') \<Longrightarrow> length ms' \<le> length ms"
    using readRequest_shorter [of s dec ms]
    by (cases x) (auto simp: readRequest_def less_imp_le split: prod.splits sum.splits outcome.splits)
qed

lemma sum_upd:
  fixes f g :: "nat \<Rightarrow> nat"
  assumes "i < k" and "\<And>j. j \<noteq> i \<Longrightarrow> g j = f j"
  shows "(\<Sum>j<k. g j) + f i = (\<Sum>j<k. f j) + g i"
proof -
  have "(\<Sum>j\<in>{..<k} - {i}. g j) = (\<Sum>j\<in>{..<k} - {i}. f j)" by (rule sum.cong) (auto intro: assms(2))
  then show ?thesis using assms(1) by (simp add: sum.remove [of "{..<k}" i])
qed

lemma sv_start_weight: "sv_weight (sv_start ms) = 20 * length ms + 4"
  by (simp add: sv_weight_def sv_start_def handler_weights_def sending_weight_def)

text \<open>A step of one handler changes the sum by what it changes there.\<close>

lemma handler_weights_upd:
  assumes "i < length (sn_reqs n)" and "sn_reqs n' = sn_reqs n"
    and "\<And>j. j \<noteq> i \<Longrightarrow> sn_main n' j = sn_main n j \<and> sn_worker n' j = sn_worker n j"
  shows "handler_weights n' + (main_weight (sn_main n i) + worker_weight (sn_worker n i))
    = handler_weights n + (main_weight (sn_main n' i) + worker_weight (sn_worker n' i))"
  unfolding handler_weights_def assms(2)
  by (rule sum_upd [OF assms(1), of "\<lambda>j. main_weight (sn_main n' j) + worker_weight (sn_worker n' j)"
    "\<lambda>j. main_weight (sn_main n j) + worker_weight (sn_worker n j)"]) (use assms(3) in simp)

lemma handler_weights_same:
  "sn_reqs n' = sn_reqs n \<Longrightarrow> sn_main n' = sn_main n \<Longrightarrow> sn_worker n' = sn_worker n \<Longrightarrow>
   handler_weights n' = handler_weights n"
  by (simp add: handler_weights_def)

lemma loop_step_weight:
  assumes "handlers_inv timeout dur n" and "loop_step s dec n n'"
  shows "sv_weight n' < sv_weight n"
  using assms(2)
proof cases
  case (loop_request r rest)
  have "handler_weights n' = handler_weights n + 11"
    by (simp add: loop_request(1) handler_weights_def)
  with readRequest_shorter(2) [OF loop_request(3)] show ?thesis
    by (simp add: sv_weight_def loop_request(1))
next
  case (loop_bad h err rest)
  have "handler_weights n' = handler_weights n" by (rule handler_weights_same) (simp_all add: loop_bad(1))
  with readRequest_shorter(1) [OF loop_bad(3)] loop_bad(2) show ?thesis
    by (simp add: sv_weight_def loop_bad(1))
next
  case (loop_end err rest)
  have "handler_weights n' = handler_weights n" by (rule handler_weights_same) (simp_all add: loop_end(1))
  with readRequest_length [OF loop_end(3)] loop_end(2) show ?thesis
    by (simp add: sv_weight_def loop_end(1))
next
  case loop_broken
  have "handler_weights n' = handler_weights n" by (rule handler_weights_same) (simp_all add: loop_broken(1))
  with loop_broken(2) show ?thesis by (simp add: sv_weight_def loop_broken(1))
next
  case loop_close
  have "handler_weights n' = handler_weights n" by (rule handler_weights_same) (simp_all add: loop_close(1))
  with loop_close(2) show ?thesis by (simp add: sv_weight_def loop_close(1))
qed

lemma handle_step_weight:
  assumes h: "handlers_inv timeout dur n" and "handle_step timeout dur n n'"
  shows "sv_weight n' < sv_weight n"
  using assms(2)
proof cases
  case (handle_return i res)
  with handlers_at [OF h, of i] handler_weights_upd [of i n n'] show ?thesis by (simp add: sv_weight_def)
next
  case (handle_called i res hd b)
  with handlers_at [OF h, of i] handler_weights_upd [of i n n'] show ?thesis by (simp add: sv_weight_def)
next
  case (handle_timeout i)
  with handlers_at [OF h, of i] handler_weights_upd [of i n n'] show ?thesis by (simp add: sv_weight_def)
next
  case (handle_sent i)
  with handlers_at [OF h, of i] handler_weights_upd [of i n n'] show ?thesis by (simp add: sv_weight_def)
qed

lemma send_step_weight:
  assumes inv: "sv_inv timeout dur n" and "send_step enc n n'"
  shows "sv_weight n' < sv_weight n"
  using assms(2)
proof cases
  case (send_lock x h b)
  then show ?thesis by (simp add: sv_weight_def handler_weights_def sending_weight_def)
next
  case (send_header x h b)
  then show ?thesis by (simp add: sv_weight_def handler_weights_def sending_weight_def)
next
  case (send_body x h b)
  have h: "handlers_inv timeout dur n" and here: "in_sendResponse n x h b"
    using inv sendingD [OF _ send_body(2)] by (simp_all add: sv_inv_def)
  have w: "sending_weight (sn_sending n) = 0" using send_body(2) by (simp add: sending_weight_def)
  show ?thesis
  proof (cases x)
    case LoopSender
    have "handler_weights n' = handler_weights n"
      by (rule handler_weights_same) (simp_all add: send_body(1) LoopSender)
    with w here LoopSender show ?thesis by (simp add: sv_weight_def send_body(1) sending_weight_def)
  next
    case (MainSender i)
    with here handlers_at [OF h, of i] handler_weights_upd [of i n n'] w show ?thesis
      by (simp add: sv_weight_def send_body(1) sending_weight_def)
  next
    case (WorkerSender i)
    with here handlers_at [OF h, of i] handler_weights_upd [of i n n'] w show ?thesis
      by (simp add: sv_weight_def send_body(1) sending_weight_def)
  qed
qed

lemma sv_step_weight:
  "sv_inv timeout dur n \<Longrightarrow> sv_step s dec enc timeout dur n n' \<Longrightarrow> sv_weight n' < sv_weight n"
  unfolding sv_step_def
  using loop_step_weight handle_step_weight send_step_weight by (metis sv_inv_def)

lemma sv_steps_weight:
  "(sv_step s dec enc timeout dur ^^ k) n n' \<Longrightarrow> sv_inv timeout dur n \<Longrightarrow> k + sv_weight n' \<le> sv_weight n \<and> sv_inv timeout dur n'"
proof (induction k arbitrary: n')
  case 0
  then show ?case by simp
next
  case (Suc k)
  then obtain m where m: "(sv_step s dec enc timeout dur ^^ k) n m" "sv_step s dec enc timeout dur m n'" by auto
  with Suc.IH [OF m(1) Suc.prems(2)] sv_step_weight [of timeout dur m] sv_step_inv [of timeout dur m]
  show ?case by fastforce
qed

subsection \<open>Where a run ends\<close>

definition replies_are_pointers :: "server \<Rightarrow> bool" where
  "replies_are_pointers s \<longleftrightarrow>
     (\<forall>name sv m mt. serviceMap s name = Some sv \<and> sv_method sv m = Some mt \<longrightarrow> rt_Kind (mt_ReplyType mt) = PtrKind)"

lemma findService_reply:
  "replies_are_pointers s \<Longrightarrow> findService sm s = Inr (sv, mt) \<Longrightarrow> rt_Kind (mt_ReplyType mt) = PtrKind"
  by (auto simp: findService_def replies_are_pointers_def Let_def split: option.splits)

lemma readRequest_returns:
  assumes "replies_are_pointers s"
  shows "\<exists>x ms'. readRequest s dec ms = (Ret x, ms')"
proof (cases "gob_ReadHeader ms")
  case (Pair r ms1)
  show ?thesis
  proof (cases r)
    case (Inl e)
    with Pair show ?thesis by (simp add: readRequest_def)
  next
    case r: (Inr h)
    show ?thesis
    proof (cases "findService (h_ServiceMethod h) s")
      case (Inl e)
      with Pair r show ?thesis by (simp add: readRequest_def)
    next
      case (Inr found)
      obtain sv mt where found: "found = (sv, mt)" by (cases found)
      with Inr have "rt_Kind (mt_ReplyType mt) = PtrKind" using findService_reply [OF assms] by simp
      then obtain e where "rt_Elem (mt_ReplyType mt) = Ret e" using ptr_kind by blast
      then obtain rv where "newReplyv mt = Ret rv" using newReplyv_type by blast
      moreover obtain a where "newArgv mt = Ret a" using newArgv_assignable by blast
      ultimately show ?thesis
        using Pair r Inr found by (simp add: readRequest_def split: prod.split sum.split)
    qed
  qed
qed

text \<open>As long as a connection is not closed and every handler at its end, some goroutine can go on.\<close>

definition all_handled :: "('a, 'b, 'r) sconn \<Rightarrow> bool" where
  "all_handled n \<longleftrightarrow> (\<forall>i < length (sn_reqs n).
     (sn_main n i = HDone \<and> sn_worker n i = WDone) \<or> (sn_main n i = HTimedOut \<and> (\<exists>res. sn_worker n i = WCalled res)))"

lemma sending_steps: "sn_sending n \<noteq> None \<Longrightarrow> \<exists>n'. send_step enc n n'"
proof -
  assume "sn_sending n \<noteq> None"
  then obtain x h b w where s: "sn_sending n = Some (x, h, b, w)" by auto
  show ?thesis
  proof (cases w)
    case True
    with s send_body [of n x h b enc] show ?thesis by auto
  next
    case False
    with s send_header [of n x h b enc] show ?thesis by auto
  qed
qed

text \<open>A handler is at its end if only returning calls could go on.\<close>

lemma handler_at_end:
  assumes h: "handlers_inv timeout dur n" and i: "i < length (sn_reqs n)" and returned: "sn_worker n i \<noteq> WCall"
    and none: "\<And>n'. handle_step timeout dur n n' \<Longrightarrow> \<exists>j. sn_worker n j = WCall \<and> sn_worker n' j \<noteq> WCall"
      "\<nexists>n'. send_step enc n n'"
  shows "(sn_main n i = HDone \<and> sn_worker n i = WDone) \<or> (sn_main n i = HTimedOut \<and> (\<exists>res. sn_worker n i = WCalled res))"
proof -
  have free: "sn_sending n = None" using sending_steps none(2) by blast
  have ok: "handler_ok timeout dur (rq_h (sn_reqs n ! i)) (sn_main n i) (sn_worker n i) (responses n (Some i))"
    using h i by (simp add: handlers_inv_def)
  note returned
  moreover have "\<not> (sn_main n i = HSelect \<and> sn_worker n i = WCalled res)" for res
  proof
    assume at: "sn_main n i = HSelect \<and> sn_worker n i = WCalled res"
    obtain hd b where "result_msg (rq_h (sn_reqs n ! i)) res = (hd, b)" by fastforce
    from none(1) [OF handle_called [OF _ _ this]] at show False by (auto split: if_splits)
  qed
  moreover have "\<not> (sn_main n i = HWaitSent \<and> sn_worker n i = WSent)"
    using none(1) [OF handle_sent, of i] by (auto split: if_splits)
  moreover have "sn_main n i \<noteq> HSend hd" for hd
    using none(2) send_lock [OF free, of "MainSender i" hd None] by auto
  moreover have "sn_worker n i \<noteq> WSend hd b" for hd b
    using none(2) send_lock [OF free, of "WorkerSender i" hd b] by auto
  ultimately show ?thesis using ok by (cases "sn_main n i") (auto simp: in_call_def)
qed

lemma handler_steps:
  assumes "handlers_inv timeout dur n" and "i < length (sn_reqs n)"
    and "\<nexists>n'. handle_step timeout dur n n'" and "\<nexists>n'. send_step enc n n'"
  shows "(sn_main n i = HDone \<and> sn_worker n i = WDone) \<or> (sn_main n i = HTimedOut \<and> (\<exists>res. sn_worker n i = WCalled res))"
proof (rule handler_at_end [OF assms(1,2) _ _ assms(4)])
  show "sn_worker n i \<noteq> WCall" using assms(3) handle_return by blast
qed (use assms(3) in blast)

lemma final_state:
  assumes inv: "sv_inv timeout dur n" and ptrs: "replies_are_pointers s"
    and none: "\<nexists>n'. sv_step s dec enc timeout dur n n'"
  shows "sn_loop n = LClosed \<and> all_handled n"
proof
  have no: "\<nexists>n'. handle_step timeout dur n n'" "\<nexists>n'. send_step enc n n'" "\<nexists>n'. loop_step s dec n n'"
    using none by (auto simp: sv_step_def)
  show all: "all_handled n"
    unfolding all_handled_def using handler_steps [OF _ _ no(1,2)] inv by (simp add: sv_inv_def)
  have free: "sn_sending n = None" using sending_steps no(2) by blast
  have "sn_loop n \<noteq> LReply h" for h
    using no(2) send_lock [OF free, of LoopSender h None] by auto
  moreover have "sn_loop n \<noteq> LRead"
  proof
    assume l: "sn_loop n = LRead"
    obtain x rest where r: "readRequest s dec (sn_in n) = (Ret x, rest)"
      using readRequest_returns [OF ptrs] by blast
    from no(3) l r show False by (cases x) (blast intro: loop_request loop_bad loop_end)+
  qed
  moreover have "sn_loop n \<noteq> LWait"
    using no(3) all loop_close [of n s dec] by (auto simp: all_handled_def)
  ultimately show "sn_loop n = LClosed" by (cases "sn_loop n") auto
qed

subsection \<open>What is handled\<close>

text \<open>
  With replies that can all be encoded the connection stays open until the end, and the
  requests handled and answered with an error are those of \<open>read_requests\<close>.
\<close>

definition reads_inv :: "server \<Rightarrow> (rtype \<Rightarrow> 'a \<Rightarrow> goerror + 'b) \<Rightarrow> 'a message list \<Rightarrow> ('a, 'b, 'r) sconn \<Rightarrow> bool" where
  "reads_inv s dec ms n \<longleftrightarrow> (sn_loop n \<noteq> LClosed \<longrightarrow> gc_open (sn_codec n)) \<and>
     (let left = (if sn_loop n \<in> {LWait, LClosed} then [] else read_requests s dec (sn_in n))
      in sn_reqs n @ valid_requests left = valid_requests (read_requests s dec ms) \<and>
         sn_bad n @ invalid_requests left = invalid_requests (read_requests s dec ms))"

lemma read_requests_unfold:
  "readRequest s dec ms = (Ret (GoodRequest r), rest) \<Longrightarrow> read_requests s dec ms = Inl r # read_requests s dec rest"
  "readRequest s dec ms = (Ret (BadRequest h err), rest) \<Longrightarrow> read_requests s dec ms = Inr (h, err) # read_requests s dec rest"
  "readRequest s dec ms = (Ret (NoRequest err), rest) \<Longrightarrow> read_requests s dec ms = []"
  by (simp_all add: read_requests.simps [of s dec ms])

lemma reads_cong:
  "reads_inv s dec ms n \<Longrightarrow> sn_loop n' = sn_loop n \<Longrightarrow> gc_open (sn_codec n') = gc_open (sn_codec n) \<Longrightarrow>
   sn_in n' = sn_in n \<Longrightarrow> sn_reqs n' = sn_reqs n \<Longrightarrow> sn_bad n' = sn_bad n \<Longrightarrow> reads_inv s dec ms n'"
  unfolding reads_inv_def by (intro conjI; elim conjE; simp only:)

lemma reads_step:
  assumes inv: "reads_inv s dec ms n" and step: "sv_step s dec (\<lambda>_. None) timeout dur n n'"
    and sends: "sending_inv n"
  shows "reads_inv s dec ms n'"
proof -
  consider "loop_step s dec n n'" | "handle_step timeout dur n n'" | "send_step (\<lambda>_. None) n n'"
    using step by (auto simp: sv_step_def)
  then show ?thesis
  proof cases
    case 1
    then show ?thesis
    proof cases
      case (loop_request r rest)
      with inv read_requests_unfold(1) [OF loop_request(3)] show ?thesis by (simp add: reads_inv_def)
    next
      case (loop_bad h err rest)
      with inv read_requests_unfold(2) [OF loop_bad(3)] show ?thesis by (simp add: reads_inv_def)
    next
      case (loop_end err rest)
      with inv read_requests_unfold(3) [OF loop_end(3)] show ?thesis by (simp add: reads_inv_def)
    next
      case loop_broken
      with inv show ?thesis by (simp add: reads_inv_def)
    next
      case loop_close
      with inv show ?thesis by (simp add: reads_inv_def)
    qed
  next
    case 2
    then show ?thesis by cases (rule reads_cong [OF inv]; simp)+
  next
    case 3
    then show ?thesis
    proof cases
      case (send_body x h b)
      have "gc_open (snd (gob_Write_body (\<lambda>_. None) b g)) = gc_open g" for g :: "'c option gob_codec"
        by (simp add: gob_Write_body_def gob_Flush_def gob_Encode_def)
      with inv sendingD [OF sends send_body(2)] show ?thesis
        by (cases x) (auto simp: reads_inv_def send_body(1) Let_def)
    qed (rule reads_cong [OF inv]; simp add: gob_Encode_def)+
  qed
qed

interpretation reading: inductive_invariant "\<lambda>n. n = sv_start ms" "sv_step s dec (\<lambda>_. None) timeout dur"
    "\<lambda>n. sv_inv timeout dur n \<and> reads_inv s dec ms n" for s dec timeout dur ms
proof
  show "sv_inv timeout dur n \<and> reads_inv s dec ms n" if "n = sv_start ms" for n
    using that by (auto simp: reads_inv_def sv_start_def NewGobCodec_def sv_init_def intro!: sv_start_inv)
  show "sv_inv timeout dur n' \<and> reads_inv s dec ms n'"
    if "sv_inv timeout dur n \<and> reads_inv s dec ms n" "sv_step s dec (\<lambda>_. None) timeout dur n n'" for n n'
    using that sv_step_inv [of timeout dur n s dec _ n'] reads_step [of s dec ms n timeout dur n']
    by (simp add: sv_inv_def)
qed

subsection \<open>A request served\<close>

definition foo_server :: server where
  "foo_server = \<lparr>serviceMap = [''Foo'' \<mapsto> foo_service\<lparr>sv_method := (sv_method foo_service)(''Value'' := None)\<rparr>]\<rparr>"

definition sum_header :: header where
  "sum_header = \<lparr>h_ServiceMethod = ''Foo.Sum'', h_Seq = 1, h_Err = ''''\<rparr>"

definition plain_dec :: "rtype \<Rightarrow> nat \<Rightarrow> goerror + nat" where
  "plain_dec t v = Inr v"

definition sum_request :: "nat request" where
  "sum_request =
     \<lparr>rq_h = sum_header, rq_svc = foo_service\<lparr>sv_method := (sv_method foo_service)(''Value'' := None)\<rparr>,
      rq_mType = method_entry foo_Sum, rq_argv = 7, rq_replyv = NewV (ZeroV int_type)\<rparr>"

lemma sum_found: "findService ''Foo.Sum'' foo_server = Inr (rq_svc sum_request, method_entry foo_Sum)"
  by (simp add: findService_def foo_server_def foo_entries Let_def sum_request_def)

lemma sum_read: "readRequest foo_server plain_dec (frames [(sum_header, 7)]) = (Ret (GoodRequest sum_request), [])"
proof -
  have "newArgv (method_entry foo_Sum) = Ret (ZeroV (DefT ''surpc'' ''Args'' (OtherT 0)))"
    "newReplyv (method_entry foo_Sum) = Ret (NewV (ZeroV int_type))"
    by (simp_all add: newArgv_def newReplyv_def method_entry_def foo_defs)
  then show ?thesis
    using sum_found by (simp add: readRequest_def plain_dec_def sum_header_def sum_request_def)
qed

lemma foo_server_pointers: "replies_are_pointers foo_server"
proof -
  have "sv_method foo_service = [''Sum'' \<mapsto> method_entry foo_Sum, ''Value'' \<mapsto> method_entry foo_Value]"
    by (simp add: foo_service_def registerMethods_def foo_def foo_register_loop)
  then show ?thesis
    by (auto simp: replies_are_pointers_def foo_server_def method_entry_def foo_defs split: if_splits)
qed

text \<open>
  The states of a connection with one request, and its run when the call returns the reply \<open>v\<close>;
  \<open>step\<close> is a restriction of the step relation that allows this result.
\<close>

definition one_state ::
  "'b request \<Rightarrow> loop_pc \<Rightarrow> main_pc \<Rightarrow> 'r worker_pc \<Rightarrow> (sender \<times> header \<times> 'r option \<times> bool) option \<Rightarrow>
   'r option gob_codec \<Rightarrow> (sender \<times> header \<times> 'r option) list \<Rightarrow> ('a, 'b, 'r) sconn" where
  "one_state r l m w x g sent =
     \<lparr>sn_in = [], sn_loop = l, sn_reqs = [r], sn_main = (\<lambda>_. HNone)(0 := m),
      sn_worker = (\<lambda>_. WNone)(0 := w), sn_sending = x, sn_codec = g, sn_bad = [], sn_sent = sent\<rparr>"

definition one_out :: "header \<Rightarrow> 'r \<Rightarrow> bool \<Rightarrow> 'r option gob_codec" where
  "one_out h v open = \<lparr>gc_out = frames [(h, Some v)], gc_buf = [], gc_open = open\<rparr>"

definition one_answered :: "'b request \<Rightarrow> 'r \<Rightarrow> ('a, 'b, 'r) sconn" where
  "one_answered r v =
     one_state r LRead HDone WDone None (one_out (rq_h r) v True) [(WorkerSender 0, rq_h r, Some v)]"

definition one_served :: "'b request \<Rightarrow> 'r \<Rightarrow> ('a, 'b, 'r) sconn" where
  "one_served r v =
     one_state r LClosed HDone WDone None (one_out (rq_h r) v False) [(WorkerSender 0, rq_h r, Some v)]"

lemma one_answer_run:
  fixes r :: "'b request" and v :: 'r and step :: "('a, 'b, 'r) sconn \<Rightarrow> ('a, 'b, 'r) sconn \<Rightarrow> bool"
  assumes read: "readRequest s dec (frames [(rq_h r, a)]) = (Ret (GoodRequest r), [])"
    and step: "\<And>n n'. sv_step s dec (\<lambda>_. None) 0 '''' n n' \<Longrightarrow>
      (\<And>i res. sn_worker n i = WCall \<Longrightarrow> sn_worker n' i = WCalled res \<Longrightarrow>
         i = 0 \<and> sn_reqs n = [r] \<and> res = (None, v)) \<Longrightarrow> sn_loop n' = LRead \<Longrightarrow> step n n'"
  shows "(step ^^ 7) (sv_start (frames [(rq_h r, a)])) (one_answered r v)"
proof -
  let ?sent = "[(WorkerSender 0, rq_h r, Some v)]"
  let ?held = "\<lambda>w. Some (WorkerSender 0, rq_h r, Some v, w)"
  let ?start = "sv_start (frames [(rq_h r, a)]) :: ('a, 'b, 'r) sconn"
  let ?s1 = "one_state r LRead HSelect WCall None NewGobCodec [] :: ('a, 'b, 'r) sconn"
  let ?s2 = "one_state r LRead HSelect (WCalled (None, v)) None NewGobCodec [] :: ('a, 'b, 'r) sconn"
  let ?s3 = "one_state r LRead HWaitSent (WSend (rq_h r) (Some v)) None NewGobCodec [] :: ('a, 'b, 'r) sconn"
  let ?s4 = "one_state r LRead HWaitSent (WSend (rq_h r) (Some v)) (?held False) NewGobCodec [] :: ('a, 'b, 'r) sconn"
  let ?s5 = "one_state r LRead HWaitSent (WSend (rq_h r) (Some v)) (?held True)
    (gob_Encode (MHeader (rq_h r)) NewGobCodec) [] :: ('a, 'b, 'r) sconn"
  let ?s6 = "one_state r LRead HWaitSent WSent None (one_out (rq_h r) v True) ?sent :: ('a, 'b, 'r) sconn"
  note run = sv_step_def one_state_def
  have "sv_step s dec (\<lambda>_. None) 0 '''' ?start ?s1"
    using loop_request [of ?start s dec r "[]"] read by (simp add: run sv_start_def del: frames.simps)
  then have "step ?start ?s1" by (rule step) (simp_all add: sv_start_def one_state_def)
  moreover have "sv_step s dec (\<lambda>_. None) 0 '''' ?s1 ?s2"
    using handle_return [of ?s1 0 0 "''''" "(None, v)"] by (simp add: run)
  then have "step ?s1 ?s2" by (rule step) (auto simp: one_state_def split: if_splits)
  moreover have "sv_step s dec (\<lambda>_. None) 0 '''' ?s2 ?s3"
    using handle_called [of ?s2 0 "(None, v)" "rq_h r" "Some v" 0 "''''"] by (simp add: run result_msg_def)
  then have "step ?s2 ?s3" by (rule step) (auto simp: one_state_def split: if_splits)
  moreover have "sv_step s dec (\<lambda>_. None) 0 '''' ?s3 ?s4"
    using send_lock [of ?s3 "WorkerSender 0" "rq_h r" "Some v" "\<lambda>_. None"] by (simp add: run)
  then have "step ?s3 ?s4" by (rule step) (auto simp: one_state_def split: if_splits)
  moreover have "sv_step s dec (\<lambda>_. None) 0 '''' ?s4 ?s5"
    using send_header [of ?s4 "WorkerSender 0" "rq_h r" "Some v" "\<lambda>_. None"] by (simp add: run)
  then have "step ?s4 ?s5" by (rule step) (auto simp: one_state_def split: if_splits)
  moreover have "sv_step s dec (\<lambda>_. None) 0 '''' ?s5 ?s6"
    using send_body [of ?s5 "WorkerSender 0" "rq_h r" "Some v" "\<lambda>_. None"]
    by (simp add: run gob_Write_body_def gob_Flush_def gob_Encode_def NewGobCodec_def one_out_def)
  then have "step ?s5 ?s6" by (rule step) (auto simp: one_state_def split: if_splits)
  moreover have "sv_step s dec (\<lambda>_. None) 0 '''' ?s6 (one_answered r v)"
    using handle_sent [of ?s6 0 0 "''''"] by (simp add: run one_answered_def)
  then have "step ?s6 (one_answered r v)"
    by (rule step) (auto simp: one_answered_def one_state_def split: if_splits)
  moreover have "(7 :: nat) = Suc (Suc (Suc (Suc (Suc (Suc (Suc 0))))))" by simp
  ultimately show ?thesis by (simp only: relpowp.simps) blast
qed

text \<open>Then the connection ends.\<close>

lemma one_run:
  fixes r :: "'b request" and v :: 'r and step :: "('a, 'b, 'r) sconn \<Rightarrow> ('a, 'b, 'r) sconn \<Rightarrow> bool"
  assumes read: "readRequest s dec (frames [(rq_h r, a)]) = (Ret (GoodRequest r), [])"
    and step: "\<And>n n'. sv_step s dec (\<lambda>_. None) 0 '''' n n' \<Longrightarrow>
      (\<And>i res. sn_worker n i = WCall \<Longrightarrow> sn_worker n' i = WCalled res \<Longrightarrow>
         i = 0 \<and> sn_reqs n = [r] \<and> res = (None, v)) \<Longrightarrow> step n n'"
  shows "(step ^^ 9) (sv_start (frames [(rq_h r, a)])) (one_served r v)"
proof -
  let ?sent = "[(WorkerSender 0, rq_h r, Some v)]"
  let ?s7 = "one_answered r v :: ('a, 'b, 'r) sconn"
  let ?s8 = "one_state r LWait HDone WDone None (one_out (rq_h r) v True) ?sent :: ('a, 'b, 'r) sconn"
  note run = sv_step_def one_state_def one_answered_def
  have "(step ^^ 7) (sv_start (frames [(rq_h r, a)])) ?s7"
    by (rule one_answer_run [OF read]) (blast intro: step)
  moreover have "sv_step s dec (\<lambda>_. None) 0 '''' ?s7 ?s8"
    using loop_end [of ?s7 s dec "''EOF''" "[]"] by (simp add: run readRequest_def)
  then have "step ?s7 ?s8" by (rule step) (auto simp: one_state_def one_answered_def split: if_splits)
  moreover have "sv_step s dec (\<lambda>_. None) 0 '''' ?s8 (one_served r v)"
    using loop_close [of ?s8 s dec] by (simp add: run one_served_def one_out_def gob_Close_def)
  then have "step ?s8 (one_served r v)"
    by (rule step) (auto simp: one_served_def one_state_def split: if_splits)
  moreover have "(9 :: nat) = Suc (Suc 7)" by simp
  ultimately show ?thesis by (simp only: relpowp.simps) blast
qed

abbreviation foo_step :: "(nat, nat, nat) sconn \<Rightarrow> (nat, nat, nat) sconn \<Rightarrow> bool" where
  "foo_step \<equiv> sv_step foo_server plain_dec (\<lambda>_. None) 0 ''''"

definition sum_served :: "(nat, nat, nat) sconn" where
  "sum_served = one_served sum_request 42"

lemmas sum_served_defs = sum_served_def one_served_def one_state_def

lemma sum_request_header: "rq_h sum_request = sum_header"
  by (simp add: sum_request_def)

lemma sum_run: "(foo_step ^^ 9) (sv_start (frames [(sum_header, 7)])) sum_served"
  unfolding sum_served_def sum_request_header [symmetric]
  by (rule one_run) (simp_all only: sum_request_header sum_read)

lemma sum_reach: "reach sv_init foo_step sum_served"
proof (rule serving.reach_steps [OF _ relpowp_imp_rtranclp [OF sum_run]])
  show "reach sv_init foo_step (sv_start (frames [(sum_header, 7)]))"
    by (rule reach_init) (auto simp: sv_init_def)
qed

lemma sum_final: "\<nexists>n'. foo_step sum_served n'"
  by (auto simp: sv_step_def sum_served_defs elim!: sv_stepE
    elim: in_sendResponseE split: if_splits)

theorem requests_read_witness:
  "\<exists>rs. read_requests foo_server plain_dec (frames ([(sum_header, 7)] @ (sum_header\<lparr>h_ServiceMethod := ''Foo.Min''\<rparr>, 8)
      # [(sum_header, 9)])) = map Inl rs @ [Inr (sum_header\<lparr>h_ServiceMethod := ''Foo.Min''\<rparr>,
      ''rpc server: can not find method: Min'')]"
proof -
  have "findService ''Foo.Min'' foo_server = Inl ''rpc server: can not find method: Min''"
    by (simp add: findService_def foo_server_def foo_no_Min Let_def)
  moreover obtain rs where "\<forall>h b later e. findService (h_ServiceMethod h) foo_server = Inl e \<longrightarrow>
      read_requests foo_server plain_dec (frames ([(sum_header, 7)] @ (h, b) # later)) = map Inl rs @ [Inr (h, e)]"
    using requests_read [of "[(sum_header, 7)]" foo_server plain_dec] sum_read by (metis empty_iff empty_set set_ConsD)
  ultimately show ?thesis by (intro exI [of _ rs]) (simp del: frames.simps append.simps)
qed

lemma handler_responses:
  "handler_ok timeout dur h0 m w as \<Longrightarrow>
   as = [] \<or> (timeout \<noteq> 0 \<and> as = [(timeout_header dur h0, None)]) \<or> (\<exists>res. as = [result_msg h0 res])"
  by (cases m) (simp_all del: split_paired_Ex, blast+)

subsection \<open>What a client of the server can rely on\<close>



text \<open>
  Property C11. Serving terminates: however the goroutines interleave, a run on a connection that
  delivers a finite number of values takes a bounded number of steps. When the methods reply
  through pointers and the replies can be encoded, a run that cannot go on has closed the
  connection, after exactly the requests of \<open>read_requests\<close> were handled, each with exactly one
  response, and each invalid one was answered. The worker of a request that timed out is left
  blocked forever.
\<close>

theorem server_terminates:
  assumes "(sv_step s dec (\<lambda>_. None) timeout dur ^^ k) (sv_start ms) n" and "replies_are_pointers s"
  shows "k \<le> 20 * length ms + 4 \<and>
    ((\<nexists>n'. sv_step s dec (\<lambda>_. None) timeout dur n n') \<longrightarrow>
       sn_loop n = LClosed \<and> sn_reqs n = valid_requests (read_requests s dec ms) \<and>
       responses n None = map (\<lambda>(h, err). (h\<lparr>h_Err := err\<rparr>, None)) (invalid_requests (read_requests s dec ms)) \<and>
       (\<forall>i < length (sn_reqs n). length (responses n (Some i)) = 1 \<and>
          (sn_main n i = HTimedOut \<longrightarrow> (\<exists>res. sn_worker n i = WCalled res))))"
proof (intro conjI impI)
  have init: "sv_inv timeout dur (sv_start ms)" by (rule sv_start_inv) (auto simp: sv_init_def)
  from sv_steps_weight [OF assms(1) init] show "k \<le> 20 * length ms + 4" by (simp add: sv_start_weight)
  assume none: "\<nexists>n'. sv_step s dec (\<lambda>_. None) timeout dur n n'"
  have "reach (\<lambda>n. n = sv_start ms) (sv_step s dec (\<lambda>_. None) timeout dur) n"
    using reading.reach_steps [OF _ relpowp_imp_rtranclp [OF assms(1)]] by (simp add: reach_init)
  then have inv: "sv_inv timeout dur n" "reads_inv s dec ms n" using reading.inv_reach by blast+
  from final_state [OF inv(1) assms(2) none] have l: "sn_loop n = LClosed" and a: "all_handled n" by simp_all
  then show "sn_loop n = LClosed" by simp
  from inv(2) l have r: "sn_reqs n = valid_requests (read_requests s dec ms)"
    "sn_bad n = invalid_requests (read_requests s dec ms)" by (simp_all add: reads_inv_def)
  then show "sn_reqs n = valid_requests (read_requests s dec ms)" by simp
  from inv(1) l r(2) show "responses n None
      = map (\<lambda>(h, err). (h\<lparr>h_Err := err\<rparr>, None)) (invalid_requests (read_requests s dec ms))"
    by (simp add: sv_inv_def loop_inv_def)
  have h: "handlers_inv timeout dur n" using inv(1) by (simp add: sv_inv_def)
  show "\<forall>i < length (sn_reqs n). length (responses n (Some i)) = 1 \<and>
          (sn_main n i = HTimedOut \<longrightarrow> (\<exists>res. sn_worker n i = WCalled res))"
  proof (intro allI impI)
    fix i assume i: "i < length (sn_reqs n)"
    then have "handler_ok timeout dur (rq_h (sn_reqs n ! i)) (sn_main n i) (sn_worker n i) (responses n (Some i))"
      using h by (simp add: handlers_inv_def)
    moreover have "(sn_main n i = HDone \<and> sn_worker n i = WDone) \<or>
        (sn_main n i = HTimedOut \<and> (\<exists>res. sn_worker n i = WCalled res))"
      using a i by (simp add: all_handled_def)
    ultimately show "length (responses n (Some i)) = 1 \<and>
        (sn_main n i = HTimedOut \<longrightarrow> (\<exists>res. sn_worker n i = WCalled res))"
      by (elim disjE conjE exE) auto
  qed
qed

theorem server_terminates_witness:
  "9 \<le> 20 * length (frames [(sum_header, 7 :: nat)]) + 4 \<and> length (responses sum_served (Some 0)) = 1 \<and>
   sn_reqs sum_served = valid_requests (read_requests foo_server plain_dec (frames [(sum_header, 7)]))"
proof -
  have "length (sn_reqs sum_served) = 1" by (simp add: sum_served_defs)
  then show ?thesis using server_terminates [OF sum_run foo_server_pointers] sum_final by auto
qed

subsection \<open>ServeHTTP\<close>

definition connected :: string where
  "connected = ''200 connected to SuRPC''"

definition defaultRPCPath :: string where
  "defaultRPCPath = ''/_surpc_''"

text \<open>
  The response to a request with method \<open>meth\<close>; \<open>hijack\<close> is the error of taking over the
  connection, if any. When it was taken over, the second component is what is written to it
  before \<^verbatim>\<open>ServeConn\<close> is called with it.
\<close>

definition server_ServeHTTP :: "string \<Rightarrow> goerror option \<Rightarrow> response_writer \<times> string option" where
  "server_ServeHTTP meth hijack =
     (if meth \<noteq> ''CONNECT'' then
        (rw_finish (rw_Write ''405 Method Not Allowed''
          (rw_WriteHeader 405 (rw_Set ''Content-Type'' ''text/plain; charset=utf-8'' rw_new))), None)
      else case hijack of
          Some err \<Rightarrow> (rw_finish rw_new, None)
        | None \<Rightarrow> (rw_new, Some ('' HTTP/1.0 '' @ connected @ [CHR 0x0A, CHR 0x0A])))"

definition defaultDebugPath :: string where
  "defaultDebugPath = ''/debug/surpc''"

text \<open>\<^verbatim>\<open>HandleHTTP\<close> registers the server and its debug page with \<^verbatim>\<open>http.DefaultServeMux\<close>.\<close>

definition server_HandleHTTP :: "'h \<Rightarrow> 'h \<Rightarrow> ('h mux, unit) stm" where
  "server_HandleHTTP s debug =
     stm_bind (http_Handle defaultRPCPath s) (\<lambda>_. http_Handle defaultDebugPath debug)"

text \<open>
  A second server of the process cannot be registered, and the registry can be registered beside
  a server, since its path is another one.
\<close>

lemma HandleHTTP_once:
  assumes "m defaultRPCPath = None" and "m defaultDebugPath = None"
  shows "server_HandleHTTP s d m = (Ret (), m(defaultRPCPath \<mapsto> s, defaultDebugPath \<mapsto> d))"
    and "server_HandleHTTP s' d' (snd (server_HandleHTTP s d m))
      = (Panic (''http: multiple registrations for '' @ defaultRPCPath), snd (server_HandleHTTP s d m))"
  using assms
  by (simp_all add: server_HandleHTTP_def stm_simps stm_bind_def http_Handle_def defaultRPCPath_def defaultDebugPath_def)

lemma HandleHTTP_with_registry:
  assumes "m defaultRPCPath = None" and "m defaultDebugPath = None" and "m defaultPath = None"
  shows "fst (registry_HandleHTTP r defaultPath (snd (server_HandleHTTP s d m))) = Ret ()"
proof -
  have "defaultPath \<noteq> defaultRPCPath" "defaultPath \<noteq> defaultDebugPath" "defaultPath \<noteq> ''''"
    by (simp_all add: defaultPath_def defaultRPCPath_def defaultDebugPath_def)
  then show ?thesis
    unfolding HandleHTTP_once(1) [OF assms(1,2)] using assms(3) by (simp add: registry_HandleHTTP_def stm_simps)
qed

subsection \<open>The debug page\<close>

text \<open>
  \<^verbatim>\<open>SuRPC/debug.go\<close>. \<open>order\<close> is the order in which \<^verbatim>\<open>serviceMap.Range\<close> visits the services;
  \<open>execute\<close> is the execution of the HTML template, what it writes and its error.
\<close>

record debugService =
  ds_Name :: string
  ds_Method :: "string \<rightharpoonup> methodType"

definition debug_services :: "string list \<Rightarrow> server \<Rightarrow> debugService list" where
  "debug_services order s =
     fold (\<lambda>name services.
       case serviceMap s name of
         None \<Rightarrow> services
       | Some svc \<Rightarrow> services @ [\<lparr>ds_Name = name, ds_Method = sv_method svc\<rparr>]) order []"

definition debug_ServeHTTP ::
  "(debugService list \<Rightarrow> string \<times> goerror option) \<Rightarrow> string list \<Rightarrow> server \<Rightarrow> response_writer" where
  "debug_ServeHTTP execute order s =
     (case execute (debug_services order s) of (out, err) \<Rightarrow>
        (let w = (if out = '''' then rw_new else rw_Write out rw_new)
         in case err of
              None \<Rightarrow> rw_finish w
            | Some e \<Rightarrow> rw_finish (rw_Write (''rpc: error excuting template:  '' @ e @ [CHR 0x0A]) w)))"

text \<open>
  The page shows every registered service once, under its name and with the methods that
  \<^verbatim>\<open>findService\<close> finds in it. An error of the template is appended to a response whose status
  is 200.
\<close>

lemma debug_services_eq:
  "debug_services order s
    = map (\<lambda>name. \<lparr>ds_Name = name, ds_Method = sv_method (the (serviceMap s name))\<rparr>)
        (filter (\<lambda>name. serviceMap s name \<noteq> None) order)"
proof -
  have "fold (\<lambda>name services. case serviceMap s name of None \<Rightarrow> services
          | Some svc \<Rightarrow> services @ [\<lparr>ds_Name = name, ds_Method = sv_method svc\<rparr>]) xs acc
      = acc @ map (\<lambda>name. \<lparr>ds_Name = name, ds_Method = sv_method (the (serviceMap s name))\<rparr>)
        (filter (\<lambda>name. serviceMap s name \<noteq> None) xs)" for xs acc
    by (induction xs arbitrary: acc) (auto split: option.split)
  then show ?thesis by (simp add: debug_services_def)
qed

lemma debug_page_lists:
  assumes "distinct order" and "set order = dom (serviceMap s)"
  shows "map ds_Name (debug_services order s) = order"
    and "ds \<in> set (debug_services order s) \<Longrightarrow> ds_Method ds n = Some mt \<Longrightarrow> CHR ''.'' \<notin> set n \<Longrightarrow>
      \<exists>sv. findService (ds_Name ds @ ''.'' @ n) s = Inr (sv, mt)"
proof -
  have all: "filter (\<lambda>name. serviceMap s name \<noteq> None) order = order"
    using assms(2) by (auto simp: filter_id_conv dom_def)
  show "map ds_Name (debug_services order s) = order" unfolding debug_services_eq all by (simp add: comp_def)
  assume "ds \<in> set (debug_services order s)" "ds_Method ds n = Some mt" and n: "CHR ''.'' \<notin> set n"
  then obtain name sv where sv: "serviceMap s name = Some sv" "ds_Name ds = name" "sv_method sv n = Some mt"
    unfolding debug_services_eq all using assms(2) by auto
  have "lastIndex (CHR ''.'') (name @ ''.'' @ n) = Some (length name)"
    using n by (simp add: lastIndex_append)
  with sv show "\<exists>sv. findService (ds_Name ds @ ''.'' @ n) s = Inr (sv, mt)"
    by (auto simp: findService_def Let_def)
qed

lemma debug_error_status:
  "rw_sent (debug_ServeHTTP execute order s) = Some (200, Map.empty)"
  by (simp add: debug_ServeHTTP_def rw_finish_def rw_Write_def rw_WriteHeader_def rw_new_def Let_def
    split: prod.split option.split)

subsection \<open>Requests and what they were made of\<close>

lemma readRequest_origin:
  assumes "readRequest s dec (frames ((h, b) # fs)) = (Ret x, ms)"
  shows "(\<exists>r t. x = GoodRequest r \<and> rq_h r = h \<and> dec t b = Inr (rq_argv r) \<and> ms = frames fs \<and>
      findService (h_ServiceMethod h) s = Inr (rq_svc r, rq_mType r)) \<or>
    (\<exists>e. x = BadRequest h e \<and> (ms = frames fs \<or> ms = MBody b # frames fs))"
  using assms
  by (auto simp: readRequest_def split: sum.splits prod.splits outcome.splits)

lemma read_requests_origin:
  "Inl r \<in> set (read_requests s dec (frames fs)) \<Longrightarrow> (\<exists>b t. (rq_h r, b) \<in> set fs \<and> dec t b = Inr (rq_argv r)) \<and>
     findService (h_ServiceMethod (rq_h r)) s = Inr (rq_svc r, rq_mType r)"
proof (induction fs)
  case Nil
  then show ?case by (simp add: read_requests.simps [of s dec "[]"] readRequest_def)
next
  case (Cons f fs)
  obtain h b where f: "f = (h, b)" by (cases f)
  obtain out ms where rd: "readRequest s dec (frames (f # fs)) = (out, ms)" by fastforce
  have unfold: "read_requests s dec (frames (f # fs)) =
      (case (out, ms) of
         (Ret (GoodRequest r), rest) \<Rightarrow> Inl r # read_requests s dec rest
       | (Ret (BadRequest h err), rest) \<Rightarrow> Inr (h, err) # read_requests s dec rest
       | _ \<Rightarrow> [])"
    by (subst read_requests.simps) (simp only: rd)
  have tail: "read_requests s dec (MBody b # frames fs) = []"
    by (simp add: read_requests.simps [of s dec "MBody b # frames fs"] readRequest_body)
  show ?case
  proof (cases out)
    case (Ret x)
    from readRequest_origin [OF rd [unfolded f Ret]] show ?thesis
    proof (elim disjE exE conjE)
      fix r' t assume "x = GoodRequest r'" "rq_h r' = h" "dec t b = Inr (rq_argv r')" "ms = frames fs"
        "findService (h_ServiceMethod h) s = Inr (rq_svc r', rq_mType r')"
      with Cons Ret f unfold show ?thesis by auto
    qed (use Cons Ret unfold tail in auto)
  qed (use Cons.prems unfold in simp_all)
qed

lemma valid_requests_set: "r \<in> set (valid_requests xs) \<longleftrightarrow> Inl r \<in> set xs"
  by (induction xs rule: valid_requests.induct) auto

lemma result_msg_header:
  "h_Seq (fst (result_msg h res)) = h_Seq h" "h_ServiceMethod (fst (result_msg h res)) = h_ServiceMethod h"
  by (simp_all add: result_msg_def split: prod.split option.split)

text \<open>A response for a request has its number and method.\<close>

lemma response_header:
  fixes n :: "('a, 'b, 'r) sconn"
  assumes "sv_inv timeout dur n" and "i < length (sn_reqs n)" and "(h, b) \<in> set (responses n (Some i))"
  shows "h_Seq h = h_Seq (rq_h (sn_reqs n ! i))" and "h_ServiceMethod h = h_ServiceMethod (rq_h (sn_reqs n ! i))"
proof -
  have "handler_ok timeout dur (rq_h (sn_reqs n ! i)) (sn_main n i) (sn_worker n i) (responses n (Some i))"
    using assms(1,2) by (simp add: sv_inv_def handlers_inv_def)
  from handler_responses [OF this] assms(3)
  have "h = timeout_header dur (rq_h (sn_reqs n ! i)) \<or>
      (\<exists>res :: goerror option \<times> 'r. h = fst (result_msg (rq_h (sn_reqs n ! i)) res))"
  proof (elim disjE conjE exE)
    fix res assume "responses n (Some i) = [result_msg (rq_h (sn_reqs n ! i)) res]"
    with assms(3) have "h = fst (result_msg (rq_h (sn_reqs n ! i)) res)" by (simp add: prod_eq_iff)
    then show ?thesis by (intro disjI2 exI)
  qed auto
  then show "h_Seq h = h_Seq (rq_h (sn_reqs n ! i))" "h_ServiceMethod h = h_ServiceMethod (rq_h (sn_reqs n ! i))"
    by (elim disjE exE; simp add: result_msg_header timeout_header_def)+
qed

text \<open>What a run on a connection handles was read from it.\<close>

lemma handled_origin:
  assumes "(sv_step s dec (\<lambda>_. None) timeout dur ^^ k) (sv_start (frames fs)) n" and "i < length (sn_reqs n)"
  shows "sv_inv timeout dur n"
    and "\<exists>b t. (rq_h (sn_reqs n ! i), b) \<in> set fs \<and> dec t b = Inr (rq_argv (sn_reqs n ! i))"
    and "findService (h_ServiceMethod (rq_h (sn_reqs n ! i))) s = Inr (rq_svc (sn_reqs n ! i), rq_mType (sn_reqs n ! i))"
proof -
  have "reach (\<lambda>n. n = sv_start (frames fs)) (sv_step s dec (\<lambda>_. None) timeout dur) n"
    using reading.reach_steps [OF _ relpowp_imp_rtranclp [OF assms(1)]] by (simp add: reach_init)
  then have inv: "sv_inv timeout dur n" "reads_inv s dec (frames fs) n" using reading.inv_reach by blast+
  show "sv_inv timeout dur n" by (rule inv(1))
  from inv(2) obtain left where "sn_reqs n @ valid_requests left = valid_requests (read_requests s dec (frames fs))"
    unfolding reads_inv_def Let_def by blast
  then have "sn_reqs n ! i \<in> set (valid_requests (read_requests s dec (frames fs)))"
    using assms(2) by (metis Un_iff nth_mem set_append)
  then show "\<exists>b t. (rq_h (sn_reqs n ! i), b) \<in> set fs \<and> dec t b = Inr (rq_argv (sn_reqs n ! i))"
    "findService (h_ServiceMethod (rq_h (sn_reqs n ! i))) s = Inr (rq_svc (sn_reqs n ! i), rq_mType (sn_reqs n ! i))"
    using read_requests_origin [of "sn_reqs n ! i" s dec fs] by (simp_all add: valid_requests_set)
qed

end
