(* ===== verification/RPC_Dial.thy ===== *)
theory RPC_Dial
  imports RPC_Client RPC_Server
begin

section \<open>Package surpc: connecting a client\<close>

text \<open>
  The second half of \<^verbatim>\<open>SuRPC/client.go\<close>: options, the creation of a client over a connection,
  over HTTP or not, and dialling with a timeout. Opening a connection, the error of encoding an
  option, what the peer answers and which case of a \<^verbatim>\<open>select\<close> is ready first are parameters.
\<close>

subsection \<open>Connections and options\<close>

datatype wire_item = TextW string | OptionW go_option

record conn =
  cn_out :: "wire_item list"
  cn_open :: bool

definition conn_write :: "wire_item \<Rightarrow> conn \<Rightarrow> conn" where
  "conn_write x c = c\<lparr>cn_out := cn_out c @ [x]\<rparr>"

definition conn_Close :: "conn \<Rightarrow> conn" where
  "conn_Close c = c\<lparr>cn_open := False\<rparr>"

text \<open>
  \<^verbatim>\<open>parseOptions\<close>; a nil pointer is \<open>None\<close>. The result is a pointer to the default options or
  the caller's own option, which is completed in place.
\<close>

definition parseOptions :: "go_option option list \<Rightarrow> goerror + go_option" where
  "parseOptions opts =
     (case opts of
        [] \<Rightarrow> Inr DefaultOption
      | None # _ \<Rightarrow> Inr DefaultOption
      | Some opt # others \<Rightarrow>
          if others \<noteq> [] then Inl ''number of options is greater than 1''
          else
            (let opt1 = opt\<lparr>op_MagicNumber := op_MagicNumber DefaultOption\<rparr>
             in Inr (if op_CodecType opt1 = '''' then opt1\<lparr>op_CodecType := op_CodecType DefaultOption\<rparr> else opt1)))"

subsection \<open>NewClient and NewHTTPClient\<close>

definition NewClient :: "goerror option \<Rightarrow> conn \<Rightarrow> go_option \<Rightarrow> (goerror + 'a client) \<times> conn" where
  "NewClient encode_err c opt =
     (if \<not> CodecFuncMap (op_CodecType opt) then (Inl (''invalid codec type: '' @ op_CodecType opt), c)
      else case encode_err of
          Some err \<Rightarrow> (Inl err, conn_Close c)
        | None \<Rightarrow> (Inr newCientCodec, conn_write (OptionW opt) c))"

text \<open>
  The status of the response that \<^verbatim>\<open>http.ReadResponse\<close> reads, or its error: the first line is
  cut at its first space into protocol and status, the status code has three characters, the
  protocol is a version of HTTP. The error of reading the headers that follow is a parameter.
\<close>

definition quoted :: "string \<Rightarrow> string" where
  "quoted s = [CHR 0x22] @ s @ [CHR 0x22]"

definition is_digit :: "char \<Rightarrow> bool" where
  "is_digit c \<longleftrightarrow> CHR ''0'' \<le> c \<and> c \<le> CHR ''9''"

definition status_code_ok :: "string \<Rightarrow> bool" where
  "status_code_ok c \<longleftrightarrow> length c = 3 \<and>
     (list_all is_digit c \<or> (hd c = CHR ''+'' \<and> list_all is_digit (tl c)) \<or> c = ''-00'')"

definition http_version_ok :: "string \<Rightarrow> bool" where
  "http_version_ok p \<longleftrightarrow> length p = 8 \<and> take 5 p = ''HTTP/'' \<and> is_digit (p ! 5) \<and> p ! 6 = CHR ''.'' \<and> is_digit (p ! 7)"

definition trim_cr :: "string \<Rightarrow> string" where
  "trim_cr s = (if s \<noteq> [] \<and> last s = CHR 0x0D then butlast s else s)"

definition ReadResponse :: "(string \<Rightarrow> goerror option) \<Rightarrow> string \<Rightarrow> goerror + string" where
  "ReadResponse read_headers s =
     (if CHR 0x0A \<notin> set s then Inl ''unexpected EOF''
      else
        (let line = trim_cr (takeWhile (\<lambda>c. c \<noteq> CHR 0x0A) s);
             rest = tl (dropWhile (\<lambda>c. c \<noteq> CHR 0x0A) s);
             proto = takeWhile (\<lambda>c. c \<noteq> CHR '' '') line;
             status = dropWhile (\<lambda>c. c = CHR '' '') (tl (dropWhile (\<lambda>c. c \<noteq> CHR '' '') line));
             code = takeWhile (\<lambda>c. c \<noteq> CHR '' '') status
         in if CHR '' '' \<notin> set line then Inl (''malformed HTTP response '' @ quoted line)
            else if \<not> status_code_ok code then Inl (''malformed HTTP status code '' @ quoted code)
            else if \<not> http_version_ok proto then Inl (''malformed HTTP version '' @ quoted proto)
            else case read_headers rest of Some err \<Rightarrow> Inl err | None \<Rightarrow> Inr status))"

definition NewHTTPClient ::
  "(string \<Rightarrow> goerror option) \<Rightarrow> string \<Rightarrow> goerror option \<Rightarrow> conn \<Rightarrow> go_option \<Rightarrow> (goerror + 'a client) \<times> conn" where
  "NewHTTPClient read_headers answer encode_err c opt =
     (let c1 = conn_write (TextW (''CONNECT '' @ defaultRPCPath @ '' HTTP/1.0'' @ [CHR 0x0A, CHR 0x0A])) c
      in case ReadResponse read_headers answer of
           Inr status \<Rightarrow>
             if status = connected then NewClient encode_err c1 opt
             else (Inl (''unexpected HTTP response: '' @ status), c1)
         | Inl err \<Rightarrow> (Inl err, c1))"

subsection \<open>Dialling\<close>

text \<open>
  How \<^verbatim>\<open>dialTimeout\<close> ends: its result, the connection if one was opened, and whether the
  goroutine that it started is left behind.
\<close>

record 'a dial_end =
  de_result :: "goerror + 'a client"
  de_conn :: "conn option"
  de_leaked :: bool

text \<open>The deferred function: the connection is closed unless there is a client.\<close>

definition close_unless :: "goerror + 'a client \<Rightarrow> conn \<Rightarrow> conn" where
  "close_unless r c = (case r of Inl _ \<Rightarrow> conn_Close c | Inr _ \<Rightarrow> c)"

text \<open>
  \<open>f\<close> creates the client and is \<open>None\<close> when it never returns; its result is received in time
  for a given timeout if \<open>in_time\<close> holds. \<open>dur\<close> prints a duration. After the timeout nobody
  receives from the unbuffered channel.
\<close>

definition dialTimeout ::
  "(conn \<Rightarrow> go_option \<Rightarrow> ((goerror + 'a client) \<times> conn) option) \<Rightarrow> (int \<Rightarrow> bool) \<Rightarrow> (int \<Rightarrow> string) \<Rightarrow>
   (string \<Rightarrow> string \<Rightarrow> int \<Rightarrow> goerror + conn) \<Rightarrow> string \<Rightarrow> string \<Rightarrow> go_option option list \<Rightarrow> 'a dial_end outcome" where
  "dialTimeout f in_time dur net_dial network addr opts =
     (case parseOptions opts of
        Inl err \<Rightarrow> Ret \<lparr>de_result = Inl err, de_conn = None, de_leaked = False\<rparr>
      | Inr opt \<Rightarrow>
          (case net_dial network addr (op_ConnectTimeout opt) of
             Inl err \<Rightarrow> Ret \<lparr>de_result = Inl err, de_conn = None, de_leaked = False\<rparr>
           | Inr c \<Rightarrow>
               if op_ConnectTimeout opt = 0 then
                 (case f c opt of
                    None \<Rightarrow> Hang
                  | Some (r, c1) \<Rightarrow> Ret \<lparr>de_result = r, de_conn = Some (close_unless r c1), de_leaked = False\<rparr>)
               else
                 (let late = Inl (''rpc client: connect timeout, expected within '' @ dur (op_ConnectTimeout opt))
                  in case f c opt of
                       None \<Rightarrow> Ret \<lparr>de_result = late, de_conn = Some (close_unless late c), de_leaked = True\<rparr>
                     | Some (r, c1) \<Rightarrow>
                         if in_time (op_ConnectTimeout opt)
                         then Ret \<lparr>de_result = r, de_conn = Some (close_unless r c1), de_leaked = False\<rparr>
                         else Ret \<lparr>de_result = late, de_conn = Some (close_unless late c1), de_leaked = True\<rparr>)))"

definition Dial where
  "Dial encode_err in_time dur net_dial network addr opts =
     dialTimeout (\<lambda>c opt. Some (NewClient encode_err c opt)) in_time dur net_dial network addr opts"

text \<open>The answer of the peer is \<open>None\<close> if it never comes.\<close>

definition DialHTTP where
  "DialHTTP read_headers answer encode_err in_time dur net_dial network addr opts =
     dialTimeout (\<lambda>c opt. map_option (\<lambda>a. NewHTTPClient read_headers a encode_err c opt) answer)
       in_time dur net_dial network addr opts"

definition XDial where
  "XDial read_headers answer encode_err in_time dur net_dial rpcAddr opts =
     (let parts = split_byte (CHR ''@'') rpcAddr
      in if length parts \<noteq> 2
         then Ret \<lparr>de_result = Inl (''rpc client err: wrong format '' @ [CHR 0x27] @ rpcAddr @ [CHR 0x27]
                @ '', expected protocol@addr''), de_conn = None, de_leaked = False\<rparr>
         else if parts ! 0 = ''http'' then DialHTTP read_headers answer encode_err in_time dur net_dial ''tcp'' (parts ! 1) opts
         else Dial encode_err in_time dur net_dial (parts ! 0) (parts ! 1) opts)"

subsection \<open>What dialling guarantees\<close>

lemma parseOptions_magic: "parseOptions opts = Inr opt \<Longrightarrow> op_MagicNumber opt = MagicNumber"
  by (auto simp: parseOptions_def DefaultOption_def Let_def split: list.splits option.splits if_splits)

lemma close_unless_Inl [simp]: "cn_open (close_unless (Inl e) c) = False"
  by (simp add: close_unless_def conn_Close_def)

lemma dialTimeout_cases:
  assumes "dialTimeout f in_time dur net_dial network addr opts = Ret d"
  shows "(\<exists>err. de_result d = Inl err \<and> (\<forall>c. de_conn d = Some c \<longrightarrow> \<not> cn_open c)) \<or>
    (\<exists>cl opt c c1. de_result d = Inr cl \<and> \<not> de_leaked d \<and> parseOptions opts = Inr opt \<and>
       net_dial network addr (op_ConnectTimeout opt) = Inr c \<and> f c opt = Some (Inr cl, c1) \<and> de_conn d = Some c1)"
proof (cases "parseOptions opts")
  case (Inl e)
  with assms show ?thesis by (auto simp: dialTimeout_def)
next
  case opt: (Inr opt)
  show ?thesis
  proof (cases "net_dial network addr (op_ConnectTimeout opt)")
    case (Inl e)
    with assms opt show ?thesis by (auto simp: dialTimeout_def)
  next
    case c: (Inr c)
    show ?thesis
    proof (cases "f c opt")
      case None
      with assms opt c show ?thesis by (auto simp: dialTimeout_def Let_def split: if_splits)
    next
      case (Some x)
      obtain r c1 where x: "x = (r, c1)" by (cases x)
      with assms opt c Some show ?thesis
        by (cases r) (auto simp: dialTimeout_def Let_def close_unless_def conn_Close_def split: if_splits)
    qed
  qed
qed

lemma dialTimeout_returns:
  "(\<And>opt. parseOptions opts = Inr opt \<Longrightarrow> op_ConnectTimeout opt \<noteq> 0) \<Longrightarrow>
   \<exists>d. dialTimeout f in_time dur net_dial network addr opts = Ret d"
  by (auto simp: dialTimeout_def Let_def split: sum.splits option.splits prod.splits)

text \<open>The answer of \<^verbatim>\<open>ServeHTTP\<close> is no response of HTTP, so that dialling over it fails.\<close>

lemma ServeHTTP_answer:
  "server_ServeHTTP ''CONNECT'' None = (w, Some answer) \<Longrightarrow>
   answer = '' HTTP/1.0 200 connected to SuRPC'' @ [CHR 0x0A, CHR 0x0A]"
  by (simp add: server_ServeHTTP_def connected_def)

lemma ServeHTTP_malformed:
  assumes "server_ServeHTTP ''CONNECT'' None = (w, Some answer)"
  shows "ReadResponse read_headers answer = Inl (''malformed HTTP status code '' @ quoted ''HTTP/1.0'')"
  unfolding ServeHTTP_answer [OF assms] by (simp add: ReadResponse_def trim_cr_def status_code_ok_def is_digit_def)

lemma DialHTTP_fails:
  assumes "server_ServeHTTP ''CONNECT'' None = (w, Some answer)"
    and "DialHTTP read_headers (Some answer) encode_err in_time dur net_dial network addr opts = Ret d"
  shows "\<exists>err. de_result d = Inl err" and "\<forall>cn. de_conn d = Some cn \<longrightarrow> \<not> cn_open cn"
  using dialTimeout_cases [OF assms(2) [unfolded DialHTTP_def]]
  by (auto simp: NewHTTPClient_def ServeHTTP_malformed [OF assms(1)])

text \<open>
  Property C27. A successful \<^verbatim>\<open>Dial\<close> gives a new client on an open connection on which exactly one
  option was written, and the server accepts that option: the client's and the server's
  negotiation agree. An unsuccessful one leaves no connection open. With a timeout \<^verbatim>\<open>Dial\<close> and
  \<^verbatim>\<open>DialHTTP\<close> always return, even if the peer never answers.
\<close>

theorem Dial_negotiates:
  assumes "\<And>nw ad t c. net_dial nw ad t = Inr c \<Longrightarrow> c = \<lparr>cn_out = [], cn_open = True\<rparr>"
  shows "(Dial encode_err in_time dur net_dial network addr opts = Ret d \<longrightarrow>
      (case de_result d of
         Inr cl \<Rightarrow> cl = newCientCodec \<and> \<not> de_leaked d \<and>
           (\<exists>opt. parseOptions opts = Inr opt \<and> de_conn d = Some \<lparr>cn_out = [OptionW opt], cn_open = True\<rparr> \<and>
              ServeConn (Inr opt) = Some opt)
       | Inl err \<Rightarrow> (\<forall>c. de_conn d = Some c \<longrightarrow> \<not> cn_open c))) \<and>
    ((\<forall>opt. parseOptions opts = Inr opt \<longrightarrow> op_ConnectTimeout opt \<noteq> 0) \<longrightarrow>
       (\<exists>e. DialHTTP read_headers answer encode_err in_time dur net_dial network addr opts = Ret e))"
proof (intro conjI impI)
  assume "Dial encode_err in_time dur net_dial network addr opts = Ret d"
  then have run: "dialTimeout (\<lambda>c opt. Some (NewClient encode_err c opt)) in_time dur net_dial network addr opts = Ret d"
    by (simp add: Dial_def)
  show "case de_result d of
         Inr cl \<Rightarrow> cl = newCientCodec \<and> \<not> de_leaked d \<and>
           (\<exists>opt. parseOptions opts = Inr opt \<and> de_conn d = Some \<lparr>cn_out = [OptionW opt], cn_open = True\<rparr> \<and>
              ServeConn (Inr opt) = Some opt)
       | Inl err \<Rightarrow> (\<forall>c. de_conn d = Some c \<longrightarrow> \<not> cn_open c)"
    using dialTimeout_cases [OF run]
  proof (elim disjE exE conjE)
    fix cl opt c c1
    assume d: "de_result d = Inr cl" "\<not> de_leaked d" "parseOptions opts = Inr opt" "de_conn d = Some c1"
      and c: "net_dial network addr (op_ConnectTimeout opt) = Inr c" "Some (NewClient encode_err c opt) = Some (Inr cl, c1)"
    from c(2) have "cl = newCientCodec" "c1 = conn_write (OptionW opt) c" "CodecFuncMap (op_CodecType opt)"
      by (auto simp: NewClient_def split: if_splits option.splits)
    with d assms [OF c(1)] parseOptions_magic [OF d(3)] show ?thesis by (simp add: conn_write_def ServeConn_def)
  qed simp
next
  assume "\<forall>opt. parseOptions opts = Inr opt \<longrightarrow> op_ConnectTimeout opt \<noteq> 0"
  then show "\<exists>e. DialHTTP read_headers answer encode_err in_time dur net_dial network addr opts = Ret e"
    unfolding DialHTTP_def by (intro dialTimeout_returns) blast
qed

theorem Dial_negotiates_witness:
  "ServeConn (Inr DefaultOption) = Some DefaultOption"
proof -
  let ?net = "\<lambda>nw ad t. Inr \<lparr>cn_out = [], cn_open = True\<rparr> :: goerror + conn"
  let ?d = "\<lparr>de_result = Inr newCientCodec, de_conn = Some \<lparr>cn_out = [OptionW DefaultOption], cn_open = True\<rparr>, de_leaked = False\<rparr>
    :: nat dial_end"
  have "Dial None (\<lambda>_. True) (\<lambda>_. '''') ?net ''tcp'' ''host:1234'' [] = Ret ?d"
    by (simp add: Dial_def dialTimeout_def parseOptions_def NewClient_def close_unless_def conn_write_def
      CodecFuncMap_def DefaultOption_def Let_def time_Second_def)
  then show ?thesis
    using Dial_negotiates [of ?net None "\<lambda>_. True" "\<lambda>_. ''''" "''tcp''" "''host:1234''" "[]" ?d] by auto
qed

text \<open>
  The two sides of the handshake over HTTP do not fit: what \<^verbatim>\<open>ServeHTTP\<close> writes to the
  connection starts with a space, so that the client takes \<^verbatim>\<open>HTTP/1.0\<close> for the status code and
  \<^verbatim>\<open>NewHTTPClient\<close> always fails; every \<^verbatim>\<open>XDial\<close> of an address with protocol \<^verbatim>\<open>http\<close> that is
  answered in this way fails and closes the connection. Without the space a client would be made.
\<close>

theorem http_handshake_fails:
  assumes "server_ServeHTTP ''CONNECT'' None = (w, Some answer)" and "CodecFuncMap (op_CodecType opt)"
  shows "(fst (NewHTTPClient read_headers answer encode_err c opt) :: goerror + 'a client)
      = Inl (''malformed HTTP status code '' @ quoted ''HTTP/1.0'') \<and>
    (CHR ''@'' \<notin> set addr \<and> XDial read_headers (Some answer) encode_err in_time dur net_dial (''http@'' @ addr) opts
        = Ret (d :: 'a dial_end) \<longrightarrow>
       (\<exists>err. de_result d = Inl err) \<and> (\<forall>cn. de_conn d = Some cn \<longrightarrow> \<not> cn_open cn)) \<and>
    (fst (NewHTTPClient (\<lambda>_. None) (tl answer) None c opt) :: goerror + 'a client) = Inr newCientCodec"
proof (intro conjI impI)
  note answer = ServeHTTP_answer [OF assms(1)] and resp = ServeHTTP_malformed [OF assms(1)]
  show "fst (NewHTTPClient read_headers answer encode_err c opt)
      = Inl (''malformed HTTP status code '' @ quoted ''HTTP/1.0'')" for encode_err c opt
    by (simp add: NewHTTPClient_def resp)
  have "ReadResponse (\<lambda>_. None) (tl answer) = Inr connected"
    unfolding answer
    by (simp add: ReadResponse_def trim_cr_def status_code_ok_def http_version_ok_def is_digit_def connected_def less_eq_char_def)
  then show "fst (NewHTTPClient (\<lambda>_. None) (tl answer) None c opt) = Inr newCientCodec"
    using assms(2) by (simp add: NewHTTPClient_def NewClient_def)
  assume a: "CHR ''@'' \<notin> set addr \<and>
    XDial read_headers (Some answer) encode_err in_time dur net_dial (''http@'' @ addr) opts = Ret d"
  then have "split_byte (CHR ''@'') (''http@'' @ addr) = [''http'', addr]"
    using split_byte_append [of "CHR ''@''" "''http''" addr] by (simp add: split_byte_no_sep)
  with a have "DialHTTP read_headers (Some answer) encode_err in_time dur net_dial ''tcp'' addr opts = Ret d"
    by (simp add: XDial_def Let_def)
  from DialHTTP_fails [OF assms(1) this]
  show "\<exists>err. de_result d = Inl err" "\<forall>cn. de_conn d = Some cn \<longrightarrow> \<not> cn_open cn" by simp_all
qed

theorem http_handshake_fails_witness:
  "(fst (NewHTTPClient (\<lambda>_. None) ('' HTTP/1.0 '' @ connected @ [CHR 0x0A, CHR 0x0A]) None \<lparr>cn_out = [], cn_open = True\<rparr>
     DefaultOption) :: goerror + nat client) = Inl (''malformed HTTP status code '' @ quoted ''HTTP/1.0'')"
proof -
  have "server_ServeHTTP ''CONNECT'' None = (rw_new, Some ('' HTTP/1.0 '' @ connected @ [CHR 0x0A, CHR 0x0A]))"
    by (simp add: server_ServeHTTP_def)
  moreover have "CodecFuncMap (op_CodecType DefaultOption)" by (simp add: DefaultOption_def CodecFuncMap_def)
  ultimately show ?thesis using http_handshake_fails by blast
qed

end
