(* ===== verification/RPC_XClient.thy ===== *)
theory RPC_XClient
  imports RPC_Dial RPC_Discovery
begin

section \<open>Package xclient: the client with discovery\<close>

text \<open>
  \<^verbatim>\<open>SuRPC/xclient/xclient.go\<close>. The clients are objects shared with their receiving goroutines, so
  the model has a heap of clients, numbered in the order of their creation. Every method that
  touches the cache holds the mutex from start to end. The result of \<^verbatim>\<open>XDial\<close> and the outcomes
  of the remote calls are parameters; the discovery is any implementation of the interface.
\<close>

subsection \<open>State and operations\<close>

record 'a xclient =
  xc_clients :: "string \<rightharpoonup> nat"
  xc_heap :: "'a client list"

definition NewXClient :: "'a xclient" where
  "NewXClient = \<lparr>xc_clients = Map.empty, xc_heap = []\<rparr>"

definition close_client :: "nat \<Rightarrow> 'a xclient \<Rightarrow> 'a xclient" where
  "close_client i x = x\<lparr>xc_heap := (xc_heap x)[i := snd (client_Close (xc_heap x ! i))]\<rparr>"

text \<open>\<^verbatim>\<open>Close\<close>; \<open>order\<close> is the order in which the map is visited.\<close>

fun xclient_Close :: "string list \<Rightarrow> 'a xclient \<Rightarrow> 'a xclient" where
  "xclient_Close [] x = x"
| "xclient_Close (key # keys) x =
     (case xc_clients x key of
        None \<Rightarrow> xclient_Close keys x
      | Some i \<Rightarrow>
          (let x1 = close_client i x
           in xclient_Close keys (x1\<lparr>xc_clients := (xc_clients x1)(key := None)\<rparr>)))"

text \<open>
  \<^verbatim>\<open>dial\<close>: the address of a client, here its number. \<open>xdial\<close> is the result of \<^verbatim>\<open>XDial\<close> for an
  address.
\<close>

definition xclient_dial :: "(string \<Rightarrow> goerror + 'a client) \<Rightarrow> string \<Rightarrow> 'a xclient \<Rightarrow> (goerror + nat) \<times> 'a xclient" where
  "xclient_dial xdial rpcAddr x =
     (let (client, x1) =
        (case xc_clients x rpcAddr of
           Some i \<Rightarrow>
             if \<not> IsAvailable (xc_heap x ! i)
             then (None, (close_client i x)\<lparr>xc_clients := (xc_clients x)(rpcAddr := None)\<rparr>)
             else (Some i, x)
         | None \<Rightarrow> (None, x))
      in case client of
           Some i \<Rightarrow> (Inr i, x1)
         | None \<Rightarrow>
             (case xdial rpcAddr of
                Inl err \<Rightarrow> (Inl err, x1)
              | Inr cl \<Rightarrow>
                  (Inr (length (xc_heap x1)),
                   x1\<lparr>xc_heap := xc_heap x1 @ [cl], xc_clients := (xc_clients x1)(rpcAddr \<mapsto> length (xc_heap x1))\<rparr>)))"

text \<open>
  \<^verbatim>\<open>call\<close> and \<^verbatim>\<open>Call\<close>. \<open>remote i\<close> is the outcome of \<^verbatim>\<open>Call\<close> on the client \<open>i\<close>: its error and
  what it leaves in the reply.
\<close>

definition xclient_call ::
  "(string \<Rightarrow> goerror + 'a client) \<Rightarrow> (nat \<Rightarrow> goerror option \<times> 'r) \<Rightarrow> string \<Rightarrow> 'r \<Rightarrow> 'a xclient \<Rightarrow>
   (goerror option \<times> 'r) \<times> 'a xclient" where
  "xclient_call xdial remote rpcAddr reply x =
     (case xclient_dial xdial rpcAddr x of
        (Inl err, x1) \<Rightarrow> ((Some err, reply), x1)
      | (Inr i, x1) \<Rightarrow> (remote i, x1))"

definition xclient_Call ::
  "(select_mode \<Rightarrow> 's \<Rightarrow> (goerror + string) \<times> 's) \<Rightarrow> (string \<Rightarrow> goerror + 'a client) \<Rightarrow>
   (nat \<Rightarrow> goerror option \<times> 'r) \<Rightarrow> select_mode \<Rightarrow> 'r \<Rightarrow> 's \<times> 'a xclient \<Rightarrow> (goerror option \<times> 'r) \<times> ('s \<times> 'a xclient)" where
  "xclient_Call get xdial remote mode reply sx =
     (case get mode (fst sx) of
        (Inl err, s1) \<Rightarrow> ((Some err, reply), (s1, snd sx))
      | (Inr rpcAddr, s1) \<Rightarrow>
          (case xclient_call xdial remote rpcAddr reply (snd sx) of (res, x1) \<Rightarrow> (res, (s1, x1))))"

subsection \<open>Broadcast\<close>

text \<open>
  The goroutines of \<^verbatim>\<open>Broadcast\<close> share the error, the flag \<^verbatim>\<open>replyDone\<close> and the reply, each
  updating them once under a mutex when its call has returned; \<open>results\<close> are the outcomes in
  that order. The reply is \<open>None\<close> when the caller passed nil. \<open>bc_cancelled\<close> tells whether the
  context was cancelled.
\<close>

record 'r broadcast =
  bc_e :: "goerror option"
  bc_replyDone :: bool
  bc_reply :: "'r option"
  bc_cancelled :: bool

definition broadcast_one :: "goerror option \<times> 'r \<Rightarrow> 'r broadcast \<Rightarrow> 'r broadcast" where
  "broadcast_one res b =
     (case res of (err, cloned) \<Rightarrow>
        (let b1 = (if err \<noteq> None \<and> bc_e b = None then b\<lparr>bc_e := err, bc_cancelled := True\<rparr> else b)
         in if err = None \<and> \<not> bc_replyDone b1 then b1\<lparr>bc_reply := Some cloned, bc_replyDone := True\<rparr> else b1))"

text \<open>
  \<open>order\<close> gives the positions of the servers in the order in which their goroutines finish,
  and \<open>outcome_of\<close> what \<^verbatim>\<open>call\<close> returns for the server at a position.
\<close>

definition Broadcast ::
  "('s \<Rightarrow> (goerror + string list) \<times> 's) \<Rightarrow> (nat \<Rightarrow> nat list) \<Rightarrow> (nat \<Rightarrow> string \<Rightarrow> goerror option \<times> 'r) \<Rightarrow>
   'r option \<Rightarrow> 's \<Rightarrow> (goerror option \<times> 'r broadcast) \<times> 's" where
  "Broadcast getAll order outcome_of reply s =
     (let b0 = \<lparr>bc_e = None, bc_replyDone = (reply = None), bc_reply = reply, bc_cancelled = False\<rparr>
      in case getAll s of
           (Inl err, s1) \<Rightarrow> ((Some err, b0), s1)
         | (Inr servers, s1) \<Rightarrow>
             (let b = fold (\<lambda>i. broadcast_one (outcome_of i (servers ! i))) (order (length servers)) b0
              in ((bc_e b, b), s1)))"

lemma broadcast_fold:
  "bc_e (fold broadcast_one rs b) = (if bc_e b \<noteq> None then bc_e b
     else (case find (\<lambda>r. fst r \<noteq> None) rs of None \<Rightarrow> None | Some r \<Rightarrow> fst r))"
  "bc_reply (fold broadcast_one rs b) = (if bc_replyDone b then bc_reply b
     else (case find (\<lambda>r. fst r = None) rs of None \<Rightarrow> bc_reply b | Some r \<Rightarrow> Some (snd r)))"
  "bc_cancelled (fold broadcast_one rs b) \<longleftrightarrow> bc_cancelled b \<or> (bc_e b = None \<and> (\<exists>r \<in> set rs. fst r \<noteq> None))"
  by (induction rs arbitrary: b) (auto simp: broadcast_one_def Let_def split: prod.splits option.splits)

subsection \<open>What the interface of a discovery gives its client\<close>

context discovery
begin

text \<open>\<^verbatim>\<open>Call\<close> fails without a call, or calls one of the servers that are known.\<close>

lemma Call_known:
  assumes "xclient_Call get xdial remote mode reply (s, x) = (res, (s1, x1))"
  shows "(\<exists>err. get mode s = (Inl err, s1) \<and> res = (Some err, reply) \<and> x1 = x) \<or>
    (\<exists>a \<in> set (known s1). xclient_call xdial remote a reply x = (res, x1))"
  using assms get_known [of mode s]
  by (fastforce simp: xclient_Call_def split: prod.splits sum.splits)

text \<open>One known server whose call fails makes \<^verbatim>\<open>Broadcast\<close> fail.\<close>

lemma Broadcast_fails:
  assumes "Broadcast getAll order outcome_of reply s = ((e, b), s1)" and "\<And>n. mset (order n) = mset [0..<n]"
    and "i < length (known s1)" and "fst (outcome_of i (known s1 ! i)) \<noteq> None"
  shows "e \<noteq> None"
proof (cases "getAll s")
  case (Pair r s2)
  show ?thesis
  proof (cases r)
    case (Inl err)
    with Pair assms(1) show ?thesis by (auto simp: Broadcast_def Let_def)
  next
    case (Inr servers)
    have same: "s2 = s1" using Pair Inr assms(1) by (auto simp: Broadcast_def Let_def)
    then have servers: "servers = known s1" using getAll_known Pair Inr by blast
    let ?rs = "map (\<lambda>i. outcome_of i (known s1 ! i)) (order (length (known s1)))"
    let ?b0 = "\<lparr>bc_e = None, bc_replyDone = (reply = None), bc_reply = reply, bc_cancelled = False\<rparr>"
    have e: "e = bc_e (fold broadcast_one ?rs ?b0)"
      using assms(1) by (auto simp: Broadcast_def Pair Inr servers same Let_def fold_map comp_def)
    have "i \<in> set (order (length (known s1)))"
      using arg_cong [OF assms(2) [of "length (known s1)"], of set_mset] assms(3) by simp
    then have "find (\<lambda>r. fst r \<noteq> None) ?rs \<noteq> None"
      using assms(4) by (auto simp: find_None_iff)
    then obtain r where r: "find (\<lambda>r. fst r \<noteq> None) ?rs = Some r" by blast
    then have "fst r \<noteq> None" unfolding find_Some_iff by blast
    moreover have "e = fst r" unfolding e broadcast_fold(1) r by simp
    ultimately show ?thesis by simp
  qed
qed

end

subsection \<open>The cache of clients\<close>

text \<open>
  Cached clients exist, no client is cached under two addresses, and a client that is not in
  the cache can no longer be used: it was closed or its connection has failed.
\<close>

definition xc_inv :: "'a xclient \<Rightarrow> bool" where
  "xc_inv x \<longleftrightarrow> (\<forall>a i. xc_clients x a = Some i \<longrightarrow> i < length (xc_heap x)) \<and>
     (\<forall>a b i. xc_clients x a = Some i \<and> xc_clients x b = Some i \<longrightarrow> a = b) \<and>
     (\<forall>i < length (xc_heap x). i \<in> ran (xc_clients x) \<or> \<not> IsAvailable (xc_heap x ! i))"

text \<open>
  The environment: dialling, closing, and the life of the clients, none of which becomes
  available again.
\<close>

inductive xc_step :: "'a xclient \<Rightarrow> 'a xclient \<Rightarrow> bool" where
  xc_dial: "xclient_dial xdial a x = (r, x') \<Longrightarrow> xc_step x x'"
| xc_close: "set order = dom (xc_clients x) \<Longrightarrow> xc_step x (xclient_Close order x)"
| xc_client: "i < length (xc_heap x) \<Longrightarrow> \<not> IsAvailable (xc_heap x ! i) \<longrightarrow> \<not> IsAvailable c \<Longrightarrow>
    xc_step x (x\<lparr>xc_heap := (xc_heap x)[i := c]\<rparr>)"

lemma closed_unavailable: "\<not> IsAvailable (snd (client_Close c))"
  by (simp add: client_Close_def IsAvailable_def)

lemma ran_remove:
  assumes "m k = Some i" and "\<And>b. m b = Some i \<Longrightarrow> b = k"
  shows "ran (m(k := None)) = ran m - {i}"
proof (rule set_eqI)
  fix j
  have "j \<in> ran (m(k := None)) \<longleftrightarrow> (\<exists>b. b \<noteq> k \<and> m b = Some j)" by (auto simp: ran_def)
  also have "\<dots> \<longleftrightarrow> j \<in> ran m \<and> j \<noteq> i" using assms unfolding ran_def mem_Collect_eq by (metis option.inject)
  finally show "j \<in> ran (m(k := None)) \<longleftrightarrow> j \<in> ran m - {i}" by simp
qed

lemma drop_client_inv:
  assumes inv: "xc_inv x" and k: "xc_clients x k = Some i"
  shows "xc_inv ((close_client i x)\<lparr>xc_clients := (xc_clients x)(k := None)\<rparr>)"
proof -
  have "ran ((xc_clients x)(k := None)) = ran (xc_clients x) - {i}"
    using inv k by (intro ran_remove) (auto simp: xc_inv_def)
  with inv k show ?thesis
    by (auto simp: xc_inv_def close_client_def nth_list_update closed_unavailable split: if_splits)
qed

lemma add_client_inv:
  assumes inv: "xc_inv x" and k: "xc_clients x k = None"
  shows "xc_inv (x\<lparr>xc_heap := xc_heap x @ [c], xc_clients := (xc_clients x)(k \<mapsto> length (xc_heap x))\<rparr>)"
proof -
  have "ran ((xc_clients x)(k \<mapsto> length (xc_heap x))) = insert (length (xc_heap x)) (ran (xc_clients x))"
    using k by (rule ran_map_upd)
  moreover have "\<forall>a i. xc_clients x a = Some i \<longrightarrow> i < length (xc_heap x)" using inv by (simp add: xc_inv_def)
  then have "xc_clients x a \<noteq> Some (length (xc_heap x))" for a by blast
  ultimately show ?thesis using inv by (auto simp: xc_inv_def nth_append less_Suc_eq)
qed

lemma dial_cases:
  assumes "xclient_dial xdial a x = (r, x')"
  shows "(\<exists>i. xc_clients x a = Some i \<and> IsAvailable (xc_heap x ! i) \<and> r = Inr i \<and> x' = x) \<or>
    (\<exists>x1. (xc_clients x a = None \<and> x1 = x \<or>
          (\<exists>i. xc_clients x a = Some i \<and> \<not> IsAvailable (xc_heap x ! i) \<and>
             x1 = (close_client i x)\<lparr>xc_clients := (xc_clients x)(a := None)\<rparr>)) \<and>
       ((\<exists>err. xdial a = Inl err \<and> r = Inl err \<and> x' = x1) \<or>
        (\<exists>c. xdial a = Inr c \<and> r = Inr (length (xc_heap x1)) \<and>
           x' = x1\<lparr>xc_heap := xc_heap x1 @ [c], xc_clients := (xc_clients x1)(a \<mapsto> length (xc_heap x1))\<rparr>)))"
  using assms by (auto simp: xclient_dial_def Let_def split: option.splits if_splits sum.splits)

lemma dial_inv: "xc_inv x \<Longrightarrow> xclient_dial xdial a x = (r, x') \<Longrightarrow> xc_inv x'"
proof -
  assume inv: "xc_inv x" and "xclient_dial xdial a x = (r, x')"
  from dial_cases [OF this(2)] show "xc_inv x'"
  proof (elim disjE exE conjE)
    fix x1 i c
    assume "xc_clients x a = Some i"
      and x1: "x1 = (close_client i x)\<lparr>xc_clients := (xc_clients x)(a := None)\<rparr>"
      and x': "x' = x1\<lparr>xc_heap := xc_heap x1 @ [c], xc_clients := (xc_clients x1)(a \<mapsto> length (xc_heap x1))\<rparr>"
    then have "xc_inv x1" using drop_client_inv [OF inv] by simp
    moreover have "xc_clients x1 a = None" by (simp add: x1)
    ultimately show ?thesis unfolding x' by (rule add_client_inv)
  qed (use inv in \<open>auto intro: add_client_inv drop_client_inv\<close>)
qed

lemma Close_inv: "xc_inv x \<Longrightarrow> xc_inv (xclient_Close order x)"
proof (induction order x rule: xclient_Close.induct)
  case (1 x)
  then show ?case by simp
next
  case (2 key keys x)
  show ?case
  proof (cases "xc_clients x key")
    case None
    with 2 show ?thesis by simp
  next
    case (Some i)
    have "xc_clients (close_client i x) = xc_clients x" by (simp add: close_client_def)
    with "2.IH"(2) [OF Some refl] drop_client_inv [OF "2.prems" Some] Some show ?thesis by (simp add: Let_def)
  qed
qed

lemma Close_clients: "xc_clients (xclient_Close order x) = (xc_clients x) |` (- set order)"
proof (induction order x rule: xclient_Close.induct)
  case (1 x)
  then show ?case by simp
next
  case (2 key keys x)
  have upd: "(m(key := None)) |` (- set keys) = m |` (- insert key (set keys))" for m :: "string \<rightharpoonup> nat"
    by (auto simp: restrict_map_def fun_eq_iff)
  show ?case
  proof (cases "xc_clients x key")
    case None
    then have "(xc_clients x)(key := None) = xc_clients x" by (simp add: fun_eq_iff)
    with None "2.IH"(1) upd [of "xc_clients x"] show ?thesis by simp
  next
    case (Some i)
    have "xc_clients (close_client i x) = xc_clients x" by (simp add: close_client_def)
    moreover have "xclient_Close (key # keys) x
        = xclient_Close keys ((close_client i x)\<lparr>xc_clients := (xc_clients (close_client i x))(key := None)\<rparr>)"
      using Some by (simp add: Let_def)
    moreover have "xc_clients (y\<lparr>xc_clients := m\<rparr>) = m" for y :: "'a xclient" and m by simp
    ultimately show ?thesis
      using "2.IH"(2) [OF Some refl] by (simp only: upd list.set)
  qed
qed

lemma xc_step_inv: "xc_inv x \<Longrightarrow> xc_step x x' \<Longrightarrow> xc_inv x'"
proof -
  assume inv: "xc_inv x" and "xc_step x x'"
  from this(2) show "xc_inv x'"
  proof cases
    case (xc_dial xdial a r)
    with inv dial_inv show ?thesis by blast
  next
    case (xc_close order)
    with inv Close_inv show ?thesis by blast
  next
    case (xc_client i c)
    with inv show ?thesis by (auto simp: xc_inv_def nth_list_update)
  qed
qed

interpretation cache_of_clients: inductive_invariant "\<lambda>x. x = NewXClient" xc_step xc_inv
proof
  show "xc_inv x" if "x = NewXClient" for x using that by (simp add: xc_inv_def NewXClient_def)
qed (rule xc_step_inv)

subsection \<open>Properties\<close>

text \<open>
  Property C25. The cache never loses a usable connection: in every reachable state a client that is
  not in the cache is closed or broken, and after \<^verbatim>\<open>Close\<close> every client is. \<^verbatim>\<open>dial\<close> returns an
  available client, the cached one if it is available without touching anything, and otherwise a
  new one that replaces it; if connecting fails nothing stays cached for the address.
\<close>

theorem xclient_no_leak:
  assumes "reach (\<lambda>x. x = NewXClient) xc_step x" and "xclient_dial xdial a x = (r, x')"
    and "\<And>c. xdial a = Inr c \<Longrightarrow> IsAvailable c"
  shows "(\<forall>i < length (xc_heap x). i \<in> ran (xc_clients x) \<or> \<not> IsAvailable (xc_heap x ! i)) \<and>
    (\<forall>i. r = Inr i \<longrightarrow> xc_clients x' a = Some i \<and> IsAvailable (xc_heap x' ! i)) \<and>
    (\<forall>i. xc_clients x a = Some i \<and> IsAvailable (xc_heap x ! i) \<longrightarrow> r = Inr i \<and> x' = x) \<and>
    (\<forall>err. r = Inl err \<longrightarrow> xc_clients x' a = None) \<and>
    (set order = dom (xc_clients x) \<longrightarrow> (\<forall>c \<in> set (xc_heap (xclient_Close order x)). \<not> IsAvailable c))"
proof (intro conjI allI impI)
  have inv: "xc_inv x" by (rule cache_of_clients.inv_reach [OF assms(1)])
  note cases = dial_cases [OF assms(2)]
  show "i \<in> ran (xc_clients x) \<or> \<not> IsAvailable (xc_heap x ! i)" if "i < length (xc_heap x)" for i
    using inv that by (simp add: xc_inv_def)
  show "xc_clients x' a = Some i" if "r = Inr i" for i using cases that by auto
  show "IsAvailable (xc_heap x' ! i)" if "r = Inr i" for i using cases that assms(3) by auto
  show "r = Inr i" "x' = x" if "xc_clients x a = Some i \<and> IsAvailable (xc_heap x ! i)" for i
    using cases that by auto
  show "xc_clients x' a = None" if "r = Inl err" for err using cases that by auto
  show "\<forall>c \<in> set (xc_heap (xclient_Close order x)). \<not> IsAvailable c" if d: "set order = dom (xc_clients x)"
  proof -
    have "xc_clients (xclient_Close order x) = Map.empty"
      unfolding Close_clients d by (auto simp: restrict_map_def fun_eq_iff dom_def)
    moreover have "xc_inv (xclient_Close order x)" by (rule Close_inv [OF inv])
    ultimately show ?thesis by (auto simp: xc_inv_def in_set_conv_nth)
  qed
qed

theorem xclient_no_leak_witness:
  "xc_clients \<lparr>xc_clients = [''tcp@a'' \<mapsto> 0], xc_heap = [newCientCodec :: nat client]\<rparr> ''tcp@a'' = Some 0 \<and>
   IsAvailable (xc_heap \<lparr>xc_clients = [''tcp@a'' \<mapsto> 0], xc_heap = [newCientCodec :: nat client]\<rparr> ! 0)"
proof -
  let ?x = "\<lparr>xc_clients = [''tcp@a'' \<mapsto> 0], xc_heap = [newCientCodec :: nat client]\<rparr>"
  have new: "xclient_dial (\<lambda>_. Inr newCientCodec) ''tcp@a'' NewXClient = (Inr 0, ?x)"
    by (simp add: xclient_dial_def NewXClient_def)
  have "reach (\<lambda>x. x = NewXClient) xc_step (NewXClient :: nat xclient)" by (simp add: reach_init)
  from xclient_no_leak [OF this new] show ?thesis by (simp add: IsAvailable_def newCientCodec_def)
qed

text \<open>
  Property C33. \<^verbatim>\<open>Broadcast\<close> over a list of servers calls every one of them, whatever the order in
  which the calls finish. It fails exactly if some call failed, with the error of the first one
  to fail, which also cancels the others; the caller's reply is that of the first call that
  succeeded, even when \<^verbatim>\<open>Broadcast\<close> fails, and untouched if none succeeded or it was nil.
\<close>

theorem Broadcast_correct:
  assumes "Broadcast multi_GetAll order outcome_of reply m = ((e, b), m')"
    and "\<And>n. mset (order n) = mset [0..<n]"
    and "\<And>i. res i = outcome_of i (md_servers m ! i)"
  shows "m' = m \<and> (e = None \<longleftrightarrow> (\<forall>i < length (md_servers m). fst (res i) = None)) \<and>
    (e \<noteq> None \<longrightarrow> (\<exists>i. find (\<lambda>i. fst (res i) \<noteq> None) (order (length (md_servers m))) = Some i \<and> e = fst (res i))) \<and>
    (bc_cancelled b \<longleftrightarrow> e \<noteq> None) \<and>
    bc_reply b = (if reply = None then None
      else case find (\<lambda>i. fst (res i) = None) (order (length (md_servers m))) of
          None \<Rightarrow> reply | Some i \<Rightarrow> Some (snd (res i)))"
proof -
  let ?b0 = "\<lparr>bc_e = None, bc_replyDone = (reply = None), bc_reply = reply, bc_cancelled = False\<rparr>"
  let ?order = "order (length (md_servers m))"
  have get: "multi_GetAll m = (Inr (md_servers m), m)" by (simp add: multi_GetAll_def)
  have same: "set ?order = {..<length (md_servers m)}"
    using arg_cong [OF assms(2) [of "length (md_servers m)"], of set_mset] by (auto simp: atLeast0LessThan)
  have b: "b = fold broadcast_one (map res ?order) ?b0" "e = bc_e b" "m' = m"
    using assms(1) by (auto simp: Broadcast_def get Let_def fold_map comp_def assms(3))
  have found: "find P (map res xs) = map_option res (find (\<lambda>i. P (res i)) xs)" for P xs
    by (induction xs) auto
  have e: "e = (case find (\<lambda>i. fst (res i) \<noteq> None) ?order of None \<Rightarrow> None | Some i \<Rightarrow> fst (res i))"
    unfolding b(2) b(1) broadcast_fold(1) found by (simp split: option.split)
  have r: "bc_reply b = (if reply = None then None
      else case find (\<lambda>i. fst (res i) = None) ?order of None \<Rightarrow> reply | Some i \<Rightarrow> Some (snd (res i)))"
    unfolding b(1) broadcast_fold(2) found by (simp split: option.split)
  have c: "bc_cancelled b \<longleftrightarrow> (\<exists>i < length (md_servers m). fst (res i) \<noteq> None)"
    unfolding b(1) broadcast_fold(3) using same by auto
  show ?thesis
  proof (cases "find (\<lambda>i. fst (res i) \<noteq> None) ?order")
    case None
    then have "\<forall>i < length (md_servers m). fst (res i) = None" by (simp add: find_None_iff same)
    with None e r c b(3) show ?thesis by auto
  next
    case (Some i)
    then have "i < length (md_servers m)" "fst (res i) \<noteq> None"
      using same by (auto simp: find_Some_iff dest!: nth_mem)
    with Some e r c b(3) show ?thesis by auto
  qed
qed

theorem Broadcast_correct_witness:
  "fst (fst (Broadcast multi_GetAll (\<lambda>n. rev [0..<n]) (\<lambda>i a. if i = 1 then (Some ''down'', 0) else (None, 7 :: nat)) (Some 0)
     \<lparr>md_rand = (), md_servers = [''tcp@a'', ''tcp@b'', ''tcp@c''], md_index = 0\<rparr>)) = Some ''down''"
proof -
  let ?m = "\<lparr>md_rand = (), md_servers = [''tcp@a'', ''tcp@b'', ''tcp@c''], md_index = 0\<rparr>"
  let ?r = "\<lambda>i :: nat. if i = 1 then (Some ''down'', 0) else (None, 7 :: nat)"
  obtain e b m' where run: "Broadcast multi_GetAll (\<lambda>n. rev [0..<n]) (\<lambda>i a. ?r i) (Some 0) ?m = ((e, b), m')"
    by (metis surj_pair)
  have "find (\<lambda>i. fst (?r i) \<noteq> None) (rev [0..<length (md_servers ?m)]) = Some 1" by (simp add: upt_rec)
  moreover have "e \<noteq> None \<and> (\<exists>i. find (\<lambda>i. fst (?r i) \<noteq> None) (rev [0..<length (md_servers ?m)]) = Some i \<and> e = fst (?r i))"
    using Broadcast_correct [OF run, of ?r] by auto
  ultimately show ?thesis using run by auto
qed

subsection \<open>Calls over discovered servers\<close>

text \<open>The empty address cannot be dialled, and calling it leaves the cache and the reply alone.\<close>

definition dial_result :: "'a dial_end outcome \<Rightarrow> goerror + 'a client" where
  "dial_result out = (case out of Ret d \<Rightarrow> de_result d | _ \<Rightarrow> Inl ''no result'')"

lemma XDial_empty:
  "dial_result (XDial read_headers answer encode_err in_time dur net_dial '''' opts)
    = Inl (''rpc client err: wrong format '' @ [CHR 0x27, CHR 0x27] @ '', expected protocol@addr'')"
  by (simp add: XDial_def dial_result_def)

lemma call_empty:
  assumes "xc_clients x '''' = None"
    and "xdial = (\<lambda>a. dial_result (XDial read_headers answer encode_err in_time dur net_dial a opts))"
  shows "\<exists>err. xclient_call xdial remote '''' reply x = ((Some err, reply), x)"
  using assms(1) by (simp add: xclient_call_def xclient_dial_def assms(2) XDial_empty)

text \<open>
  Over servers that the discovery has fetched from the registry no \<^verbatim>\<open>Broadcast\<close> ever
  succeeds, even if every server is alive and every call of one succeeds: the list begins with
  empty addresses, which cannot be dialled. For the same reason as many calls of a round of
  \<^verbatim>\<open>Call\<close> get an empty address as there are alive servers.
\<close>

theorem discovered_broadcast_fails:
  fixes d :: "'g reg_disc"
  assumes "aliveServers order clock s = (alive, s1)" and "list_all plain_address alive"
    and "time_Now w = (now, w1)" and "sd_lastUpdate d + sd_timeout d \<le> now"
    and "http_Get (sd_registry d) w1
      = (Inr (sent_header ''X-Surpc-Servers'' (fst (registry_ServeHTTP order clock ''GET'' '''' s))), w2)"
    and "time_Now w2 = (now2, w3)"
    and "xdial = (\<lambda>a. dial_result (XDial read_headers answer encode_err in_time dur net_dial a opts))"
    and "\<And>i a. outcome_of i a = fst (xclient_call xdial (remote i) a reply0 (x i))"
    and "\<And>i. xc_clients (x i) '''' = None" and "\<And>n. mset (finish n) = mset [0..<n]"
    and "Broadcast (reg_disc_GetAll time_Now http_Get) finish outcome_of reply (d, w) = ((e, b), (d', w'))"
  shows "md_servers (sd_multi d') = replicate (if alive = [] then 1 else length alive) '''' @ alive \<and>
    e \<noteq> None \<and>
    (\<exists>xs. fst (multi_gets intn RoundRobinSelect (length (md_servers (sd_multi d'))) (sd_multi d')) = map Inr xs \<and>
      count (mset xs) '''' = (if alive = [] then 1 else length alive))"
proof -
  obtain d1 where d1: "reg_disc_Refresh time_Now http_Get (d, w) = (None, (d1, w3))"
    "md_servers (sd_multi d1) = replicate (if alive = [] then 1 else length alive) '''' @ alive"
    "\<exists>xs. fst (multi_gets intn RoundRobinSelect (length (md_servers (sd_multi d1))) (sd_multi d1)) = map Inr xs \<and>
      count (mset xs) '''' = (if alive = [] then 1 else length alive)"
    using registry_to_discovery [where time_Now = time_Now and w = w and ?w2.0 = w2 and d = d and http_Get = http_Get
      and intn = intn, OF assms(1-6)] by blast
  have "reg_disc_GetAll time_Now http_Get (d, w) = (Inr (md_servers (sd_multi d1)), (d1, w3))"
    by (simp add: reg_disc_GetAll_def d1(1) multi_GetAll_def)
  then have d': "d' = d1" "w' = w3" using assms(11) by (auto simp: Broadcast_def Let_def)
  have first: "0 < length (md_servers (sd_multi d1))" "md_servers (sd_multi d1) ! 0 = ''''"
    unfolding d1(2) by (auto simp: nth_append)
  have "fst (outcome_of 0 '''') \<noteq> None"
    using call_empty [where x = "x 0" and remote = "remote 0" and reply = reply0, OF assms(9,7)]
    by (auto simp: assms(8))
  then have "e \<noteq> None"
    using reg_disc.Broadcast_fails [OF assms(11) assms(10), of 0] first by (simp add: d')
  with d1(2,3) show ?thesis by (simp add: d')
qed

theorem discovered_broadcast_fails_witness:
  "fst (fst (Broadcast (reg_disc_GetAll (\<lambda>w. (w, w + 1))
       (\<lambda>_ w. (Inr (sent_header ''X-Surpc-Servers'' (fst (registry_ServeHTTP [''tcp@b'', ''tcp@a''] (\<lambda>_. 120) ''GET'' ''''
         two_servers))), w)))
     (\<lambda>n. [0..<n])
     (\<lambda>i a. fst (xclient_call (\<lambda>a. dial_result (XDial (\<lambda>_. None) None None (\<lambda>_. True) (\<lambda>_. ''10s'')
        (\<lambda>_ _ _. Inr \<lparr>cn_out = [], cn_open = True\<rparr>) a []))
        (\<lambda>_. (None, 7 :: nat)) a 0 (NewXClient :: nat xclient)))
     (Some 0) (NewSuRegistryDiscovery (\<lambda>_ g. (g, g)) (0 :: nat) ''http://registry'' 0, 0 :: int))) \<noteq> None"
    (is "fst (fst (Broadcast (reg_disc_GetAll ?now ?get) ?finish ?outcome ?reply (?d, _))) \<noteq> None")
proof -
  obtain s1 where alive: "aliveServers [''tcp@b'', ''tcp@a''] (\<lambda>_. 120) two_servers = ([''tcp@b''], s1)"
    by (simp add: aliveServers_def two_servers_def)
  have plain: "list_all plain_address [''tcp@b'']" by (simp add: plain_address_def is_space_def)
  have old: "sd_lastUpdate ?d + sd_timeout ?d \<le> 0"
    by (simp add: NewSuRegistryDiscovery_def zero_time_def defaultUpdateTimeout_def time_Second_def)
  have split: "x = ((fst (fst x), snd (fst x)), (fst (snd x), snd (snd x)))" for x :: "('p \<times> 'q) \<times> 'r \<times> 's" by simp
  note run = split [of "Broadcast (reg_disc_GetAll ?now ?get) ?finish ?outcome ?reply (?d, 0)"]
  have times: "?now 0 = (0, 1)" "?now 1 = (1, 2)" by simp_all
  have answer: "?get (sd_registry ?d) 1 = (Inr (sent_header ''X-Surpc-Servers''
      (fst (registry_ServeHTTP [''tcp@b'', ''tcp@a''] (\<lambda>_. 120) ''GET'' '''' two_servers))), 1)" by (rule refl)
  have none: "xc_clients (NewXClient :: nat xclient) '''' = None" by (simp add: NewXClient_def)
  note fails = discovered_broadcast_fails [where time_Now = ?now and http_Get = ?get and d = ?d and w = 0 and
      outcome_of = ?outcome and remote = "\<lambda>_ _. (None, 7)" and ?reply0.0 = 0 and x = "\<lambda>_. NewXClient" and
      finish = ?finish and intn = "\<lambda>_ g. (g, g)"]
  show ?thesis
    by (rule fails [OF alive plain times(1) old answer times(2) refl refl none refl run, THEN conjunct2, THEN conjunct1])
qed

end
