(* ===== verification/RPC_Methods.thy ===== *)
theory RPC_Methods
  imports RPC_Client RPC_Server
begin

section \<open>Package surpc: calls from client to method\<close>

text \<open>
  \<^verbatim>\<open>SuRPC/client.go\<close>, \<^verbatim>\<open>server.go\<close> and \<^verbatim>\<open>service.go\<close> together. In the step relation of the
  server a call returns anything; here the runs are those in which it returns what the method
  does, a relation \<open>meth\<close> between a request and the result of \<^verbatim>\<open>service.call\<close>. The lemmas show
  that every response is then made of such a result, and trace it back to a call of the client.
\<close>

subsection \<open>Runs in which the methods answer\<close>

definition worked_step ::
  "('b request \<Rightarrow> goerror option \<times> 'r \<Rightarrow> bool) \<Rightarrow> server \<Rightarrow> (rtype \<Rightarrow> 'a \<Rightarrow> goerror + 'b) \<Rightarrow> int \<Rightarrow> string \<Rightarrow>
   ('a, 'b, 'r) sconn \<Rightarrow> ('a, 'b, 'r) sconn \<Rightarrow> bool" where
  "worked_step meth s dec timeout dur n n' \<longleftrightarrow>
     sv_step s dec (\<lambda>_. None) timeout dur n n' \<and>
     (\<forall>i res. sn_worker n i = WCall \<and> sn_worker n' i = WCalled res \<longrightarrow> meth (sn_reqs n ! i) res)"

fun worker_worked :: "('b request \<Rightarrow> goerror option \<times> 'r \<Rightarrow> bool) \<Rightarrow> 'b request \<Rightarrow> 'r worker_pc \<Rightarrow> bool" where
  "worker_worked meth r (WCalled res) \<longleftrightarrow> meth r res"
| "worker_worked meth r (WSend h b) \<longleftrightarrow> (\<exists>res. meth r res \<and> (h, b) = result_msg (rq_h r) res)"
| "worker_worked meth r _ \<longleftrightarrow> True"

definition timed_out :: "int \<Rightarrow> string \<Rightarrow> 'b request \<Rightarrow> header \<times> 'r option \<Rightarrow> bool" where
  "timed_out timeout dur r m \<longleftrightarrow> timeout \<noteq> 0 \<and> m = (timeout_header dur (rq_h r), None)"

definition answered :: "('b request \<Rightarrow> goerror option \<times> 'r \<Rightarrow> bool) \<Rightarrow> 'b request \<Rightarrow> header \<times> 'r option \<Rightarrow> bool" where
  "answered meth r m \<longleftrightarrow> (\<exists>res. meth r res \<and> m = result_msg (rq_h r) res)"

fun sent_worked ::
  "int \<Rightarrow> string \<Rightarrow> ('b request \<Rightarrow> goerror option \<times> 'r \<Rightarrow> bool) \<Rightarrow> 'b request list \<Rightarrow> sender \<times> header \<times> 'r option \<Rightarrow> bool" where
  "sent_worked timeout dur meth rs (LoopSender, m) \<longleftrightarrow> True"
| "sent_worked timeout dur meth rs (MainSender i, m) \<longleftrightarrow> i < length rs \<and> timed_out timeout dur (rs ! i) m"
| "sent_worked timeout dur meth rs (WorkerSender i, m) \<longleftrightarrow> i < length rs \<and> answered meth (rs ! i) m"

definition work_inv ::
  "int \<Rightarrow> string \<Rightarrow> ('b request \<Rightarrow> goerror option \<times> 'r \<Rightarrow> bool) \<Rightarrow> ('a, 'b, 'r) sconn \<Rightarrow> bool" where
  "work_inv timeout dur meth n \<longleftrightarrow> sv_inv timeout dur n \<and>
     (\<forall>i < length (sn_reqs n). worker_worked meth (sn_reqs n ! i) (sn_worker n i)) \<and>
     (\<forall>e \<in> set (sn_sent n). sent_worked timeout dur meth (sn_reqs n) e)"

lemma sent_worked_more: "sent_worked timeout dur meth rs e \<Longrightarrow> sent_worked timeout dur meth (rs @ [r]) e"
  by (cases "(timeout, dur, meth, rs, e)" rule: sent_worked.cases) (auto simp: nth_append)

lemma worker_idle:
  assumes "sv_inv timeout dur n" and "sn_worker n i \<noteq> WNone"
  shows "i < length (sn_reqs n)"
  using handlers_at [of timeout dur n i] assms by (simp add: sv_inv_def)

lemma main_sending:
  assumes "sv_inv timeout dur n" and "sn_main n i = HSend h"
  shows "i < length (sn_reqs n) \<and> timed_out timeout dur (sn_reqs n ! i) (h, None)"
  using handlers_at [of timeout dur n i] assms by (simp add: sv_inv_def timed_out_def)

text \<open>Steps of the loop change no worker but a new one; steps of the handlers send nothing.\<close>

lemma work_loop_step:
  assumes "work_inv timeout dur meth n" and "loop_step s dec n n'" and "sv_inv timeout dur n'"
  shows "work_inv timeout dur meth n'"
  using assms(2,1,3)
proof cases
  case (loop_request r rest)
  with assms(1,3) show ?thesis
    by (auto simp: work_inv_def nth_append less_Suc_eq intro: sent_worked_more)
qed (auto simp: work_inv_def)

lemma work_handle_step:
  assumes "work_inv timeout dur meth n" and "handle_step timeout dur n n'" and "sv_inv timeout dur n'"
    and "\<forall>i res. sn_worker n i = WCall \<and> sn_worker n' i = WCalled res \<longrightarrow> meth (sn_reqs n ! i) res"
  shows "work_inv timeout dur meth n'"
  using assms(2)
proof cases
  case (handle_return i res)
  then have "sn_worker n i = WCall \<and> sn_worker n' i = WCalled res" by simp
  then have "meth (sn_reqs n ! i) res" using assms(4) by blast
  with handle_return(1) assms(1,3) show ?thesis by (simp add: work_inv_def)
next
  case (handle_called i res h b)
  then have "i < length (sn_reqs n)" using worker_idle [of timeout dur n i] assms(1) by (simp add: work_inv_def)
  then have "worker_worked meth (sn_reqs n ! i) (WCalled res)"
    using assms(1) handle_called(3) unfolding work_inv_def by metis
  then have "worker_worked meth (sn_reqs n ! i) (WSend h b)"
    using handle_called(4) by (auto simp del: split_paired_Ex)
  with handle_called(1) assms(1,3) show ?thesis by (simp add: work_inv_def)
qed (use assms(1,3) in \<open>auto simp: work_inv_def\<close>)

lemma work_send_step:
  assumes inv: "work_inv timeout dur meth n" and "send_step enc n n'" and "sv_inv timeout dur n'"
  shows "work_inv timeout dur meth n'"
  using assms(2)
proof cases
  case (send_body x h b)
  have sv: "sv_inv timeout dur n" using inv by (simp add: work_inv_def)
  have x: "in_sendResponse n x h b"
    using sv send_body(2) by (auto simp: sv_inv_def dest: sendingD)
  have sent: "sent_worked timeout dur meth (sn_reqs n) (x, h, b)"
  proof (cases x)
    case (MainSender i)
    with x main_sending [OF sv, of i h] show ?thesis by simp
  next
    case (WorkerSender i)
    with x have w: "sn_worker n i = WSend h b" by simp
    then have i: "i < length (sn_reqs n)" using worker_idle [OF sv] by simp
    then have "worker_worked meth (sn_reqs n ! i) (WSend h b)" using inv w unfolding work_inv_def by metis
    with WorkerSender i show ?thesis by (simp add: answered_def)
  qed simp
  show ?thesis using inv assms(3) sent send_body(1) by (cases x) (auto simp: work_inv_def)
qed (use inv assms(3) in \<open>auto simp: work_inv_def\<close>)

interpretation working: inductive_invariant sv_init "worked_step meth s dec timeout dur" "work_inv timeout dur meth"
  for meth s dec timeout dur
proof
  show "work_inv timeout dur meth n" if "sv_init n" for n
    using sv_start_inv [OF that] that by (auto simp: work_inv_def sv_init_def sv_start_def)
  show "work_inv timeout dur meth n'" if "work_inv timeout dur meth n" "worked_step meth s dec timeout dur n n'" for n n'
  proof -
    have "sv_inv timeout dur n'" using that sv_step_inv by (auto simp: worked_step_def work_inv_def)
    with that work_loop_step work_handle_step work_send_step show ?thesis
      unfolding worked_step_def sv_step_def by blast
  qed
qed

text \<open>Every response for a request is the error of the timeout or what the method answered.\<close>

lemma worked_response:
  assumes "work_inv timeout dur meth n" and "m \<in> set (responses n (Some i))"
  shows "timed_out timeout dur (sn_reqs n ! i) m \<or> answered meth (sn_reqs n ! i) m"
proof -
  obtain x where x: "(x, m) \<in> set (sn_sent n)" "handler_of x = Some i"
    using assms(2) by (auto simp: responses_def)
  then have "sent_worked timeout dur meth (sn_reqs n) (x, m)" using assms(1) by (auto simp: work_inv_def)
  with x(2) show ?thesis by (cases x) auto
qed

subsection \<open>What service.call answers\<close>

text \<open>
  The results of \<^verbatim>\<open>service.call\<close> for a request, when a method \<open>m\<close> does \<open>f m\<close> with its decoded
  argument: the error it returns and the reply it leaves.
\<close>

definition service_answers :: "(rmethod \<Rightarrow> 'b \<Rightarrow> goerror option \<times> 'r) \<Rightarrow> 'b request \<Rightarrow> goerror option \<times> 'r \<Rightarrow> bool" where
  "service_answers f r res \<longleftrightarrow>
     (case newArgv (rq_mType r) of
        Ret a \<Rightarrow> fst (service_call (\<lambda>m _ _. f m (rq_argv r)) (rq_svc r) (rq_mType r) a (rq_replyv r)) = Ret res
      | _ \<Rightarrow> False)"

lemma service_answers_method: "service_answers f r res \<Longrightarrow> res = f (mt_method (rq_mType r)) (rq_argv r)"
  by (auto simp: service_answers_def service_call_def Let_def split: outcome.splits if_splits)

subsection \<open>From a response back to the call\<close>

text \<open>
  A request that the server has read from what a client wrote is that of one registered call:
  its number, its method and its encoded arguments.
\<close>

lemma call_of_request:
  assumes "reach cl_init cl_step c" and "few_calls c"
    and "(sv_step s dec (\<lambda>_. None) timeout dur ^^ k) (sv_start (frames (cl_wire c))) n"
    and "i < length (sn_reqs n)"
  obtains j x t where "j \<in> set (cl_regs c)" "cl_calls c j = Some x"
    "rc_Seq x = h_Seq (rq_h (sn_reqs n ! i))" "rc_ServiceMethod x = h_ServiceMethod (rq_h (sn_reqs n ! i))"
    "dec t (rc_Args x) = Inr (rq_argv (sn_reqs n ! i))" "h_Err (rq_h (sn_reqs n ! i)) = ''''"
proof -
  have wire: "wire_ok c" using inv_unfold [OF client.inv_reach [OF assms(1)] assms(2)] by simp
  obtain a t where a: "(rq_h (sn_reqs n ! i), a) \<in> set (cl_wire c)" "dec t a = Inr (rq_argv (sn_reqs n ! i))"
    using handled_origin(2) [OF assms(3,4)] by blast
  from wireD [OF wire a(1)] a(2) that show ?thesis by blast
qed

text \<open>No other registered call has the number, and receiving it concerns no other call.\<close>

lemma call_unique:
  assumes "reach cl_init cl_step c" and "few_calls c"
    and "j \<in> set (cl_regs c)" and "cl_calls c j = Some x"
  shows "j' \<in> set (cl_regs c) \<Longrightarrow> cl_calls c j' = Some x' \<Longrightarrow> rc_Seq x' = rc_Seq x \<Longrightarrow> j' = j"
    and "fst (removeCall (rc_Seq x) c) \<in> {None, Some j}"
proof -
  have "numbering_ok c" and pend: "pending_ok c"
    using inv_unfold [OF client.inv_reach [OF assms(1)] assms(2)] by simp_all
  note num = registered_seq(2) [OF this(1) assms(2)]
  show uniq: "j' = j" if "j' \<in> set (cl_regs c)" "cl_calls c j' = Some x'" "rc_Seq x' = rc_Seq x" for j' x'
    using num [OF assms(3,4) that(1,2)] that(3) by simp
  show "fst (removeCall (rc_Seq x) c) \<in> {None, Some j}"
  proof (cases "cl_pending c (rc_Seq x)")
    case None
    then show ?thesis by (simp add: removeCall_def)
  next
    case (Some j')
    with pendingD [OF pend Some] uniq show ?thesis by (auto simp: removeCall_def)
  qed
qed

text \<open>Runs in which the methods answer are runs.\<close>

lemma worked_run: "(worked_step meth s dec timeout dur ^^ k) n n' \<Longrightarrow> (sv_step s dec (\<lambda>_. None) timeout dur ^^ k) n n'"
proof (induction k arbitrary: n')
  case 0
  then show ?case by simp
next
  case (Suc k)
  then show ?case by (auto simp: worked_step_def)
qed

lemma worked_start: "(worked_step meth s dec timeout dur ^^ k) (sv_start ms) n \<Longrightarrow> work_inv timeout dur meth n"
proof -
  assume run: "(worked_step meth s dec timeout dur ^^ k) (sv_start ms) n"
  have "sv_init (sv_start ms)" unfolding sv_init_def by (rule exI) (rule refl)
  then have "work_inv timeout dur meth (sv_start ms)" by (rule working.inv_init)
  then show ?thesis by (rule working.inv_steps [OF relpowp_imp_rtranclp [OF run]])
qed

end
