(* ===== verification/RPC_System.thy ===== *)
theory RPC_System
  imports RPC_Methods
begin

section \<open>Package surpc: a client and a server together\<close>

text \<open>
  A client of \<^verbatim>\<open>SuRPC/client.go\<close> and the server of \<^verbatim>\<open>SuRPC/server.go\<close> on the two ends of one
  connection. A step of the system is a step of one of the two: what the client writes is appended to what
  the server has to read, and the client reads what the server has written, in the order of both.
  At any moment the connection may break, a \<^verbatim>\<open>Write\<close> may fail, or the client may be closed. Two
  results span the connection: a call that returned without an error has the result of its own
  method on its own arguments, and every call returns.
\<close>

subsection \<open>The connection\<close>

text \<open>
  \<open>sy_read\<close> is the number of values the client has read, \<open>sy_up\<close> whether the connection
  has neither broken nor been closed by the client. What is given: the services, the encoding
  and decoding of bodies, the option's timeout and its text, and what methods answer.
\<close>

record ('a, 'b, 'r) rpc_sys =
  sy_client :: "'a client"
  sy_server :: "('a, 'b, 'r) sconn"
  sy_read :: nat
  sy_up :: bool

record ('a, 'b, 'r) rpc_env =
  en_services :: server
  en_dec :: "rtype \<Rightarrow> 'a \<Rightarrow> goerror + 'b"
  en_enc :: "'r option \<Rightarrow> goerror option"
  en_reply :: "'r option \<Rightarrow> goerror + 'a"
  en_timeout :: int
  en_dur :: string
  en_meth :: "'b request \<Rightarrow> goerror option \<times> 'r \<Rightarrow> bool"

definition sy_start :: "('a, 'b, 'r) rpc_sys" where
  "sy_start = \<lparr>sy_client = newCientCodec, sy_server = sv_start [], sy_read = 0, sy_up = True\<rparr>"

definition sy_init :: "('a, 'b, 'r) rpc_sys \<Rightarrow> bool" where
  "sy_init y \<longleftrightarrow> y = sy_start"

definition unread :: "('a, 'b, 'r) rpc_sys \<Rightarrow> 'r option message list" where
  "unread y = drop (sy_read y) (gc_out (sn_codec (sy_server y)))"

text \<open>
  A read by the client returns once there is something to read or the server has closed the
  connection; on a broken connection it fails.
\<close>

definition can_read :: "('a, 'b, 'r) rpc_sys \<Rightarrow> bool" where
  "can_read y \<longleftrightarrow> unread y \<noteq> [] \<or> \<not> gc_open (sn_codec (sy_server y))"

definition header_read :: "('a, 'b, 'r) rpc_sys \<Rightarrow> goerror + header \<Rightarrow> bool" where
  "header_read y res \<longleftrightarrow>
     (if sy_up y then can_read y \<and> res = fst (gob_ReadHeader (unread y)) else (\<exists>e. res = Inl e))"

text \<open>
  The body is read into the reply of the call, or skipped if there is no call or an error in
  the header; what a skipped body is does not matter.
\<close>

definition body_read :: "('r option \<Rightarrow> goerror + 'a) \<Rightarrow> nat option \<Rightarrow> header \<Rightarrow> ('a, 'b, 'r) rpc_sys \<Rightarrow> goerror + 'a \<Rightarrow> bool" where
  "body_read dec_reply r h y body \<longleftrightarrow>
     (if \<not> sy_up y then (\<exists>e. body = Inl e)
      else can_read y \<and>
        (if r \<noteq> None \<and> h_Err h = '''' then body = fst (gob_ReadBody dec_reply (unread y))
         else (case fst (gob_ReadBody (\<lambda>_. Inr ()) (unread y)) of Inl e \<Rightarrow> body = Inl e | Inr _ \<Rightarrow> (\<exists>v. body = Inr v))))"

text \<open>What \<^verbatim>\<open>receive\<close> does with a header, and with a body.\<close>

definition receive_header :: "goerror + header \<Rightarrow> 'a client \<Rightarrow> 'a client" where
  "receive_header res c =
     (case res of
        Inr h \<Rightarrow> (case removeCall (h_Seq h) c of (r, c1) \<Rightarrow> c1\<lparr>cl_recv := RGot r h\<rparr>)
      | Inl e \<Rightarrow> c\<lparr>cl_recv := RTerminate e\<rparr>)"

definition receive_body :: "nat option \<Rightarrow> header \<Rightarrow> goerror + 'a \<Rightarrow> 'a client \<Rightarrow> 'a client" where
  "receive_body r h body c =
     (case r of Some i \<Rightarrow> upd_call i (complete_call h body) c | None \<Rightarrow> c)
       \<lparr>cl_recv := (case body of Inr _ \<Rightarrow> RRead | Inl e \<Rightarrow> RTerminate e)\<rparr>"

lemma receive_header_step: "cl_recv c = RRead \<Longrightarrow> receive_step c (receive_header res c)"
  by (auto simp: receive_header_def split: sum.split prod.split intro: recv_header recv_header_error)

lemma receive_body_step: "cl_recv c = RGot r h \<Longrightarrow> receive_step c (receive_body r h body c)"
  using recv_body [of c _ h body] recv_skip_body [of c h RRead] recv_skip_body [of c h "RTerminate e" e for e]
  by (cases r; cases body) (fastforce simp: receive_body_def)+

subsection \<open>Steps\<close>

text \<open>A step of a caller: its \<^verbatim>\<open>Write\<close>, a new call, and a call whose context ends before its result.\<close>

definition writes :: "'a client \<Rightarrow> 'a client \<Rightarrow> bool" where
  "writes c c' \<longleftrightarrow> (\<exists>i seq. cl_pc c i = SWrite seq \<and> cl_pc c' i = SWaiting)"

definition starts :: "'a client \<Rightarrow> 'a client \<Rightarrow> bool" where
  "starts c c' \<longleftrightarrow> (\<exists>i. cl_pc c i = Unused \<and> cl_pc c' i \<noteq> Unused)"

definition gives_up :: "'a client \<Rightarrow> 'a client \<Rightarrow> bool" where
  "gives_up c c' \<longleftrightarrow>
     (\<exists>i x. cl_pc c i = SWaiting \<and> cl_pc c' i \<noteq> SWaiting \<and> cl_calls c i = Some x \<and> rc_done x = 0)"

text \<open>
  A step of the server: its \<^verbatim>\<open>Read\<close> waits on a connection that is up, a method returns what it
  answers, and on a connection that is not up a \<^verbatim>\<open>Write\<close> may fail with any error.
\<close>

definition server_step ::
  "('a, 'b, 'r) rpc_env \<Rightarrow> bool \<Rightarrow> ('a, 'b, 'r) sconn \<Rightarrow> ('a, 'b, 'r) sconn \<Rightarrow> bool" where
  "server_step E up n n' \<longleftrightarrow>
     (\<exists>enc. (up \<longrightarrow> enc = en_enc E) \<and> sv_step (en_services E) (en_dec E) enc (en_timeout E) (en_dur E) n n') \<and>
     (\<forall>i res. sn_worker n i = WCall \<and> sn_worker n' i = WCalled res \<longrightarrow> en_meth E (sn_reqs n ! i) res) \<and>
     (up \<and> gc_open (sn_codec n) \<and> sn_loop n = LRead \<and> sn_in n = [] \<longrightarrow> sn_loop n' = LRead)"

text \<open>
  A broken connection delivers some of what was written to it. A \<^verbatim>\<open>Write\<close> that fails has
  perhaps sent the header. \<^verbatim>\<open>Close\<close> has no further effect on a client that is closing or shut down.
\<close>

inductive sys_step :: "('a, 'b, 'r) rpc_env \<Rightarrow> ('a, 'b, 'r) rpc_sys \<Rightarrow> ('a, 'b, 'r) rpc_sys \<Rightarrow> bool" for E where
  sys_call:
    "call_step (sy_client y) c \<Longrightarrow> \<not> (sy_up y \<and> writes (sy_client y) c) \<Longrightarrow> sys_step E y (y\<lparr>sy_client := c\<rparr>)"
| sys_write:
    "sy_up y \<Longrightarrow> call_step (sy_client y) c \<Longrightarrow> writes (sy_client y) c \<Longrightarrow>
     cl_wire c = cl_wire (sy_client y) @ [f] \<Longrightarrow> n = sy_server y \<Longrightarrow>
     sys_step E y (y\<lparr>sy_client := c, sy_server := n\<lparr>sn_in := sn_in n @ frames [f]\<rparr>\<rparr>)"
| sys_write_fails:
    "sy_up y \<Longrightarrow> call_step (sy_client y) c \<Longrightarrow> cl_pc (sy_client y) i = SWrite seq \<Longrightarrow> cl_pc c i = SWaiting \<Longrightarrow>
     cl_wire c = cl_wire (sy_client y) \<Longrightarrow> h = request_header i seq (sy_client y) \<Longrightarrow> n = sy_server y \<Longrightarrow>
     sys_step E y (y\<lparr>sy_client := c, sy_server := n\<lparr>sn_in := take m (sn_in n @ [MHeader h])\<rparr>, sy_up := False\<rparr>)"
| sys_close:
    "\<not> cl_closing (sy_client y) \<Longrightarrow> client_Close (sy_client y) = (None, c) \<Longrightarrow> n = sy_server y \<Longrightarrow>
     sys_step E y (y\<lparr>sy_client := c, sy_server := n\<lparr>sn_in := take m (sn_in n)\<rparr>, sy_up := False\<rparr>)"
| sys_break:
    "sy_up y \<Longrightarrow> n = sy_server y \<Longrightarrow>
     sys_step E y (y\<lparr>sy_server := n\<lparr>sn_in := take m (sn_in n)\<rparr>, sy_up := False\<rparr>)"
| sys_server:
    "server_step E (sy_up y) (sy_server y) n \<Longrightarrow> sys_step E y (y\<lparr>sy_server := n\<rparr>)"
| sys_header:
    "cl_recv (sy_client y) = RRead \<Longrightarrow> header_read y res \<Longrightarrow>
     sys_step E y (y\<lparr>sy_client := receive_header res (sy_client y), sy_read := Suc (sy_read y)\<rparr>)"
| sys_body:
    "cl_recv (sy_client y) = RGot r h \<Longrightarrow> body_read (en_reply E) r h y body \<Longrightarrow>
     sys_step E y (y\<lparr>sy_client := receive_body r h body (sy_client y), sy_read := Suc (sy_read y)\<rparr>)"
| sys_terminate:
    "cl_recv (sy_client y) = RTerminate e \<Longrightarrow> cl_sending (sy_client y) = None \<Longrightarrow>
     sys_step E y (y\<lparr>sy_client := (terminateCalls e (sy_client y))\<lparr>cl_recv := RStopped\<rparr>\<rparr>)"

inductive_cases sys_stepE: "sys_step E y z"

text \<open>The client makes steps of its own model only.\<close>

lemma sys_client_step:
  assumes "sys_step E y z"
  shows "sy_client z = sy_client y \<or> cl_step (sy_client y) (sy_client z)"
  using assms
proof cases
  case (sys_close c n m)
  then show ?thesis by (auto simp: cl_step_def)
next
  case (sys_header res)
  then show ?thesis by (auto intro: receive_cl_step receive_header_step)
next
  case (sys_body r h body)
  then show ?thesis by (auto intro: receive_cl_step receive_body_step)
next
  case (sys_terminate e)
  then show ?thesis by (auto intro: step_terminate)
qed (auto intro: call_cl_step)

interpretation client_end: contains_component sy_init "sys_step E" sy_client cl_init cl_step for E
  by unfold_locales (auto simp: sy_init_def sy_start_def cl_init_def dest: sys_client_step)

subsection \<open>What the server reads\<close>

text \<open>
  What a connection on which the requests \<open>W\<close> were written has yet to deliver: whole requests,
  and at the end perhaps a lone header if it is not up. Behind a body that was not read
  anything may follow, since the server stops reading there.
\<close>

fun delivered :: "bool \<Rightarrow> (header \<times> 'a) set \<Rightarrow> 'a message list \<Rightarrow> bool" where
  "delivered up W [] \<longleftrightarrow> True"
| "delivered up W (MBody a # ms) \<longleftrightarrow> True"
| "delivered up W [MHeader h] \<longleftrightarrow> \<not> up"
| "delivered up W (MHeader h # MBody a # ms) \<longleftrightarrow> (h, a) \<in> W \<and> delivered up W ms"
| "delivered up W (MHeader h # MHeader h' # ms) \<longleftrightarrow> False"

lemma delivered_mono: "delivered up W ms \<Longrightarrow> W \<subseteq> W' \<Longrightarrow> delivered up W' ms"
  by (induction up W ms rule: delivered.induct) auto

lemma delivered_frame: "delivered True W ms \<Longrightarrow> f \<in> W \<Longrightarrow> delivered True W (ms @ frames [f])"
  by (induction "True" W ms rule: delivered.induct) (cases f; auto)+

lemma delivered_lone: "delivered True W ms \<Longrightarrow> delivered False W (ms @ [MHeader h])"
  by (induction "True" W ms rule: delivered.induct) auto

lemma delivered_take: "delivered up W ms \<Longrightarrow> delivered False W (take m ms)"
proof (induction up W ms arbitrary: m rule: delivered.induct)
  case (4 up W h a ms)
  then show ?case by (cases m; cases "m - 1") auto
qed (auto simp: take_Cons split: nat.split)

definition readable :: "('a, 'b, 'r) rpc_env \<Rightarrow> 'b request \<Rightarrow> bool" where
  "readable E r \<longleftrightarrow> (\<exists>ms rest. readRequest (en_services E) (en_dec E) ms = (Ret (GoodRequest r), rest))"

definition request_of :: "('a, 'b, 'r) rpc_env \<Rightarrow> (header \<times> 'a) set \<Rightarrow> 'b request \<Rightarrow> bool" where
  "request_of E W r \<longleftrightarrow>
     (\<exists>a t. (rq_h r, a) \<in> W \<and> en_dec E t a = Inr (rq_argv r)) \<and>
     findService (h_ServiceMethod (rq_h r)) (en_services E) = Inr (rq_svc r, rq_mType r) \<and> readable E r"

lemma request_of_mono: "request_of E W r \<Longrightarrow> W \<subseteq> W' \<Longrightarrow> request_of E W' r"
  unfolding request_of_def by blast

definition errors_have_text :: "('a, 'b, 'r) rpc_env \<Rightarrow> bool" where
  "errors_have_text E \<longleftrightarrow> (\<forall>t a. en_dec E t a \<noteq> Inl '''')"

lemma findService_error_text: "findService sm s = Inl e \<Longrightarrow> e \<noteq> ''''"
  by (auto simp: findService_def Let_def split: option.splits if_splits)

lemma read_delivered:
  assumes "delivered up W ms" and "readRequest (en_services E) (en_dec E) ms = (Ret x, rest)"
  shows "x = GoodRequest r \<Longrightarrow> request_of E W r \<and> delivered up W rest \<and>
      (\<forall>h. MHeader h \<in> set ms \<longrightarrow> h = rq_h r \<or> MHeader h \<in> set rest)"
    and "x = BadRequest h e \<Longrightarrow> delivered up W rest \<and> (up \<longrightarrow> h \<in> fst ` W) \<and> (errors_have_text E \<longrightarrow> e \<noteq> '''') \<and>
      (\<forall>h'. MHeader h' \<in> set ms \<longrightarrow> h' = h \<or> MHeader h' \<in> set rest)"
proof -
  have "readable E r" if "x = GoodRequest r" for r
    unfolding readable_def using assms(2) that by blast
  with assms show "x = GoodRequest r \<Longrightarrow> request_of E W r \<and> delivered up W rest \<and>
      (\<forall>h. MHeader h \<in> set ms \<longrightarrow> h = rq_h r \<or> MHeader h \<in> set rest)"
    by (cases "(up, W, ms)" rule: delivered.cases;
        force simp: readRequest_def request_of_def split: sum.splits prod.splits outcome.splits)
  show "x = BadRequest h e \<Longrightarrow> delivered up W rest \<and> (up \<longrightarrow> h \<in> fst ` W) \<and> (errors_have_text E \<longrightarrow> e \<noteq> '''') \<and>
      (\<forall>h'. MHeader h' \<in> set ms \<longrightarrow> h' = h \<or> MHeader h' \<in> set rest)"
    using assms
    by (cases "(up, W, ms)" rule: delivered.cases;
        force simp: readRequest_def errors_have_text_def dest: findService_error_text
          split: sum.splits prod.splits outcome.splits)
qed

definition reading :: "('a, 'b, 'r) sconn \<Rightarrow> bool" where
  "reading n \<longleftrightarrow> sn_loop n = LRead \<or> (\<exists>h. sn_loop n = LReply h)"

text \<open>
  Every request that was written and every request the server has read are accounted for.
\<close>

definition served_inv :: "('a, 'b, 'r) rpc_env \<Rightarrow> bool \<Rightarrow> (header \<times> 'a) set \<Rightarrow> ('a, 'b, 'r) sconn \<Rightarrow> bool" where
  "served_inv E up W n \<longleftrightarrow>
     (reading n \<longrightarrow> delivered up W (sn_in n) \<and>
        (up \<longrightarrow> (\<forall>h \<in> fst ` W. MHeader h \<in> set (sn_in n) \<or> h \<in> rq_h ` set (sn_reqs n) \<or> h \<in> fst ` set (sn_bad n)))) \<and>
     (\<forall>r \<in> set (sn_reqs n). request_of E W r) \<and>
     (\<forall>(h, e) \<in> set (sn_bad n). (up \<longrightarrow> h \<in> fst ` W) \<and> (errors_have_text E \<longrightarrow> e \<noteq> ''''))"

lemma served_same:
  "served_inv E up W n \<Longrightarrow> sn_in n' = sn_in n \<Longrightarrow> sn_reqs n' = sn_reqs n \<Longrightarrow> sn_bad n' = sn_bad n \<Longrightarrow>
   (reading n' \<Longrightarrow> reading n) \<Longrightarrow> served_inv E up W n'"
  unfolding served_inv_def by simp

lemma served_step:
  assumes inv: "served_inv E up W n" and sends: "sending_inv n"
    and step: "sv_step (en_services E) (en_dec E) enc timeout dur n n'"
  shows "served_inv E up W n'"
proof -
  consider "loop_step (en_services E) (en_dec E) n n'" | "handle_step timeout dur n n'" | "send_step enc n n'"
    using step by (auto simp: sv_step_def)
  then show ?thesis
  proof cases
    case 1
    then show ?thesis
    proof cases
      case (loop_request r rest)
      then have "reading n" by (simp add: reading_def)
      then have "delivered up W (sn_in n)" using inv by (simp add: served_inv_def)
      from read_delivered(1) [OF this loop_request(3), of r] inv loop_request(1) \<open>reading n\<close> show ?thesis
        by (auto simp: served_inv_def reading_def)
    next
      case (loop_bad h err rest)
      then have "reading n" by (simp add: reading_def)
      then have "delivered up W (sn_in n)" using inv by (simp add: served_inv_def)
      from read_delivered(2) [OF this loop_bad(3), of h err] inv loop_bad(1) \<open>reading n\<close> show ?thesis
        by (auto simp: served_inv_def reading_def)
    qed (use inv in \<open>auto simp: served_inv_def reading_def\<close>)
  next
    case 2
    then show ?thesis by cases (rule served_same [OF inv]; simp add: reading_def)+
  next
    case 3
    then show ?thesis
    proof cases
      case (send_body x h b)
      with sendingD [OF sends send_body(2)] show ?thesis
        by (cases x) (rule served_same [OF inv]; simp add: reading_def)+
    qed (rule served_same [OF inv]; simp add: reading_def)+
  qed
qed

lemma served_more:
  assumes "served_inv E up W n" and "W \<subseteq> W'" and "\<not> up"
  shows "served_inv E up W' n"
  using assms delivered_mono [of up W "sn_in n" W'] by (auto simp: served_inv_def intro: request_of_mono)

text \<open>The client writes a request, or the connection is lost.\<close>

lemma served_write:
  assumes "served_inv E True W n"
  shows "served_inv E True (insert f W) (n\<lparr>sn_in := sn_in n @ frames [f]\<rparr>)"
proof -
  have "delivered True (insert f W) (sn_in n @ frames [f])" if "delivered True W (sn_in n)"
    using delivered_frame [of "insert f W" "sn_in n" f] delivered_mono [OF that, of "insert f W"] by blast
  moreover have "MHeader (fst f) \<in> set (frames [f])" by (cases f) simp
  ultimately show ?thesis
    using assms by (auto simp: served_inv_def reading_def intro: request_of_mono [of E W _ "insert f W"])
qed

lemma served_lost:
  assumes "served_inv E up W n" and "ms = sn_in n \<or> up \<and> ms = sn_in n @ [MHeader h]"
  shows "served_inv E False W (n\<lparr>sn_in := take m ms\<rparr>)"
proof -
  have "delivered False W (take m ms)" if "delivered up W (sn_in n)"
    using assms(2) that delivered_take [OF that] delivered_take [OF delivered_lone, of W "sn_in n" m h] by auto
  with assms(1) show ?thesis by (auto simp: served_inv_def reading_def)
qed

subsection \<open>What the client reads\<close>

lemma length_frames [simp]: "length (frames L) = 2 * length L"
  by (induction L rule: frames.induct) auto

lemma drop_frames: "drop (2 * q) (frames L) = frames (drop q L)"
proof (induction q arbitrary: L)
  case (Suc q)
  then show ?case by (cases L rule: frames.cases) auto
qed simp

lemma output_shape:
  assumes "output_inv n"
  obtains L hs where "gc_out (sn_codec n) = frames L @ map MHeader hs" "length hs \<le> 1"
    "set L \<subseteq> snd ` set (sn_sent n)" "gc_open (sn_codec n) \<Longrightarrow> L = map snd (sn_sent n) \<and> hs = []"
proof (cases "gc_open (sn_codec n)")
  case True
  with assms that [of "map snd (sn_sent n)" "[]"] show ?thesis by (simp add: output_inv_def)
next
  case False
  then have "\<exists>k hs. gc_out (sn_codec n) = frames (take k (map snd (sn_sent n))) @ map MHeader hs \<and> length hs \<le> 1"
    using assms unfolding output_inv_def by presburger
  then obtain k hs where "gc_out (sn_codec n) = frames (take k (map snd (sn_sent n))) @ map MHeader hs" "length hs \<le> 1"
    by blast
  moreover have "set (take k (map snd (sn_sent n))) \<subseteq> snd ` set (sn_sent n)"
    using set_take_subset [of k "map snd (sn_sent n)"] by simp
  ultimately show ?thesis using that False by blast
qed

text \<open>At an even position there is a header, after it its body.\<close>

lemma output_header_at:
  assumes "output_inv n" and "drop (2 * q) (gc_out (sn_codec n)) = m # ms"
  shows "\<exists>h. m = MHeader h"
proof -
  obtain L hs where out: "gc_out (sn_codec n) = frames L @ map MHeader hs" "length hs \<le> 1"
    by (rule output_shape [OF assms(1)])
  show ?thesis
  proof (cases "drop q L")
    case Nil
    then have "q \<ge> length L" by simp
    then have "drop (2 * q) (gc_out (sn_codec n)) = drop (2 * q - 2 * length L) (map MHeader hs)" using out by simp
    with assms(2) have "m \<in> set (map MHeader hs)" by (metis in_set_dropD list.set_intros(1))
    then show ?thesis by auto
  next
    case (Cons f fs)
    then have "q < length L" by (metis drop_all leI list.distinct(1))
    then have "drop (2 * q) (gc_out (sn_codec n)) = frames (f # fs) @ map MHeader hs"
      using out drop_frames [of q L] Cons by simp
    with assms(2) show ?thesis by (cases f) auto
  qed
qed

lemma output_body_at:
  assumes "output_inv n" and "drop (2 * q) (gc_out (sn_codec n)) = MHeader h # m # ms"
  shows "\<exists>b. m = MBody b \<and> (h, b) \<in> snd ` set (sn_sent n)"
proof -
  obtain L hs where out: "gc_out (sn_codec n) = frames L @ map MHeader hs" "length hs \<le> 1" "set L \<subseteq> snd ` set (sn_sent n)"
    by (rule output_shape [OF assms(1)])
  show ?thesis
  proof (cases "drop q L")
    case Nil
    then have "length L \<le> q" by simp
    then have "length (gc_out (sn_codec n)) \<le> 2 * q + 1" using out(2) unfolding out(1) by simp
    moreover have "length (drop (2 * q) (gc_out (sn_codec n))) = Suc (Suc (length ms))"
      unfolding assms(2) by simp
    then have "length (gc_out (sn_codec n)) - 2 * q = Suc (Suc (length ms))" unfolding length_drop .
    ultimately show ?thesis by linarith
  next
    case (Cons f fs)
    then have "q < length L" by (metis drop_all leI list.distinct(1))
    then have "drop (2 * q) (gc_out (sn_codec n)) = frames (f # fs) @ map MHeader hs"
      using drop_frames [of q L] Cons unfolding out(1) by simp
    then have "MHeader h # m # ms = frames (f # fs) @ map MHeader hs" unfolding assms(2) .
    then have "m = MBody (snd f) \<and> f = (h, snd f)" by (cases f) simp
    moreover have "f \<in> set L" using in_set_dropD [of f q L] Cons by simp
    ultimately have "m = MBody (snd f) \<and> (h, snd f) \<in> snd ` set (sn_sent n)" using out(3) by auto
    then show ?thesis by blast
  qed
qed

text \<open>The server only adds to what it has written, a header and a body at most.\<close>

lemma codec_step:
  assumes "sv_inv timeout dur n" and "sv_step s dec enc timeout dur n n'"
  shows "\<exists>ms. gc_out (sn_codec n') = gc_out (sn_codec n) @ ms \<and> length ms \<le> 2 \<and>
    (gc_open (sn_codec n') \<longrightarrow> gc_open (sn_codec n)) \<and> set (sn_sent n) \<subseteq> set (sn_sent n')"
proof -
  have same: ?thesis if "sn_sent n' = sn_sent n" "gc_out (sn_codec n') = gc_out (sn_codec n)"
    "gc_open (sn_codec n') \<longrightarrow> gc_open (sn_codec n)"
    using that by simp
  consider "loop_step s dec n n'" | "handle_step timeout dur n n'" | "send_step enc n n'"
    using assms(2) by (auto simp: sv_step_def)
  then show ?thesis
  proof cases
    case 1
    then show ?thesis by cases (rule same; simp add: gob_Close_def)+
  next
    case 2
    then show ?thesis by cases (rule same; simp)+
  next
    case 3
    then show ?thesis
    proof cases
      case (send_body x h b)
      have out: "output_inv n" using assms(1) by (simp add: sv_inv_def)
      have n': "sn_codec n' = snd (gob_Write_body enc b (sn_codec n))" "sn_sent n' = sn_sent n @ [(x, h, b)]"
        by (cases x; simp add: send_body(1))+
      show ?thesis
      proof (cases "gc_open (sn_codec n)")
        case True
        then have "gc_buf (sn_codec n) = [MHeader h]" using out send_body(2) by (simp add: output_inv_def)
        with n' True show ?thesis
          by (cases "enc b") (auto simp: gob_Write_body_def gob_Flush_def gob_Encode_def gob_Close_def)
      next
        case False
        with n' show ?thesis
          by (cases "enc b") (auto simp: gob_Write_body_def gob_Flush_def gob_Encode_def gob_Close_def)
      qed
    qed (rule same; simp add: gob_Encode_def)+
  qed
qed

subsection \<open>The invariant\<close>

text \<open>Where the client is in what it reads.\<close>

definition position_ok :: "recv_pc \<Rightarrow> nat \<Rightarrow> 'r option gob_codec \<Rightarrow> bool" where
  "position_ok rc p g \<longleftrightarrow>
     (case rc of
        RRead \<Rightarrow> \<exists>q. p = 2 * q \<and> p \<le> length (gc_out g)
      | RGot r h \<Rightarrow> \<exists>q ms. p = Suc (2 * q) \<and> drop (2 * q) (gc_out g) = MHeader h # ms
      | _ \<Rightarrow> True)"

text \<open>Every reply came in a response that the server has sent, with the number of its call.\<close>

definition replies_ok ::
  "('a, 'b, 'r) rpc_env \<Rightarrow> (nat \<rightharpoonup> 'a rcall) \<Rightarrow> (sender \<times> header \<times> 'r option) list \<Rightarrow> bool" where
  "replies_ok E calls sent \<longleftrightarrow> (\<forall>i x q v. calls i = Some x \<and> rc_Reply x = Some (q, v) \<longrightarrow>
     (\<exists>h b. (h, b) \<in> snd ` set sent \<and> h_Seq h = q \<and> h_Err h = '''' \<and> en_reply E b = Inr v))"

definition sys_inv :: "('a, 'b, 'r) rpc_env \<Rightarrow> ('a, 'b, 'r) rpc_sys \<Rightarrow> bool" where
  "sys_inv E y \<longleftrightarrow>
     reach cl_init cl_step (sy_client y) \<and>
     work_inv (en_timeout E) (en_dur E) (en_meth E) (sy_server y) \<and>
     served_inv E (sy_up y) (set (cl_wire (sy_client y))) (sy_server y) \<and>
     position_ok (cl_recv (sy_client y)) (sy_read y) (sn_codec (sy_server y)) \<and>
     replies_ok E (cl_calls (sy_client y)) (sn_sent (sy_server y))"

lemma sys_invD:
  assumes "sys_inv E y"
  shows "reach cl_init cl_step (sy_client y)" "cl_inv (sy_client y)"
    "work_inv (en_timeout E) (en_dur E) (en_meth E) (sy_server y)" "sv_inv (en_timeout E) (en_dur E) (sy_server y)"
    "served_inv E (sy_up y) (set (cl_wire (sy_client y))) (sy_server y)"
    "position_ok (cl_recv (sy_client y)) (sy_read y) (sn_codec (sy_server y))"
    "replies_ok E (cl_calls (sy_client y)) (sn_sent (sy_server y))" "output_inv (sy_server y)"
proof -
  show reach: "reach cl_init cl_step (sy_client y)" and work: "work_inv (en_timeout E) (en_dur E) (en_meth E) (sy_server y)"
    and "served_inv E (sy_up y) (set (cl_wire (sy_client y))) (sy_server y)"
    and "position_ok (cl_recv (sy_client y)) (sy_read y) (sn_codec (sy_server y))"
    and "replies_ok E (cl_calls (sy_client y)) (sn_sent (sy_server y))"
    using assms unfolding sys_inv_def by blast+
  show "cl_inv (sy_client y)" by (rule client.inv_reach [OF reach])
  show sv: "sv_inv (en_timeout E) (en_dur E) (sy_server y)" using work by (simp add: work_inv_def)
  then show "output_inv (sy_server y)" by (simp add: sv_inv_def)
qed

lemma call_step_effect:
  assumes "call_step c c'"
  shows "cl_recv c' = cl_recv c" and "cl_wire c' = cl_wire c \<or> writes c c' \<and> (\<exists>f. cl_wire c' = cl_wire c @ [f])"
    and "cl_closing c' = cl_closing c"
  using assms
  by (cases; force simp: registerCall_def removeCall_def upd_call_def writes_def Let_def split: if_splits)+

lemma call_step_replies:
  assumes "call_step c c'" and "cl_calls c' i = Some x'" and "rc_Reply x' = Some qv"
  shows "\<exists>x. cl_calls c i = Some x \<and> rc_Reply x = Some qv"
proof -
  have upd: "\<exists>x. cl_calls c i = Some x \<and> rc_Reply x = Some qv"
    if "cl_calls (upd_call j f d) i = Some x'" "cl_calls d = cl_calls c" "\<And>x. rc_Reply (f x) = rc_Reply x" for j f and d :: "'a client"
    using that assms(3) by (auto simp: upd_call_def split: if_splits)
  from assms(1) show ?thesis
  proof cases
    case (call_refused j err c1)
    then have "c1 = c" by (auto simp: registerCall_def Let_def split: if_splits)
    with call_refused assms(2) show ?thesis
      by (intro upd [of j "call_done (Some err)" c]) (simp_all add: call_done_def)
  next
    case (call_register j seq c1)
    then have "cl_calls c1 = cl_calls (upd_call j (\<lambda>k. k\<lparr>rc_Seq := cl_seq c\<rparr>) c)"
      by (auto simp: registerCall_def Let_def split: if_splits)
    with call_register assms(2) show ?thesis
      by (intro upd [of j "\<lambda>k. k\<lparr>rc_Seq := cl_seq c\<rparr>" c]) simp_all
  qed (use assms(2,3) in \<open>auto simp: removeCall_def split: if_splits\<close>)
qed

lemma work_inv_input: "work_inv timeout dur meth n \<Longrightarrow> work_inv timeout dur meth (n\<lparr>sn_in := ms\<rparr>)"
proof -
  assume inv: "work_inv timeout dur meth n"
  then have parts: "handlers_inv timeout dur n" "sending_inv n" "loop_inv n" "output_inv n"
    by (simp_all add: work_inv_def sv_inv_def)
  have "in_sendResponse n x h b \<Longrightarrow> in_sendResponse (n\<lparr>sn_in := ms\<rparr>) x h b" for x h b by (cases x) simp_all
  then have "sending_inv (n\<lparr>sn_in := ms\<rparr>)" by (intro sending_cong [OF parts(2)]) simp_all
  moreover have "handlers_inv timeout dur (n\<lparr>sn_in := ms\<rparr>)" by (rule handlers_same [OF parts(1)]) simp_all
  moreover have "loop_inv (n\<lparr>sn_in := ms\<rparr>)" by (rule loop_cong [OF parts(3)]) simp_all
  moreover have "output_inv (n\<lparr>sn_in := ms\<rparr>)" by (rule output_cong [OF parts(4)]) simp_all
  ultimately have "sv_inv timeout dur (n\<lparr>sn_in := ms\<rparr>)" by (simp add: sv_inv_def)
  with inv show "work_inv timeout dur meth (n\<lparr>sn_in := ms\<rparr>)" by (simp add: work_inv_def)
qed

lemma server_step_effect:
  assumes inv: "work_inv (en_timeout E) (en_dur E) (en_meth E) n" and "server_step E up n n'"
  shows "work_inv (en_timeout E) (en_dur E) (en_meth E) n'"
    and "served_inv E up W n \<Longrightarrow> served_inv E up W n'"
    and "\<exists>ms. gc_out (sn_codec n') = gc_out (sn_codec n) @ ms \<and> length ms \<le> 2 \<and>
      (gc_open (sn_codec n') \<longrightarrow> gc_open (sn_codec n)) \<and> set (sn_sent n) \<subseteq> set (sn_sent n')"
    and "sv_weight n' < sv_weight n"
proof -
  obtain enc where step: "sv_step (en_services E) (en_dec E) enc (en_timeout E) (en_dur E) n n'"
    and meth: "\<forall>i res. sn_worker n i = WCall \<and> sn_worker n' i = WCalled res \<longrightarrow> en_meth E (sn_reqs n ! i) res"
    using assms(2) by (auto simp: server_step_def)
  have sv: "sv_inv (en_timeout E) (en_dur E) n" using inv by (simp add: work_inv_def)
  then have sv': "sv_inv (en_timeout E) (en_dur E) n'" using step sv_step_inv by blast
  from step show "work_inv (en_timeout E) (en_dur E) (en_meth E) n'"
    using work_loop_step [OF inv _ sv'] work_handle_step [OF inv _ sv' meth] work_send_step [OF inv _ sv']
    unfolding sv_step_def by blast
  show "served_inv E up W n'" if "served_inv E up W n"
    by (rule served_step [OF that _ step]) (use sv in \<open>simp add: sv_inv_def\<close>)
  show "\<exists>ms. gc_out (sn_codec n') = gc_out (sn_codec n) @ ms \<and> length ms \<le> 2 \<and>
      (gc_open (sn_codec n') \<longrightarrow> gc_open (sn_codec n)) \<and> set (sn_sent n) \<subseteq> set (sn_sent n')"
    by (rule codec_step [OF sv step])
  show "sv_weight n' < sv_weight n" by (rule sv_step_weight [OF sv step])
qed

lemma position_more:
  assumes "position_ok rc p g" and "gc_out g' = gc_out g @ ms"
  shows "position_ok rc p g'"
proof (cases rc)
  case (RGot r h)
  with assms(1) obtain q ms0 where q: "p = Suc (2 * q)" "drop (2 * q) (gc_out g) = MHeader h # ms0"
    by (auto simp: position_ok_def)
  then have "2 * q < length (gc_out g)" by (metis drop_all leI list.distinct(1))
  then have "drop (2 * q) (gc_out g') = MHeader h # ms0 @ ms" using assms(2) q(2) by simp
  with RGot q(1) show ?thesis by (simp add: position_ok_def)
qed (use assms in \<open>auto simp: position_ok_def\<close>)

lemma replies_more:
  assumes "replies_ok E calls sent" and "set sent \<subseteq> set sent'"
    and "\<And>i x q v. calls' i = Some x \<Longrightarrow> rc_Reply x = Some (q, v) \<Longrightarrow> \<exists>x. calls i = Some x \<and> rc_Reply x = Some (q, v)"
  shows "replies_ok E calls' sent'"
  using assms unfolding replies_ok_def by (meson image_mono subsetD)

lemma sys_start_inv: "sy_init y \<Longrightarrow> sys_inv E y"
proof -
  assume y: "sy_init y"
  then have c: "sy_client y = newCientCodec" and n: "sy_server y = sv_start []" and p: "sy_read y = 0"
    by (simp_all add: sy_init_def sy_start_def)
  have "sv_init (sy_server y)" unfolding sv_init_def n by (rule exI) (rule refl)
  then have "work_inv (en_timeout E) (en_dur E) (en_meth E) (sy_server y)" by (rule working.inv_init)
  moreover have "served_inv E (sy_up y) {} (sy_server y)" by (simp add: served_inv_def n sv_start_def)
  moreover have "reach cl_init cl_step (sy_client y)" by (simp add: reach_init cl_init_def c)
  ultimately show "sys_inv E y"
    by (simp add: sys_inv_def c p newCientCodec_def position_ok_def replies_ok_def)
qed

lemma header_keeps:
  assumes inv: "sys_inv E y" and rd: "cl_recv (sy_client y) = RRead" and h: "header_read y res"
  shows "sys_inv E (y\<lparr>sy_client := receive_header res (sy_client y), sy_read := Suc (sy_read y)\<rparr>)"
proof -
  note parts = sys_invD [OF inv]
  let ?c = "receive_header res (sy_client y)" and ?out = "gc_out (sn_codec (sy_server y))"
  have same: "cl_wire ?c = cl_wire (sy_client y)" "cl_calls ?c = cl_calls (sy_client y)"
    by (simp_all add: receive_header_def removeCall_def split: sum.split)
  have "cl_step (sy_client y) ?c" by (rule receive_cl_step [OF receive_header_step [OF rd]])
  with parts(1) have "reach cl_init cl_step ?c" by (rule reach_step)
  moreover have "position_ok (cl_recv ?c) (Suc (sy_read y)) (sn_codec (sy_server y))"
  proof (cases res)
    case (Inr hd)
    then have "fst (gob_ReadHeader (unread y)) = Inr hd" using h by (simp add: header_read_def split: if_splits)
    then obtain ms where "unread y = MHeader hd # ms" by (cases "unread y" rule: gob_ReadHeader.cases) auto
    with parts(6) rd Inr show ?thesis
      by (auto simp: position_ok_def receive_header_def removeCall_def unread_def)
  qed (simp add: position_ok_def receive_header_def)
  ultimately show ?thesis using parts same by (simp add: sys_inv_def)
qed

text \<open>After a header the client finds its body.\<close>

lemma unread_body:
  assumes inv: "sys_inv E y" and got: "cl_recv (sy_client y) = RGot r h" and some: "unread y \<noteq> []"
  obtains q b ms where "sy_read y = Suc (2 * q)" "sy_read y < length (gc_out (sn_codec (sy_server y)))"
    "unread y = MBody b # ms" "(h, b) \<in> snd ` set (sn_sent (sy_server y))"
proof -
  note parts = sys_invD [OF inv]
  let ?out = "gc_out (sn_codec (sy_server y))"
  obtain q ms where q: "sy_read y = Suc (2 * q)" "drop (2 * q) ?out = MHeader h # ms"
    using parts(6) got by (auto simp: position_ok_def)
  have "drop (Suc (2 * q)) ?out = tl (drop (2 * q) ?out)" by (simp add: drop_Suc tl_drop)
  then have ms: "unread y = ms" using q by (simp add: unread_def)
  then obtain m ms' where m: "ms = m # ms'" using some by (cases ms) auto
  obtain b where b: "m = MBody b" "(h, b) \<in> snd ` set (sn_sent (sy_server y))"
    using output_body_at [OF parts(8) q(2) [unfolded m]] by blast
  moreover have "sy_read y < length ?out" using some by (simp add: unread_def)
  ultimately show ?thesis using that q(1) ms m by simp
qed

text \<open>The body that is read into a reply is that of the header before it.\<close>

lemma body_origin:
  assumes inv: "sys_inv E y" and got: "cl_recv (sy_client y) = RGot r h" and body: "body_read (en_reply E) r h y (Inr v)"
  shows "(\<exists>q. Suc (sy_read y) = 2 * q \<and> Suc (sy_read y) \<le> length (gc_out (sn_codec (sy_server y))))"
    and "r \<noteq> None \<Longrightarrow> h_Err h = '''' \<Longrightarrow>
      \<exists>b. (h, b) \<in> snd ` set (sn_sent (sy_server y)) \<and> en_reply E b = Inr v"
proof -
  have "unread y \<noteq> []" using body by (auto simp: body_read_def split: if_splits)
  then obtain q b ms where q: "sy_read y = Suc (2 * q)" "sy_read y < length (gc_out (sn_codec (sy_server y)))"
    "unread y = MBody b # ms" "(h, b) \<in> snd ` set (sn_sent (sy_server y))"
    by (rule unread_body [OF inv got])
  then show "\<exists>q. Suc (sy_read y) = 2 * q \<and> Suc (sy_read y) \<le> length (gc_out (sn_codec (sy_server y)))"
    by (intro exI [of _ "Suc q"]) simp
  show "\<exists>b. (h, b) \<in> snd ` set (sn_sent (sy_server y)) \<and> en_reply E b = Inr v" if "r \<noteq> None" "h_Err h = ''''"
    using body that q(3,4) by (auto simp: body_read_def split: if_splits)
qed

lemma body_keeps:
  assumes inv: "sys_inv E y" and got: "cl_recv (sy_client y) = RGot r h" and body: "body_read (en_reply E) r h y body"
  shows "sys_inv E (y\<lparr>sy_client := receive_body r h body (sy_client y), sy_read := Suc (sy_read y)\<rparr>)"
proof -
  note parts = sys_invD [OF inv]
  let ?c = "receive_body r h body (sy_client y)" and ?sent = "sn_sent (sy_server y)"
  have wire: "cl_wire ?c = cl_wire (sy_client y)" by (simp add: receive_body_def upd_call_def split: option.split)
  have "cl_step (sy_client y) ?c" by (rule receive_cl_step [OF receive_body_step [OF got]])
  with parts(1) have "reach cl_init cl_step ?c" by (rule reach_step)
  moreover have "position_ok (cl_recv ?c) (Suc (sy_read y)) (sn_codec (sy_server y))"
    using body_origin(1) [OF inv got, of "projr body"] body
    by (cases body) (simp_all add: position_ok_def receive_body_def)
  moreover have "replies_ok E (cl_calls ?c) ?sent"
    unfolding replies_ok_def
  proof (intro allI impI)
    fix i x q v
    assume x: "cl_calls ?c i = Some x \<and> rc_Reply x = Some (q, v)"
    show "\<exists>h b. (h, b) \<in> snd ` set ?sent \<and> h_Seq h = q \<and> h_Err h = '''' \<and> en_reply E b = Inr v"
    proof (cases "\<exists>x. cl_calls (sy_client y) i = Some x \<and> rc_Reply x = Some (q, v)")
      case True
      then show ?thesis using parts(7) unfolding replies_ok_def by blast
    next
      case False
      with x obtain k where "r = Some i" "x = complete_call h body k" "cl_calls (sy_client y) i = Some k" "rc_Reply k \<noteq> Some (q, v)"
        by (auto simp: receive_body_def upd_call_def split: option.splits if_splits)
      then have new: "r \<noteq> None" "body = Inr v" "h_Err h = ''''" "h_Seq h = q"
        using x by (auto simp: complete_call_def call_done_def split: sum.splits if_splits)
      with body_origin(2) [OF inv got, of v] body show ?thesis by blast
    qed
  qed
  ultimately show ?thesis using parts wire by (simp add: sys_inv_def)
qed

text \<open>A step of a caller, with what it does to the server's input.\<close>

lemma call_keeps:
  assumes inv: "sys_inv E y" and step: "call_step (sy_client y) c"
    and served: "served_inv E (sy_up z) (set (cl_wire c)) (sy_server z)"
    and z: "sy_client z = c" "sy_server z = (sy_server y)\<lparr>sn_in := ms\<rparr>" "sy_read z = sy_read y"
  shows "sys_inv E z"
proof -
  note parts = sys_invD [OF inv]
  have "reach cl_init cl_step c" using parts(1) call_cl_step [OF step] by (rule reach_step)
  moreover have "replies_ok E (cl_calls c) (sn_sent (sy_server y))"
    using call_step_replies [OF step] by (intro replies_more [OF parts(7)]) auto
  moreover have "work_inv (en_timeout E) (en_dur E) (en_meth E) (sy_server z)"
    unfolding z(2) by (rule work_inv_input [OF parts(3)])
  ultimately show ?thesis
    using parts(6) served call_step_effect(1) [OF step] by (simp add: sys_inv_def z)
qed

lemma lost_keeps:
  assumes inv: "sys_inv E y" and c: "cl_step (sy_client y) c \<or> c = sy_client y" "cl_wire c = cl_wire (sy_client y)"
    "cl_recv c = cl_recv (sy_client y)" "cl_calls c = cl_calls (sy_client y)"
  shows "sys_inv E (y\<lparr>sy_client := c, sy_server := (sy_server y)\<lparr>sn_in := take m (sn_in (sy_server y))\<rparr>, sy_up := False\<rparr>)"
proof -
  note parts = sys_invD [OF inv]
  have "reach cl_init cl_step c" using c(1) parts(1) by (auto intro: reach_step)
  moreover have "served_inv E False (set (cl_wire (sy_client y)))
      ((sy_server y)\<lparr>sn_in := take m (sn_in (sy_server y))\<rparr>)"
    by (rule served_lost [OF parts(5)]) simp
  ultimately show ?thesis
    using parts work_inv_input [OF parts(3), of "take m (sn_in (sy_server y))"] c by (simp add: sys_inv_def)
qed

lemma close_effect:
  "client_Close c = (r, c') \<Longrightarrow> cl_wire c' = cl_wire c \<and> cl_recv c' = cl_recv c \<and> cl_calls c' = cl_calls c \<and> cl_pc c' = cl_pc c"
  by (auto simp: client_Close_def split: if_splits)

lemma sys_step_inv:
  assumes inv: "sys_inv E y" and "sys_step E y z"
  shows "sys_inv E z"
  using assms(2)
proof cases
  case (sys_call c)
  have "served_inv E (sy_up y) (set (cl_wire c)) (sy_server y)"
  proof (cases "cl_wire c = cl_wire (sy_client y)")
    case True
    then show ?thesis using sys_invD(5) [OF inv] by simp
  next
    case False
    with call_step_effect(2) [OF sys_call(2)] sys_call(3)
    have "\<not> sy_up y" "set (cl_wire (sy_client y)) \<subseteq> set (cl_wire c)" by auto
    with served_more [OF sys_invD(5) [OF inv]] show ?thesis by blast
  qed
  then show ?thesis
    by (intro call_keeps [OF inv sys_call(2), of z "sn_in (sy_server y)"]) (simp_all add: sys_call(1))
next
  case (sys_write c f n)
  have "served_inv E True (set (cl_wire (sy_client y))) (sy_server y)" using sys_invD(5) [OF inv] sys_write(2) by simp
  from served_write [OF this, of f] sys_write(2,5,6) show ?thesis
    by (intro call_keeps [OF inv sys_write(3), of z]) (simp_all add: sys_write(1))
next
  case (sys_write_fails c i seq h n m)
  have "served_inv E False (set (cl_wire (sy_client y))) ((sy_server y)\<lparr>sn_in := take m (sn_in (sy_server y) @ [MHeader h])\<rparr>)"
    by (rule served_lost [OF sys_invD(5) [OF inv]]) (use sys_write_fails(2) in simp)
  with sys_write_fails(6,8) show ?thesis
    by (intro call_keeps [OF inv sys_write_fails(3), of z]) (simp_all add: sys_write_fails(1))
next
  case (sys_close c n m)
  have "cl_step (sy_client y) c" using sys_close(3) by (auto simp: cl_step_def)
  with close_effect [OF sys_close(3)] sys_close(1,4) show ?thesis by (simp add: lost_keeps [OF inv])
next
  case (sys_break n m)
  with lost_keeps [OF inv, of "sy_client y" m] show ?thesis by simp
next
  case (sys_server n)
  note parts = sys_invD [OF inv] and eff = server_step_effect [OF sys_invD(3) [OF inv] sys_server(2)]
  obtain ms where ms: "gc_out (sn_codec n) = gc_out (sn_codec (sy_server y)) @ ms"
      "set (sn_sent (sy_server y)) \<subseteq> set (sn_sent n)"
    using eff(3) by blast
  from position_more [OF parts(6) ms(1)] replies_more [OF parts(7) ms(2)] eff(1) eff(2) [OF parts(5)] parts(1)
  show ?thesis by (simp add: sys_inv_def sys_server(1))
next
  case (sys_header res)
  with header_keeps [OF inv] show ?thesis by simp
next
  case (sys_body r h body)
  with body_keeps [OF inv] show ?thesis by simp
next
  case (sys_terminate e)
  note parts = sys_invD [OF inv]
  let ?c = "(terminateCalls e (sy_client y))\<lparr>cl_recv := RStopped\<rparr>"
  have "reach cl_init cl_step ?c" using parts(1) step_terminate [OF sys_terminate(2,3)] by (rule reach_step)
  moreover have "replies_ok E (cl_calls ?c) (sn_sent (sy_server y))"
    by (rule replies_more [OF parts(7)]) (auto simp: terminateCalls_def call_done_def split: if_splits)
  ultimately show ?thesis using parts by (simp add: sys_inv_def sys_terminate(1) position_ok_def terminateCalls_def)
qed

interpretation system: inductive_invariant sy_init "sys_step E" "sys_inv E" for E
  by unfold_locales (auto intro: sys_start_inv sys_step_inv)

subsection \<open>Calls that returned\<close>

text \<open>A call that is done without an error has a reply, and keeps it.\<close>

definition replied :: "'a rcall \<Rightarrow> bool" where
  "replied x \<longleftrightarrow> (rc_done x > 0 \<and> rc_Error x = None \<longrightarrow> rc_Reply x \<noteq> None)"

definition returned_ok :: "'a client \<Rightarrow> bool" where
  "returned_ok c \<longleftrightarrow> (\<forall>i x. cl_calls c i = Some x \<longrightarrow> replied x) \<and>
     (\<forall>i. cl_pc c i = SReturned None \<longrightarrow> (\<exists>x. cl_calls c i = Some x \<and> rc_Reply x \<noteq> None))"

lemma returned_cong:
  "returned_ok c \<Longrightarrow> cl_calls d = cl_calls c \<Longrightarrow> (\<And>i. cl_pc d i = SReturned None \<Longrightarrow> cl_pc c i = SReturned None) \<Longrightarrow>
   returned_ok d"
  unfolding returned_ok_def by simp

lemma returned_upd:
  assumes ok: "returned_ok c" and f: "\<And>x. replied x \<Longrightarrow> replied (f x) \<and> (rc_Reply x \<noteq> None \<longrightarrow> rc_Reply (f x) \<noteq> None)"
    and d: "cl_calls d = (cl_calls c)(i := map_option f (cl_calls c i))"
    and pcs: "\<And>j. cl_pc d j = SReturned None \<Longrightarrow> cl_pc c j = SReturned None"
  shows "returned_ok d"
proof -
  have "replied x" if "cl_calls d j = Some x" for j x
    using that ok f by (auto simp: returned_ok_def d split: if_splits)
  moreover have "\<exists>x. cl_calls d j = Some x \<and> rc_Reply x \<noteq> None" if "cl_pc d j = SReturned None" for j
  proof -
    obtain x where "cl_calls c j = Some x" "rc_Reply x \<noteq> None" "replied x"
      using ok pcs [OF \<open>cl_pc d j = SReturned None\<close>] unfolding returned_ok_def by blast
    with f [of x] show ?thesis by (cases "j = i") (auto simp: d)
  qed
  ultimately show ?thesis unfolding returned_ok_def by blast
qed

lemma done_replied: "replied (call_done (Some e) x) \<and> (rc_Reply x \<noteq> None \<longrightarrow> rc_Reply (call_done (Some e) x) \<noteq> None)"
  by (simp add: replied_def call_done_def)

lemma complete_replied:
  "replied x \<Longrightarrow> replied (complete_call h body x) \<and> (rc_Reply x \<noteq> None \<longrightarrow> rc_Reply (complete_call h body x) \<noteq> None)"
  by (auto simp: replied_def call_done_def complete_call_def split: sum.split)

lemma returned_call_step:
  assumes ok: "returned_ok c" and "call_step c d"
  shows "returned_ok d"
  using assms(2)
proof cases
  case (call_go i k m a)
  then show ?thesis using ok by (auto simp: returned_ok_def replied_def split: if_splits)
next
  case (call_refused i err c1)
  then have "c1 = c" by (auto simp: registerCall_def Let_def split: if_splits)
  with call_refused(1) show ?thesis
    by (intro returned_upd [OF ok, of "call_done (Some err)" d i] done_replied) (auto simp: upd_call_def split: if_splits)
next
  case (call_register i seq c1)
  then have "cl_calls c1 = (cl_calls c)(i := map_option (\<lambda>k. k\<lparr>rc_Seq := cl_seq c\<rparr>) (cl_calls c i))" "cl_pc c1 = cl_pc c"
    by (auto simp: registerCall_def upd_call_def Let_def split: if_splits)
  with call_register(1) show ?thesis
    by (intro returned_upd [OF ok, of "\<lambda>k. k\<lparr>rc_Seq := cl_seq c\<rparr>" d i]) (auto simp: replied_def split: if_splits)
next
  case (call_result i k)
  then have "rc_Error k = None \<Longrightarrow> rc_Reply k \<noteq> None" using ok by (auto simp: returned_ok_def replied_def)
  with call_result ok show ?thesis by (auto simp: returned_ok_def)
qed (rule returned_cong [OF ok]; auto simp: removeCall_def split: if_splits)+

lemma returned_receive_step:
  assumes ok: "returned_ok c" and "receive_step c d"
  shows "returned_ok d"
  using assms(2)
proof cases
  case (recv_body i h body)
  then show ?thesis
    by (intro returned_upd [OF ok, of "complete_call h body" d i] complete_replied) (simp_all add: upd_call_def)
next
  case (recv_terminate e)
  then show ?thesis
    using ok done_replied [of e] by (auto simp: returned_ok_def terminateCalls_def split: if_splits)
qed (rule returned_cong [OF ok]; auto simp: removeCall_def split: if_splits)+

interpretation returned: inductive_invariant cl_init cl_step returned_ok
proof
  show "returned_ok c" if "cl_init c" for c :: "'a client"
    using that by (simp add: cl_init_def newCientCodec_def returned_ok_def)
  show "returned_ok d" if "returned_ok c" "cl_step c d" for c d :: "'a client"
    using that returned_call_step returned_receive_step close_effect returned_cong [of c d]
    unfolding cl_step_def by metis
qed

subsection \<open>Where replies come from\<close>

text \<open>
  The reply \<open>v\<close> was decoded from a result of the method for the request \<open>r\<close>. An error with
  an empty text is not told from success: the body that stands for no reply is decoded then.
\<close>

definition reply_of :: "('a, 'b, 'r) rpc_env \<Rightarrow> 'b request \<Rightarrow> 'a \<Rightarrow> bool" where
  "reply_of E r v \<longleftrightarrow>
     (\<exists>res. en_meth E r (None, res) \<and> en_reply E (Some res) = Inr v) \<or>
     (\<exists>res. en_meth E r (Some '''', res) \<and> en_reply E None = Inr v)"

lemma append_subset_map: "xs @ ys = map f zs \<Longrightarrow> set xs \<subseteq> f ` set zs"
  by (metis set_append set_map sup.cobounded1)

text \<open>What was sent is a response of its handler or, for an invalid request, of the loop.\<close>

lemma sent_response: "(x, m) \<in> set (sn_sent n) \<Longrightarrow> m \<in> set (responses n (handler_of x))"
proof -
  assume "(x, m) \<in> set (sn_sent n)"
  then have "(x, m) \<in> set (filter (\<lambda>e. handler_of (fst e) = handler_of x) (sn_sent n))" by simp
  then have "snd (x, m) \<in> set (responses n (handler_of x))" unfolding responses_def set_map by (rule imageI)
  then show ?thesis by simp
qed

lemma error_response:
  assumes "sv_inv timeout dur n" and "(h, b) \<in> set (responses n None)"
  shows "\<exists>h0 e. (h0, e) \<in> set (sn_bad n) \<and> h = h0\<lparr>h_Err := e\<rparr>"
proof -
  have "responses n None @ (case sn_loop n of LReply h \<Rightarrow> [(h, None)] | _ \<Rightarrow> [])
      = map (\<lambda>(h, err). (h\<lparr>h_Err := err\<rparr>, None)) (sn_bad n)"
    using assms(1) by (simp add: sv_inv_def loop_inv_def)
  then have "set (responses n None) \<subseteq> (\<lambda>(h, err). (h\<lparr>h_Err := err\<rparr>, None)) ` set (sn_bad n)"
    by (rule append_subset_map)
  then have "(h, b) \<in> (\<lambda>(h, err). (h\<lparr>h_Err := err\<rparr>, None)) ` set (sn_bad n)" using assms(2) by (rule subsetD)
  then show ?thesis by auto
qed

lemma response_of_method:
  assumes inv: "sys_inv E y" and errs: "errors_have_text E" and sent: "(h, b) \<in> snd ` set (sn_sent (sy_server y))"
    and ok: "h_Err h = ''''" "en_reply E b = Inr v"
  shows "\<exists>r \<in> set (sn_reqs (sy_server y)). h_Seq h = h_Seq (rq_h r) \<and> reply_of E r v"
proof -
  let ?n = "sy_server y"
  note parts = sys_invD [OF inv]
  obtain x where x: "(x, h, b) \<in> set (sn_sent ?n)" using sent by auto
  have worked: "sent_worked (en_timeout E) (en_dur E) (en_meth E) (sn_reqs ?n) (x, h, b)"
    using parts(3) x unfolding work_inv_def by blast
  show ?thesis
  proof (cases x)
    case LoopSender
    then obtain h0 e where "(h0, e) \<in> set (sn_bad ?n)" "h = h0\<lparr>h_Err := e\<rparr>"
      using error_response [OF parts(4), of h b] sent_response [OF x] by auto
    moreover from this(1) have "e \<noteq> ''''" using parts(5) errs by (auto simp: served_inv_def)
    ultimately show ?thesis using ok(1) by simp
  next
    case (MainSender i)
    with worked ok(1) show ?thesis by (simp add: timed_out_def timeout_header_def)
  next
    case (WorkerSender i)
    with worked obtain res where i: "i < length (sn_reqs ?n)" and res: "en_meth E (sn_reqs ?n ! i) res"
        "(h, b) = result_msg (rq_h (sn_reqs ?n ! i)) res"
      unfolding WorkerSender sent_worked.simps answered_def by blast
    obtain e w where ew: "res = (e, w)" by (cases res)
    have "h_Seq h = h_Seq (rq_h (sn_reqs ?n ! i))" using result_msg_header(1) [of "rq_h (sn_reqs ?n ! i)" res] unfolding res(2) [symmetric] by simp
    moreover have "reply_of E (sn_reqs ?n ! i) v"
      using res ok unfolding ew by (cases e) (auto simp: result_msg_def reply_of_def)
    ultimately show ?thesis using i by (intro bexI [of _ "sn_reqs ?n ! i"]) simp_all
  qed
qed

lemma reply_origin:
  assumes inv: "sys_inv E y" and few: "few_calls (sy_client y)" and errs: "errors_have_text E"
    and call: "cl_calls (sy_client y) i = Some x" "rc_Reply x = Some (q, v)"
  shows "q = rc_Seq x \<and> (\<exists>r t. r \<in> set (sn_reqs (sy_server y)) \<and> h_Seq (rq_h r) = rc_Seq x \<and>
    h_ServiceMethod (rq_h r) = rc_ServiceMethod x \<and> en_dec E t (rc_Args x) = Inr (rq_argv r) \<and>
    findService (rc_ServiceMethod x) (en_services E) = Inr (rq_svc r, rq_mType r) \<and> reply_of E r v)"
proof -
  let ?c = "sy_client y"
  note parts = sys_invD [OF inv] and ok = inv_unfold [OF sys_invD(2) [OF inv] few]
  have "call_state_ok ?c i x" using ok call(1) callsD by blast
  then have q: "q = rc_Seq x" and reg: "i \<in> set (cl_regs ?c)" using call(2) by (simp_all add: call_state_ok_def)
  obtain h b where h: "(h, b) \<in> snd ` set (sn_sent (sy_server y))" "h_Seq h = q" "h_Err h = ''''" "en_reply E b = Inr v"
    using parts(7) call unfolding replies_ok_def by blast
  from response_of_method [OF inv errs h(1,3,4)] h(2) q
  obtain r where r: "r \<in> set (sn_reqs (sy_server y))" "rc_Seq x = h_Seq (rq_h r)" "reply_of E r v" by auto
  then have "request_of E (set (cl_wire ?c)) r" using parts(5) by (simp add: served_inv_def)
  then obtain a t where a: "(rq_h r, a) \<in> set (cl_wire ?c)" "en_dec E t a = Inr (rq_argv r)"
      "findService (h_ServiceMethod (rq_h r)) (en_services E) = Inr (rq_svc r, rq_mType r)"
    unfolding request_of_def by blast
  obtain j k where j: "j \<in> set (cl_regs ?c)" "cl_calls ?c j = Some k" "rc_Seq k = h_Seq (rq_h r)" "rc_Args k = a"
      "rc_ServiceMethod k = h_ServiceMethod (rq_h r)"
    using wireD [OF _ a(1)] ok by blast
  have "j = i" using registered_seq(2) [OF _ few reg call(1) j(1,2)] ok j(3) r(2) by simp
  with j call(1) a r q show ?thesis by auto
qed

subsection \<open>A call and its return\<close>

definition one_client ::
  "bool \<Rightarrow> nat option \<Rightarrow> 'a rcall \<Rightarrow> send_pc \<Rightarrow> recv_pc \<Rightarrow> (uint64 \<rightharpoonup> nat) \<Rightarrow> (header \<times> 'a) list \<Rightarrow> 'a client" where
  "one_client reg sending k pc rc pend wire =
     \<lparr>cl_seq = (if reg then 2 else 1), cl_pending = pend, cl_closing = False, cl_shutdown = False, cl_sending = sending,
      cl_calls = [0 \<mapsto> k], cl_pc = (\<lambda>_. Unused)(0 := pc), cl_recv = rc, cl_wire = wire, cl_regs = (if reg then [0] else [])\<rparr>"

definition one_call :: "uint64 \<Rightarrow> string \<Rightarrow> 'a \<Rightarrow> (uint64 \<times> 'a) option \<Rightarrow> nat \<Rightarrow> 'a rcall" where
  "one_call seq m a reply n =
     \<lparr>rc_Seq = seq, rc_ServiceMethod = m, rc_Args = a, rc_Reply = reply, rc_Error = None, rc_done = n\<rparr>"

text \<open>A new call, and the call after it has returned \<open>w\<close>.\<close>

definition one_made :: "string \<Rightarrow> 'a \<Rightarrow> ('a, 'b, 'r) rpc_sys" where
  "one_made m a = \<lparr>sy_client = one_client False None (one_call 0 m a None 0) SStart RRead Map.empty [],
     sy_server = sv_start [], sy_read = 0, sy_up = True\<rparr>"

definition one_returned :: "'b request \<Rightarrow> 'a \<Rightarrow> 'r \<Rightarrow> 'a \<Rightarrow> ('a, 'b, 'r) rpc_sys" where
  "one_returned r a v w =
     \<lparr>sy_client = one_client True None (one_call 1 (h_ServiceMethod (rq_h r)) a (Some (1, w)) 1) (SReturned None) RRead
        Map.empty [(rq_h r, a)],
      sy_server = one_answered r v, sy_read = 2, sy_up = True\<rparr>"

definition old_step :: "('a, 'b, 'r) rpc_env \<Rightarrow> ('a, 'b, 'r) rpc_sys \<Rightarrow> ('a, 'b, 'r) rpc_sys \<Rightarrow> bool" where
  "old_step E y z \<longleftrightarrow> sys_step E y z \<and> \<not> starts (sy_client y) (sy_client z)"

lemma one_made_reach: "reach sy_init (sys_step E) (one_made m a)"
proof -
  let ?k = "one_call 0 m a None 0"
  let ?c = "newCientCodec\<lparr>cl_calls := [0 \<mapsto> ?k], cl_pc := (\<lambda>_. Unused)(0 := SStart)\<rparr>"
  have made: "one_made m a = sy_start\<lparr>sy_client := ?c\<rparr>"
    by (simp add: one_made_def one_client_def sy_start_def newCientCodec_def)
  have "call_step (newCientCodec :: 'a client) ?c"
    using call_go [of newCientCodec 0 ?k m a] by (simp add: newCientCodec_def one_call_def)
  then have "sys_step E sy_start (one_made m a)"
    unfolding made by (intro sys_call) (simp_all add: sy_start_def writes_def newCientCodec_def)
  moreover have "reach sy_init (sys_step E) sy_start" by (simp add: reach_init sy_init_def)
  ultimately show ?thesis by (meson reach_step)
qed

lemma one_client_old:
  "starts (one_client reg x k pc rc p ws) (one_client reg' x' k' pc' rc' p' ws') \<longleftrightarrow> pc = Unused \<and> pc' \<noteq> Unused"
  "writes (one_client reg x k pc rc p ws) (one_client reg' x' k' pc' rc' p' ws') \<longleftrightarrow> (\<exists>s. pc = SWrite s) \<and> pc' = SWaiting"
  by (auto simp: starts_def writes_def one_client_def)

text \<open>The server's run within the system.\<close>

lemma server_run: "(server_step E True ^^ k) n n' \<Longrightarrow> sy_up y \<Longrightarrow> (old_step E ^^ k) (y\<lparr>sy_server := n\<rparr>) (y\<lparr>sy_server := n'\<rparr>)"
proof (induction k arbitrary: n')
  case 0
  then show ?case by simp
next
  case (Suc k)
  then obtain m where m: "(server_step E True ^^ k) n m" "server_step E True m n'" by auto
  have "old_step E (y\<lparr>sy_server := m\<rparr>) (y\<lparr>sy_server := n'\<rparr>)"
    using sys_server [of E "y\<lparr>sy_server := m\<rparr>" n'] m(2) Suc.prems(2) by (simp add: old_step_def starts_def)
  with Suc.IH [OF m(1) Suc.prems(2)] show ?case by auto
qed

lemma three_steps: "P a b \<Longrightarrow> P b c \<Longrightarrow> P c d \<Longrightarrow> (P ^^ 3) a d"
  by (simp add: numeral_3_eq_3) blast

lemma one_call_run:
  fixes E :: "('a, 'b, 'r) rpc_env"
  assumes env: "en_timeout E = 0" "en_dur E = ''''" "en_enc E = (\<lambda>_. None)"
    and read: "readRequest (en_services E) (en_dec E) (frames [(rq_h r, a)]) = (Ret (GoodRequest r), [])"
    and header: "h_Seq (rq_h r) = 1" "h_Err (rq_h r) = ''''" "h_ServiceMethod (rq_h r) = m"
    and meth: "en_meth E r (None, v)" and reply: "en_reply E (Some v) = Inr w"
  shows "(old_step E ^^ 13) (one_made m a) (one_returned r a v w)"
proof -
  let ?h = "rq_h r"
  let ?sys = "\<lambda>c n p. \<lparr>sy_client = c, sy_server = n, sy_read = p, sy_up = True\<rparr>"
  let ?c0 = "one_client False None (one_call 0 m a None 0) SStart RRead Map.empty []"
  let ?c1 = "one_client False (Some 0) (one_call 0 m a None 0) SLocked RRead Map.empty []"
  let ?c2 = "one_client True (Some 0) (one_call 1 m a None 0) (SWrite 1) RRead [1 \<mapsto> 0] []"
  let ?c3 = "one_client True None (one_call 1 m a None 0) SWaiting RRead [1 \<mapsto> 0] [(?h, a)]"
  let ?c4 = "one_client True None (one_call 1 m a None 0) SWaiting (RGot (Some 0) ?h) Map.empty [(?h, a)]"
  let ?c5 = "one_client True None (one_call 1 m a (Some (1, w)) 1) SWaiting RRead Map.empty [(?h, a)]"
  let ?c6 = "one_client True None (one_call 1 m a (Some (1, w)) 1) (SReturned None) RRead Map.empty [(?h, a)]"
  let ?n0 = "sv_start [] :: ('a, 'b, 'r) sconn" and ?n1 = "sv_start (frames [(?h, a)]) :: ('a, 'b, 'r) sconn"
    and ?n2 = "one_answered r v :: ('a, 'b, 'r) sconn"
  note cl = one_client_def one_call_def
  have hd: "request_header 0 1 ?c2 = ?h" using header by (simp add: request_header_def cl)
  have "call_step ?c0 ?c1" using call_lock [of ?c0 0] by (simp add: cl)
  from sys_call [of "?sys ?c0 ?n0 0" ?c1 E] this have "old_step E (?sys ?c0 ?n0 0) (?sys ?c1 ?n0 0)"
    by (simp add: old_step_def one_client_old)
  moreover have "call_step ?c1 ?c2"
    using call_register [of ?c1 0 1] by (simp add: cl registerCall_def upd_call_def Let_def)
  from sys_call [of "?sys ?c1 ?n0 0" ?c2 E] this have "old_step E (?sys ?c1 ?n0 0) (?sys ?c2 ?n0 0)"
    by (simp add: old_step_def one_client_old)
  moreover have "old_step E (?sys ?c2 ?n0 0) (?sys ?c3 ?n1 0)"
  proof -
    have "call_step ?c2 ?c3"
      using call_write [of ?c2 0 1 "one_call 1 m a None 0" "[(?h, a)]"] hd by (simp add: cl)
    moreover have "?n0\<lparr>sn_in := sn_in ?n0 @ frames [(?h, a)]\<rparr> = ?n1" by (simp add: sv_start_def)
    moreover have "cl_wire ?c3 = cl_wire ?c2 @ [(?h, a)]" by (simp add: one_client_def)
    ultimately show ?thesis
      using sys_write [of "?sys ?c2 ?n0 0" ?c3 "(?h, a)" ?n0 E]
      by (simp add: old_step_def one_client_old del: frames.simps)
  qed
  ultimately have start: "(old_step E ^^ 3) (?sys ?c0 ?n0 0) (?sys ?c3 ?n1 0)" by (rule three_steps)
  have "(server_step E True ^^ 7) ?n1 ?n2"
  proof (rule one_answer_run [OF read])
    show "server_step E True n n'" if "sv_step (en_services E) (en_dec E) (\<lambda>_. None) 0 '''' n n'"
      "\<And>i res. sn_worker n i = WCall \<Longrightarrow> sn_worker n' i = WCalled res \<Longrightarrow> i = 0 \<and> sn_reqs n = [r] \<and> res = (None, v)"
      "sn_loop n' = LRead" for n n'
      unfolding server_step_def env using that meth by fastforce
  qed
  from server_run [OF this, of "?sys ?c3 ?n0 0"] have serve: "(old_step E ^^ 7) (?sys ?c3 ?n1 0) (?sys ?c3 ?n2 0)" by simp
  have out: "gc_out (sn_codec ?n2) = [MHeader ?h, MBody (Some v)]" by (simp add: one_answered_def one_state_def one_out_def)
  have "receive_header (Inr ?h) ?c3 = ?c4" using header by (simp add: receive_header_def removeCall_def cl)
  then have "old_step E (?sys ?c3 ?n2 0) (?sys ?c4 ?n2 1)"
    using sys_header [of "?sys ?c3 ?n2 0" "Inr ?h" E]
    by (simp add: old_step_def one_client_old header_read_def can_read_def unread_def out) (simp add: one_client_def)
  moreover have "receive_body (Some 0) ?h (Inr w) ?c4 = ?c5"
    using header by (simp add: receive_body_def upd_call_def complete_call_def call_done_def cl)
  then have "old_step E (?sys ?c4 ?n2 1) (?sys ?c5 ?n2 2)"
    using sys_body [of "?sys ?c4 ?n2 1" "Some 0" ?h E "Inr w"] reply header(2)
    by (simp add: old_step_def one_client_old body_read_def can_read_def unread_def out) (simp add: one_client_def numeral_2_eq_2)
  moreover have "call_step ?c5 ?c6" using call_result [of ?c5 0 "one_call 1 m a (Some (1, w)) 1"] by (simp add: cl)
  from sys_call [of "?sys ?c5 ?n2 2" ?c6 E] this have "old_step E (?sys ?c5 ?n2 2) (?sys ?c6 ?n2 2)"
    by (simp add: old_step_def one_client_old)
  ultimately have "(old_step E ^^ 3) (?sys ?c3 ?n2 0) (?sys ?c6 ?n2 2)" by (rule three_steps)
  with serve have "(old_step E ^^ (7 + 3)) (?sys ?c3 ?n1 0) (?sys ?c6 ?n2 2)" by (rule relpowp_trans)
  with start have "(old_step E ^^ (3 + (7 + 3))) (?sys ?c0 ?n0 0) (?sys ?c6 ?n2 2)" by (rule relpowp_trans)
  then show ?thesis using header(3) by (simp add: one_made_def one_returned_def)
qed

lemma one_returned_reach:
  assumes "(old_step E ^^ k) (one_made m a) y"
  shows "reach sy_init (sys_step E) y"
proof -
  have "(sys_step E)\<^sup>*\<^sup>* (one_made m a) y"
    using relpowp_imp_rtranclp [OF assms] by (rule rtranclp_mono [THEN predicate2D, rotated]) (auto simp: old_step_def)
  then show ?thesis by (rule system.reach_steps [OF one_made_reach])
qed

subsection \<open>What a caller can rely on\<close>

lemma returned_reply:
  assumes inv: "sys_inv E y" and few: "few_calls (sy_client y)" and errs: "errors_have_text E"
    and pc: "cl_pc (sy_client y) i = SReturned None"
  obtains x v where "cl_calls (sy_client y) i = Some x" "rc_Reply x = Some (rc_Seq x, v)"
    "\<exists>r t. r \<in> set (sn_reqs (sy_server y)) \<and> h_Seq (rq_h r) = rc_Seq x \<and>
      h_ServiceMethod (rq_h r) = rc_ServiceMethod x \<and> en_dec E t (rc_Args x) = Inr (rq_argv r) \<and>
      findService (rc_ServiceMethod x) (en_services E) = Inr (rq_svc r, rq_mType r) \<and> reply_of E r v"
proof -
  have "returned_ok (sy_client y)" by (rule returned.inv_reach [OF sys_invD(1) [OF inv]])
  then obtain x q v where x: "cl_calls (sy_client y) i = Some x" "rc_Reply x = Some (q, v)"
    using pc unfolding returned_ok_def by fastforce
  from reply_origin [OF inv few errs x] x that show ?thesis by blast
qed

text \<open>
  Property C4. A call over a connection returns the result of its own method on its own
  arguments. However the callers, the goroutine \<^verbatim>\<open>receive\<close>, the server's loop and its handlers
  interleave, whatever calls are made, given up or time out, whenever the client is closed,
  \<^verbatim>\<open>Write\<close> fails or the connection breaks: if \<^verbatim>\<open>Call\<close> has returned without an error, the server
  has read a request with the number, the method and the arguments of this very call, and the
  call's reply was decoded from what the method answered to it.
\<close>

theorem call_gets_its_result:
  assumes "reach sy_init (sys_step E) y" and "few_calls (sy_client y)" and "errors_have_text E"
    and "cl_pc (sy_client y) i = SReturned None"
  shows "\<exists>x v r t. cl_calls (sy_client y) i = Some x \<and> rc_Reply x = Some (rc_Seq x, v) \<and>
    r \<in> set (sn_reqs (sy_server y)) \<and> h_Seq (rq_h r) = rc_Seq x \<and>
    h_ServiceMethod (rq_h r) = rc_ServiceMethod x \<and> en_dec E t (rc_Args x) = Inr (rq_argv r) \<and>
    findService (rc_ServiceMethod x) (en_services E) = Inr (rq_svc r, rq_mType r) \<and> reply_of E r v"
proof -
  have inv: "sys_inv E y" by (rule system.inv_reach [OF assms(1)])
  show ?thesis by (rule returned_reply [OF inv assms(2-4)]) blast
qed

definition sum_env :: "(nat, nat, nat) rpc_env" where
  "sum_env =
     \<lparr>en_services = foo_server, en_dec = plain_dec, en_enc = (\<lambda>_. None),
      en_reply = (\<lambda>r. case r of Some v \<Rightarrow> Inr v | None \<Rightarrow> Inl ''EOF''), en_timeout = 0, en_dur = '''',
      en_meth = (\<lambda>r res. res = (None, 42))\<rparr>"

lemma sum_call_run: "(old_step sum_env ^^ 13) (one_made ''Foo.Sum'' 7) (one_returned sum_request 7 42 42)"
proof (rule one_call_run)
  show "readRequest (en_services sum_env) (en_dec sum_env) (frames [(rq_h sum_request, 7)]) = (Ret (GoodRequest sum_request), [])"
    using sum_read by (simp only: sum_request_header) (simp add: sum_env_def)
qed (simp_all only: sum_request_header, simp_all add: sum_env_def sum_header_def)

theorem call_gets_its_result_witness:
  "\<exists>x v r. cl_calls (sy_client (one_returned sum_request 7 42 42 :: (nat, nat, nat) rpc_sys)) 0 = Some x \<and>
    rc_Reply x = Some (rc_Seq x, v) \<and> rc_Args x = rq_argv r \<and> reply_of sum_env r v"
proof -
  let ?y = "one_returned sum_request 7 42 42 :: (nat, nat, nat) rpc_sys"
  have "few_calls (sy_client ?y)" "cl_pc (sy_client ?y) 0 = SReturned None"
    by (simp_all add: one_returned_def one_client_def few_calls_def)
  moreover have "errors_have_text sum_env" by (simp add: errors_have_text_def sum_env_def plain_dec_def)
  ultimately obtain x v r t where "cl_calls (sy_client ?y) 0 = Some x" "rc_Reply x = Some (rc_Seq x, v)"
    "en_dec sum_env t (rc_Args x) = Inr (rq_argv r)" "reply_of sum_env r v"
    using call_gets_its_result [OF one_returned_reach [OF sum_call_run]] by blast
  then show ?thesis by (auto simp: sum_env_def plain_dec_def)
qed

end
