(* ===== verification/RPC_Returns.thy ===== *)
theory RPC_Returns
  imports RPC_System
begin

section \<open>Package surpc: every call returns\<close>

text \<open>
  The liveness of the system of \<^verbatim>\<open>RPC_System\<close>: no response gets lost while the connection is up, a weight
  bounds the steps between new calls, and where both sides can only wait no caller waits.
\<close>

subsection \<open>No response is lost\<close>

text \<open>
  While the connection is up, a caller that waits for a pending call has written its request,
  and no call is pending any more whose response has been read.
\<close>

definition waiting_ok :: "'a client \<Rightarrow> bool" where
  "waiting_ok c \<longleftrightarrow> (\<forall>i x. cl_pc c i = SWaiting \<and> cl_calls c i = Some x \<and> cl_pending c (rc_Seq x) = Some i \<longrightarrow>
     (\<exists>h \<in> fst ` set (cl_wire c). h_Seq h = rc_Seq x))"

definition removed_ok :: "('a, 'b, 'r) rpc_sys \<Rightarrow> bool" where
  "removed_ok y \<longleftrightarrow> (gc_open (sn_codec (sy_server y)) \<and>
       (cl_recv (sy_client y) = RRead \<or> (\<exists>r h. cl_recv (sy_client y) = RGot r h)) \<longrightarrow>
     (\<forall>h. MHeader h \<in> set (take (sy_read y) (gc_out (sn_codec (sy_server y)))) \<longrightarrow> cl_pending (sy_client y) (h_Seq h) = None))"

definition live_inv :: "('a, 'b, 'r) rpc_env \<Rightarrow> ('a, 'b, 'r) rpc_sys \<Rightarrow> bool" where
  "live_inv E y \<longleftrightarrow> sys_inv E y \<and> finite {i. cl_pc (sy_client y) i \<noteq> Unused} \<and>
     (sn_loop (sy_server y) = LClosed \<longrightarrow> \<not> gc_open (sn_codec (sy_server y))) \<and>
     (few_calls (sy_client y) \<and> sy_up y \<longrightarrow> waiting_ok (sy_client y) \<and> removed_ok y)"

lemma waiting_cong:
  assumes "waiting_ok c" and "set (cl_wire c) \<subseteq> set (cl_wire d)"
    and "\<And>i y. cl_pc d i = SWaiting \<Longrightarrow> cl_calls d i = Some y \<Longrightarrow> cl_pending d (rc_Seq y) = Some i \<Longrightarrow>
      cl_pc c i = SWaiting \<and> (\<exists>x. cl_calls c i = Some x \<and> rc_Seq x = rc_Seq y) \<and> cl_pending c (rc_Seq y) = Some i"
  shows "waiting_ok d"
proof -
  have "\<exists>h \<in> fst ` set (cl_wire d). h_Seq h = rc_Seq y"
    if w: "cl_pc d i = SWaiting" "cl_calls d i = Some y" "cl_pending d (rc_Seq y) = Some i" for i y
  proof -
    obtain x where "cl_pc c i = SWaiting" "cl_calls c i = Some x" "rc_Seq x = rc_Seq y" "cl_pending c (rc_Seq x) = Some i"
      using assms(3) [OF w] by auto
    then have "\<exists>h \<in> fst ` set (cl_wire c). h_Seq h = rc_Seq y" using assms(1) unfolding waiting_ok_def by metis
    then show ?thesis using assms(2) by blast
  qed
  then show ?thesis unfolding waiting_ok_def by blast
qed

lemma register_effect:
  assumes "registerCall i c = (Inr seq, c1)"
  shows "seq = cl_seq c" "cl_calls c1 = (cl_calls c)(i := map_option (\<lambda>k. k\<lparr>rc_Seq := cl_seq c\<rparr>) (cl_calls c i))"
    "cl_pending c1 = (cl_pending c)(cl_seq c \<mapsto> i)" "cl_pc c1 = cl_pc c" "cl_wire c1 = cl_wire c"
  using assms by (auto simp: registerCall_def upd_call_def Let_def split: if_splits)

lemma waiting_call_step:
  assumes ok: "waiting_ok c" and inv: "cl_inv c" and few: "few_calls c" and "call_step c d"
    and written: "writes c d \<Longrightarrow> cl_wire d \<noteq> cl_wire c"
  shows "waiting_ok d"
  using assms(4)
proof cases
  case (call_refused i err c1)
  then have c1: "c1 = c" by (auto simp: registerCall_def Let_def split: if_splits)
  obtain x where x: "cl_calls c i = Some x" "call_state_ok c i x" using inv_call [OF inv few, of i] call_refused(2) by auto
  have "cl_pending c (rc_Seq x) \<noteq> Some i"
    using x(2) call_refused(2) inv_unfold [OF inv few] pendingD [of c "rc_Seq x" i] by (auto simp: call_state_ok_def)
  then show ?thesis
    using x(1) by (intro waiting_cong [OF ok])
      (auto simp: call_refused(1) c1 upd_call_def call_done_def split: if_splits)
next
  case (call_register i seq c1)
  note eff = register_effect [OF call_register(3)]
  show ?thesis
    by (rule waiting_cong [OF ok]) (auto simp: call_register(1) eff split: if_splits)
next
  case (call_write i seq k wire)
  then have "writes c d" unfolding writes_def by (intro exI [of _ i] exI [of _ seq]) simp
  then have wire: "wire = cl_wire c @ [(request_header i seq c, rc_Args k)]" using written call_write by auto
  obtain x where x: "cl_calls c i = Some x" "call_state_ok c i x" using inv_call [OF inv few, of i] call_write(2) by auto
  then have "rc_Seq k = seq" using call_write(2,3) by (simp add: call_state_ok_def)
  then have own: "\<exists>h \<in> fst ` set (cl_wire d). h_Seq h = rc_Seq k"
    by (simp add: call_write(1) wire request_header_def)
  have "\<exists>h \<in> fst ` set (cl_wire d). h_Seq h = rc_Seq y"
    if "cl_pc d j = SWaiting" "cl_calls d j = Some y" "cl_pending d (rc_Seq y) = Some j" for j y
  proof (cases "j = i")
    case True
    with that(2) call_write(1,3) own show ?thesis by simp
  next
    case False
    then have "cl_pc c j = SWaiting \<and> cl_calls c j = Some y \<and> cl_pending c (rc_Seq y) = Some j"
      using that by (simp add: call_write(1))
    then have "\<exists>h \<in> fst ` set (cl_wire c). h_Seq h = rc_Seq y" using ok unfolding waiting_ok_def by blast
    then show ?thesis unfolding call_write(1) wire by auto
  qed
  then show ?thesis unfolding waiting_ok_def by blast
qed (rule waiting_cong [OF ok]; auto simp: removeCall_def split: if_splits)+

lemma waiting_receive:
  "waiting_ok c \<Longrightarrow> waiting_ok (receive_header res c)" "waiting_ok c \<Longrightarrow> waiting_ok (receive_body r h body c)"
  "waiting_ok c \<Longrightarrow> waiting_ok ((terminateCalls e c)\<lparr>cl_recv := RStopped\<rparr>)"
proof -
  have seq: "rc_Seq (complete_call h body k) = rc_Seq k" for k
    by (simp add: complete_call_def call_done_def split: sum.split)
  show "waiting_ok c \<Longrightarrow> waiting_ok (receive_header res c)"
    by (erule waiting_cong) (auto simp: receive_header_def removeCall_def split: sum.splits if_splits)
  show "waiting_ok c \<Longrightarrow> waiting_ok (receive_body r h body c)"
    by (erule waiting_cong) (auto simp: receive_body_def upd_call_def seq split: option.splits if_splits)
  show "waiting_ok c \<Longrightarrow> waiting_ok ((terminateCalls e c)\<lparr>cl_recv := RStopped\<rparr>)"
    by (erule waiting_cong) (auto simp: terminateCalls_def call_done_def split: if_splits)
qed

lemma sent_number:
  assumes inv: "sys_inv E y" and up: "sy_up y" and sent: "(h, b) \<in> snd ` set (sn_sent (sy_server y))"
  shows "\<exists>h0 \<in> fst ` set (cl_wire (sy_client y)). h_Seq h0 = h_Seq h"
proof -
  let ?n = "sy_server y"
  note parts = sys_invD [OF inv]
  obtain x where x: "(x, h, b) \<in> set (sn_sent ?n)" using sent by auto
  note resp = sent_response [OF x]
  show ?thesis
  proof (cases "handler_of x")
    case None
    then obtain h0 e where h0: "(h0, e) \<in> set (sn_bad ?n)" "h = h0\<lparr>h_Err := e\<rparr>"
      using error_response [OF parts(4), of h b] resp by auto
    then have "h0 \<in> fst ` set (cl_wire (sy_client y))" using parts(5) up by (auto simp: served_inv_def)
    with h0(2) show ?thesis by (intro bexI [of _ h0]) simp_all
  next
    case (Some i)
    have "i < length (sn_reqs ?n)"
    proof (rule ccontr)
      assume "\<not> i < length (sn_reqs ?n)"
      then have "responses ?n (Some i) = []" using parts(4) by (simp add: sv_inv_def handlers_inv_def)
      then show False using resp Some by simp
    qed
    then have "request_of E (set (cl_wire (sy_client y))) (sn_reqs ?n ! i)"
      "h_Seq h = h_Seq (rq_h (sn_reqs ?n ! i))"
      using parts(5) response_header(1) [OF parts(4)] resp Some by (simp_all add: served_inv_def)
    then show ?thesis unfolding request_of_def by force
  qed
qed

lemma header_in_frames: "(h, b) \<in> set L \<Longrightarrow> MHeader h \<in> set (frames L)"
  by (induction L rule: frames.induct) auto

lemma frames_header: "MHeader h \<in> set (frames L) \<Longrightarrow> \<exists>b. (h, b) \<in> set L"
  by (induction L rule: frames.induct) auto

lemma fresh_response:
  assumes inv: "sys_inv E y" and up: "sy_up y" and few: "few_calls (sy_client y)"
    and g: "gc_open (sn_codec (sy_server y))" and h: "MHeader h \<in> set (gc_out (sn_codec (sy_server y)))"
  shows "h_Seq h \<noteq> cl_seq (sy_client y)"
proof -
  let ?c = "sy_client y"
  note parts = sys_invD [OF inv] and ok = inv_unfold [OF sys_invD(2) [OF inv] few]
  have "gc_out (sn_codec (sy_server y)) = frames (map snd (sn_sent (sy_server y)))"
    using parts(8) g by (simp add: output_inv_def)
  with h obtain b where "(h, b) \<in> snd ` set (sn_sent (sy_server y))" using frames_header by fastforce
  from sent_number [OF inv up this] obtain h0 a where a: "(h0, a) \<in> set (cl_wire ?c)" "h_Seq h0 = h_Seq h" by auto
  obtain i x where x: "i \<in> set (cl_regs ?c)" "cl_calls ?c i = Some x" "rc_Seq x = h_Seq h0"
    using wireD [OF _ a(1)] ok by blast
  have len: "length (cl_regs ?c) + 1 < 2 ^ 64" using few unfolding few_calls_def by linarith
  have "rc_Seq x \<noteq> cl_seq ?c" using fresh_number(2) [OF _ _ len x(1,2)] ok by blast
  with x(3) a(2) show ?thesis by simp
qed

lemma call_step_pending:
  assumes "call_step c d" and "cl_pending c s = None" and "s \<noteq> cl_seq c"
  shows "cl_pending d s = None"
  using assms(1)
proof cases
  case (call_register i seq c1)
  with register_effect(3) [OF call_register(3)] assms(2,3) show ?thesis by simp
qed (use assms(2) in \<open>auto simp: registerCall_def removeCall_def upd_call_def Let_def split: if_splits\<close>)

lemma removed_call_step:
  assumes ok: "removed_ok y" and inv: "sys_inv E y" and up: "sy_up y" and few: "few_calls (sy_client y)"
    and step: "call_step (sy_client y) c"
  shows "removed_ok (y\<lparr>sy_client := c, sy_server := (sy_server y)\<lparr>sn_in := ms\<rparr>\<rparr>)"
proof -
  have "cl_pending c (h_Seq h) = None"
    if "gc_open (sn_codec (sy_server y))" "cl_recv c = RRead \<or> (\<exists>r h. cl_recv c = RGot r h)"
      "MHeader h \<in> set (take (sy_read y) (gc_out (sn_codec (sy_server y))))" for h
  proof (rule call_step_pending [OF step])
    show "cl_pending (sy_client y) (h_Seq h) = None"
      using ok that call_step_effect(1) [OF step] unfolding removed_ok_def by auto
    show "h_Seq h \<noteq> cl_seq (sy_client y)"
      by (rule fresh_response [OF inv up few that(1)]) (use that(3) in_set_takeD in fast)
  qed
  then show ?thesis by (simp add: removed_ok_def)
qed

lemma removed_server_step:
  assumes ok: "removed_ok y" and inv: "sys_inv E y" and step: "server_step E (sy_up y) (sy_server y) n"
  shows "removed_ok (y\<lparr>sy_server := n\<rparr>)"
proof -
  note parts = sys_invD [OF inv]
  obtain ms where ms: "gc_out (sn_codec n) = gc_out (sn_codec (sy_server y)) @ ms"
      "gc_open (sn_codec n) \<Longrightarrow> gc_open (sn_codec (sy_server y))"
    using server_step_effect(3) [OF parts(3) step] by blast
  have "sy_read y \<le> length (gc_out (sn_codec (sy_server y)))"
    if "cl_recv (sy_client y) = RRead \<or> (\<exists>r h. cl_recv (sy_client y) = RGot r h)"
    using parts(6) that
  proof (elim disjE exE)
    fix r h assume "position_ok (cl_recv (sy_client y)) (sy_read y) (sn_codec (sy_server y))" "cl_recv (sy_client y) = RGot r h"
    then obtain q m where "sy_read y = Suc (2 * q)" "drop (2 * q) (gc_out (sn_codec (sy_server y))) = MHeader h # m"
      by (auto simp: position_ok_def)
    then show ?thesis by (metis Suc_leI drop_all leI list.distinct(1))
  qed (auto simp: position_ok_def)
  then show ?thesis using ok ms unfolding removed_ok_def by auto
qed

lemma removed_header:
  assumes ok: "removed_ok y" and rd: "cl_recv (sy_client y) = RRead" and h: "header_read y res"
  shows "removed_ok (y\<lparr>sy_client := receive_header res (sy_client y), sy_read := Suc (sy_read y)\<rparr>)"
proof (cases res)
  case (Inl e)
  then show ?thesis by (simp add: removed_ok_def receive_header_def)
next
  case (Inr hd)
  then have "fst (gob_ReadHeader (unread y)) = Inr hd" using h by (simp add: header_read_def split: if_splits)
  then obtain ms where ms: "drop (sy_read y) (gc_out (sn_codec (sy_server y))) = MHeader hd # ms"
    unfolding unread_def by (cases "drop (sy_read y) (gc_out (sn_codec (sy_server y)))" rule: gob_ReadHeader.cases) auto
  then have "take (Suc (sy_read y)) (gc_out (sn_codec (sy_server y))) = take (sy_read y) (gc_out (sn_codec (sy_server y))) @ [MHeader hd]"
    using take_hd_drop [of "sy_read y" "gc_out (sn_codec (sy_server y))"] by (metis drop_all leI list.distinct(1) list.sel(1))
  with ok rd Inr show ?thesis by (auto simp: removed_ok_def receive_header_def removeCall_def)
qed

lemma removed_body:
  assumes ok: "removed_ok y" and inv: "sys_inv E y" and got: "cl_recv (sy_client y) = RGot r h"
    and body: "body_read (en_reply E) r h y body"
  shows "removed_ok (y\<lparr>sy_client := receive_body r h body (sy_client y), sy_read := Suc (sy_read y)\<rparr>)"
proof (cases body)
  case (Inl e)
  then show ?thesis by (simp add: removed_ok_def receive_body_def)
next
  case (Inr v)
  let ?out = "gc_out (sn_codec (sy_server y))"
  have "unread y \<noteq> []" using body Inr by (auto simp: body_read_def split: if_splits)
  then obtain b ms where "sy_read y < length ?out" "drop (sy_read y) ?out = MBody b # ms"
    unfolding unread_def [symmetric] by (rule unread_body [OF inv got]) blast
  then have "take (Suc (sy_read y)) ?out = take (sy_read y) ?out @ [MBody b]"
    using take_hd_drop [of "sy_read y" ?out] by simp
  moreover have "cl_pending (receive_body r h body (sy_client y)) = cl_pending (sy_client y)"
    by (simp add: receive_body_def upd_call_def split: option.split)
  ultimately show ?thesis using ok got by (auto simp: removed_ok_def)
qed

text \<open>Registering takes numbers, nothing gives them back.\<close>

lemma call_step_few: "call_step c d \<Longrightarrow> few_calls d \<Longrightarrow> few_calls c"
  by (erule call_step.cases)
    (auto simp: few_calls_def registerCall_def removeCall_def upd_call_def Let_def split: if_splits)

lemma receive_few:
  "few_calls (receive_header res c) \<longleftrightarrow> few_calls c" "few_calls (receive_body r h body c) \<longleftrightarrow> few_calls c"
  "few_calls ((terminateCalls e c)\<lparr>cl_recv := rc\<rparr>) \<longleftrightarrow> few_calls c"
  by (simp_all add: few_calls_def receive_header_def removeCall_def receive_body_def upd_call_def terminateCalls_def
    split: sum.split option.split)

lemma receive_pc:
  "cl_pc (receive_header res c) = cl_pc c" "cl_pc (receive_body r h body c) = cl_pc c"
  "cl_pc ((terminateCalls e c)\<lparr>cl_recv := rc\<rparr>) = cl_pc c"
  by (simp_all add: receive_header_def removeCall_def receive_body_def upd_call_def terminateCalls_def
    split: sum.split option.split)

lemma call_step_pc: "call_step c d \<Longrightarrow> \<exists>i pc. cl_pc d = (cl_pc c)(i := pc) \<and> pc \<noteq> Unused"
  by (erule call_step.cases) (fastforce simp: registerCall_def removeCall_def upd_call_def Let_def split: if_splits)+

lemma finite_callers: "call_step c d \<Longrightarrow> finite {i. cl_pc c i \<noteq> Unused} \<Longrightarrow> finite {i. cl_pc d i \<noteq> Unused}"
proof -
  assume step: "call_step c d" and fin: "finite {i. cl_pc c i \<noteq> Unused}"
  from call_step_pc [OF step] obtain i pc where "cl_pc d = (cl_pc c)(i := pc)" by blast
  then have "{j. cl_pc d j \<noteq> Unused} \<subseteq> insert i {j. cl_pc c j \<noteq> Unused}" by auto
  then show "finite {i. cl_pc d i \<noteq> Unused}" using fin by (rule finite_subset [OF _ finite.insertI])
qed

lemma server_closed:
  assumes "work_inv (en_timeout E) (en_dur E) (en_meth E) n" and step: "server_step E up n n'"
    and "sn_loop n = LClosed \<Longrightarrow> \<not> gc_open (sn_codec n)" and closed: "sn_loop n' = LClosed"
  shows "\<not> gc_open (sn_codec n')"
proof (cases "sn_loop n = LClosed")
  case True
  then show ?thesis using assms(3) server_step_effect(3) [OF assms(1,2)] by blast
next
  case False
  obtain enc where "sv_step (en_services E) (en_dec E) enc (en_timeout E) (en_dur E) n n'"
    using step by (auto simp: server_step_def)
  then consider "loop_step (en_services E) (en_dec E) n n'" | "handle_step (en_timeout E) (en_dur E) n n'" | "send_step enc n n'"
    by (auto simp: sv_step_def)
  then show ?thesis
  proof cases
    case 3
    then show ?thesis
    proof cases
      case (send_body x h b)
      with False closed show ?thesis by (cases x) auto
    qed (use False closed in simp_all)
  qed (erule loop_step.cases handle_step.cases; use False closed in \<open>simp add: gob_Close_def\<close>)+
qed

lemma live_step:
  assumes live: "live_inv E y" and step: "sys_step E y z"
  shows "live_inv E z"
proof -
  have inv: "sys_inv E y" and fin: "finite {i. cl_pc (sy_client y) i \<noteq> Unused}" using live by (simp_all add: live_inv_def)
  have ok: "waiting_ok (sy_client y)" "removed_ok y" if "few_calls (sy_client y)" "sy_up y"
    using live that by (simp_all add: live_inv_def)
  have inv': "sys_inv E z" by (rule sys_step_inv [OF inv step])
  have closed: "sn_loop (sy_server y) = LClosed \<longrightarrow> \<not> gc_open (sn_codec (sy_server y))" using live by (simp add: live_inv_def)
  have caller: "waiting_ok c \<and> removed_ok (y\<lparr>sy_client := c, sy_server := (sy_server y)\<lparr>sn_in := ms\<rparr>\<rparr>)"
    if "call_step (sy_client y) c" "few_calls c" "sy_up y" "writes (sy_client y) c \<Longrightarrow> cl_wire c \<noteq> cl_wire (sy_client y)" for c ms
  proof -
    have few: "few_calls (sy_client y)" by (rule call_step_few [OF that(1,2)])
    show ?thesis
      using waiting_call_step [OF ok(1) [OF few that(3)] sys_invD(2) [OF inv] few that(1)] that(4)
        removed_call_step [OF ok(2) [OF few that(3)] inv that(3) few that(1)] by blast
  qed
  from step show ?thesis
  proof cases
    case (sys_call c)
    with caller [of c "sn_in (sy_server y)"] finite_callers [OF _ fin] closed inv' show ?thesis
      by (auto simp: live_inv_def)
  next
    case (sys_write c f n)
    with caller [of c "sn_in n @ frames [f]"] finite_callers [OF _ fin] closed inv' show ?thesis
      by (auto simp: live_inv_def removed_ok_def)
  next
    case (sys_write_fails c i seq h n m)
    with finite_callers [OF _ fin] closed inv' show ?thesis by (simp add: live_inv_def)
  next
    case (sys_close c n m)
    with close_effect [OF sys_close(3)] fin closed inv' show ?thesis by (simp add: live_inv_def)
  next
    case (sys_break n m)
    with fin closed inv' show ?thesis by (simp add: live_inv_def)
  next
    case (sys_server n)
    have "removed_ok z" if "few_calls (sy_client y)" "sy_up y"
      unfolding sys_server(1) by (rule removed_server_step [OF ok(2) [OF that] inv sys_server(2)])
    moreover have "sn_loop n = LClosed \<longrightarrow> \<not> gc_open (sn_codec n)"
      using closed server_closed [OF sys_invD(3) [OF inv] sys_server(2)] by blast
    ultimately show ?thesis using sys_server(1) ok(1) fin inv' by (simp add: live_inv_def)
  next
    case (sys_header res)
    with removed_header [OF ok(2)] waiting_receive(1) [OF ok(1)] fin closed inv' show ?thesis
      by (simp add: live_inv_def receive_few receive_pc)
  next
    case (sys_body r h body)
    with removed_body [OF ok(2) inv] waiting_receive(2) [OF ok(1)] fin closed inv' show ?thesis
      by (simp add: live_inv_def receive_few receive_pc)
  next
    case (sys_terminate e)
    with waiting_receive(3) [OF ok(1)] fin closed inv' show ?thesis
      by (simp add: live_inv_def receive_few receive_pc removed_ok_def)
  qed
qed

interpretation living: inductive_invariant sy_init "sys_step E" "live_inv E" for E
proof
  show "live_inv E y" if "sy_init y" for y :: "('a, 'b, 'c) rpc_sys"
    using that sys_start_inv [OF that, of E]
    by (simp add: live_inv_def sy_init_def sy_start_def newCientCodec_def waiting_ok_def removed_ok_def sv_start_def)
qed (rule live_step)

subsection \<open>Every call returns\<close>

text \<open>
  A weight that every step but a new call decreases: a request that is written weighs what the
  server does for it and what the client reads.
\<close>

fun pc_weight :: "send_pc \<Rightarrow> nat" where
  "pc_weight Unused = 0"
| "pc_weight SStart = 124"
| "pc_weight SLocked = 123"
| "pc_weight (SWrite s) = 122"
| "pc_weight SWaiting = 1"
| "pc_weight (SReturned e) = 0"

fun recv_weight :: "recv_pc \<Rightarrow> nat" where
  "recv_weight RRead = 2"
| "recv_weight (RGot r h) = 2"
| "recv_weight (RTerminate e) = 1"
| "recv_weight RStopped = 0"

definition caller_weights :: "'a client \<Rightarrow> nat" where
  "caller_weights c = (\<Sum>i | cl_pc c i \<noteq> Unused. pc_weight (cl_pc c i))"

definition sys_weight :: "('a, 'b, 'r) rpc_sys \<Rightarrow> nat" where
  "sys_weight y = 3 * sv_weight (sy_server y) + length (unread y) + caller_weights (sy_client y) +
     recv_weight (cl_recv (sy_client y)) + of_bool (sy_up y) + of_bool (\<not> cl_closing (sy_client y))"

lemma caller_step:
  assumes "call_step c d" and "\<not> starts c d"
  shows "\<exists>i pc. cl_pc d = (cl_pc c)(i := pc) \<and> cl_pc c i \<noteq> Unused \<and> pc \<noteq> Unused \<and>
    pc_weight pc < pc_weight (cl_pc c i) \<and> (cl_wire d \<noteq> cl_wire c \<or> writes c d \<longrightarrow> pc_weight pc + 121 \<le> pc_weight (cl_pc c i))"
proof -
  have other: ?thesis if "cl_pc d = (cl_pc c)(i := pc)" "cl_pc c i \<noteq> Unused" "pc \<noteq> Unused"
    "pc_weight pc < pc_weight (cl_pc c i)" "cl_wire d = cl_wire c" "\<And>s. cl_pc c i \<noteq> SWrite s" for i pc
  proof -
    have "\<not> writes c d" using that(1,6) by (auto simp: writes_def split: if_splits)
    with that show ?thesis by blast
  qed
  from assms(1) show ?thesis
  proof cases
    case (call_go i k m a)
    then have "starts c d" unfolding starts_def by (intro exI [of _ i]) simp
    with assms(2) show ?thesis by simp
  next
    case (call_lock i)
    then show ?thesis by (intro other [of i SLocked]) simp_all
  next
    case (call_refused i err c1)
    then have "c1 = c" by (auto simp: registerCall_def Let_def split: if_splits)
    with call_refused show ?thesis by (intro other [of i SWaiting]) (simp_all add: upd_call_def)
  next
    case (call_register i seq c1)
    with register_effect [OF call_register(3)] show ?thesis by (intro other [of i "SWrite seq"]) simp_all
  next
    case (call_write i seq k wire)
    then show ?thesis by (intro exI [of _ i] exI [of _ SWaiting]) simp
  next
    case (call_result i k)
    then show ?thesis by (intro other [of i "SReturned (rc_Error k)"]) simp_all
  next
    case (call_cancel i k r c1 e)
    then show ?thesis
      by (intro other [of i "SReturned (Some (''rpc client: call failed: '' @ e))"]) (simp_all add: removeCall_def, auto)
  qed
qed

lemma caller_weights_upd:
  assumes "finite {i. cl_pc c i \<noteq> Unused}" and "cl_pc d = (cl_pc c)(i := pc)" and "cl_pc c i \<noteq> Unused" and "pc \<noteq> Unused"
  shows "caller_weights d + pc_weight (cl_pc c i) = caller_weights c + pc_weight pc"
proof -
  let ?A = "{i. cl_pc c i \<noteq> Unused}"
  have "{j. cl_pc d j \<noteq> Unused} = ?A" using assms(2-4) by auto
  then have "caller_weights d = pc_weight pc + (\<Sum>j \<in> ?A - {i}. pc_weight (cl_pc d j))"
    unfolding caller_weights_def using assms by (simp add: sum.remove [of ?A i])
  moreover have "(\<Sum>j \<in> ?A - {i}. pc_weight (cl_pc d j)) = (\<Sum>j \<in> ?A - {i}. pc_weight (cl_pc c j))"
    by (rule sum.cong) (use assms(2) in auto)
  moreover have "caller_weights c = pc_weight (cl_pc c i) + (\<Sum>j \<in> ?A - {i}. pc_weight (cl_pc c j))"
    unfolding caller_weights_def using assms(1,3) by (simp add: sum.remove [of ?A i])
  ultimately show ?thesis by simp
qed

lemma sv_weight_input:
  "sv_weight (n\<lparr>sn_in := ms\<rparr>) + 20 * length (sn_in n) = sv_weight n + 20 * length ms"
proof -
  have "handler_weights (n\<lparr>sn_in := ms\<rparr>) = handler_weights n" by (rule handler_weights_same) simp_all
  then show ?thesis by (simp add: sv_weight_def)
qed

lemma sys_step_weight:
  assumes live: "live_inv E y" and step: "sys_step E y z" and old: "\<not> starts (sy_client y) (sy_client z)"
  shows "sys_weight z < sys_weight y"
proof -
  have inv: "sys_inv E y" and fin: "finite {i. cl_pc (sy_client y) i \<noteq> Unused}" using live by (simp_all add: live_inv_def)
  have caller: "caller_weights c < caller_weights (sy_client y) \<and>
      (writes (sy_client y) c \<longrightarrow> caller_weights c + 121 \<le> caller_weights (sy_client y)) \<and>
      cl_recv c = cl_recv (sy_client y) \<and> cl_closing c = cl_closing (sy_client y)"
    if new: "call_step (sy_client y) c" "\<not> starts (sy_client y) c" for c
  proof -
    obtain i pc where "cl_pc c = (cl_pc (sy_client y))(i := pc)" "cl_pc (sy_client y) i \<noteq> Unused" "pc \<noteq> Unused"
      and w: "pc_weight pc < pc_weight (cl_pc (sy_client y) i)"
        "writes (sy_client y) c \<longrightarrow> pc_weight pc + 121 \<le> pc_weight (cl_pc (sy_client y) i)"
      using caller_step [OF new] by blast
    with caller_weights_upd [OF fin] have "caller_weights c + pc_weight (cl_pc (sy_client y) i) = caller_weights (sy_client y) + pc_weight pc"
      by blast
    with w call_step_effect [OF new(1)] show ?thesis by auto
  qed
  have same: "caller_weights c = caller_weights (sy_client y)" if "cl_pc c = cl_pc (sy_client y)" for c :: "'a client"
    using that by (simp add: caller_weights_def)
  from step show ?thesis
  proof cases
    case (sys_call c)
    with caller [of c] old show ?thesis by (simp add: sys_weight_def unread_def)
  next
    case (sys_write c f n)
    have "length (frames [f]) = 2" by simp
    with sys_write caller [of c] old sv_weight_input [where n = n and ms = "sn_in n @ frames [f]"] show ?thesis
      by (simp add: sys_weight_def unread_def)
  next
    case (sys_write_fails c i seq h n m)
    have "writes (sy_client y) c" using sys_write_fails(4,5) by (auto simp: writes_def)
    moreover have "sv_weight (sy_server z) \<le> sv_weight (sy_server y) + 20"
      using sv_weight_input [where n = n and ms = "take m (sn_in n @ [MHeader h])"] sys_write_fails(1,8) by simp
    moreover have "sy_client z = c" "unread z = unread y" "\<not> sy_up z" by (simp_all add: sys_write_fails(1,8) unread_def)
    ultimately show ?thesis using caller [of c] old sys_write_fails(2,3) by (simp add: sys_weight_def)
  next
    case (sys_close c n m)
    then have "cl_closing c" by (auto simp: client_Close_def split: if_splits)
    moreover note close_effect [OF sys_close(3)]
    ultimately show ?thesis
      using sys_close same [of c] sv_weight_input [where n = n and ms = "take m (sn_in n)"]
      by (simp add: sys_weight_def unread_def)
  next
    case (sys_break n m)
    with sv_weight_input [where n = n and ms = "take m (sn_in n)"] show ?thesis by (simp add: sys_weight_def unread_def)
  next
    case (sys_server n)
    from server_step_effect(3,4) [OF sys_invD(3) [OF inv] sys_server(2)]
    obtain ms where "gc_out (sn_codec n) = gc_out (sn_codec (sy_server y)) @ ms" "length ms \<le> 2"
      "sv_weight n < sv_weight (sy_server y)" by blast
    then show ?thesis by (simp add: sys_weight_def unread_def sys_server(1))
  next
    case (sys_header res)
    have "unread y \<noteq> []" if "res = Inr h" for h
      using sys_header(3) that by (auto simp: header_read_def split: if_splits)
    then show ?thesis
      using same [of "receive_header res (sy_client y)"] sys_header(2) receive_pc(1)
      by (cases res) (auto simp: sys_weight_def unread_def sys_header(1) receive_header_def removeCall_def)
  next
    case (sys_body r h body)
    have "unread y \<noteq> []" if "body = Inr v" for v
      using sys_body(3) that by (auto simp: body_read_def split: if_splits)
    then show ?thesis
      using same [of "receive_body r h body (sy_client y)"] sys_body(2) receive_pc(2)
      by (cases body) (auto simp: sys_weight_def unread_def sys_body(1) receive_body_def upd_call_def split: option.splits)
  next
    case (sys_terminate e)
    then show ?thesis
      using same [of "(terminateCalls e (sy_client y))\<lparr>cl_recv := RStopped\<rparr>"] receive_pc(3)
      by (simp add: sys_weight_def unread_def terminateCalls_def)
  qed
qed

text \<open>
  The steps that the program owes: all but new calls, contexts that end, \<^verbatim>\<open>Close\<close> and losses of
  the connection.
\<close>

definition work_step :: "('a, 'b, 'r) rpc_env \<Rightarrow> ('a, 'b, 'r) rpc_sys \<Rightarrow> ('a, 'b, 'r) rpc_sys \<Rightarrow> bool" where
  "work_step E y z \<longleftrightarrow> sys_step E y z \<and> \<not> starts (sy_client y) (sy_client z) \<and> \<not> gives_up (sy_client y) (sy_client z) \<and>
     sy_up z = sy_up y \<and> cl_closing (sy_client z) = cl_closing (sy_client y)"

lemma caller_kind:
  assumes "cl_pc d = (cl_pc c)(i := pc)" and "cl_pc c i \<noteq> Unused"
    and "cl_pc c i = SWaiting \<Longrightarrow> \<exists>x. cl_calls c i = Some x \<and> 0 < rc_done x"
  shows "\<not> starts c d \<and> \<not> gives_up c d \<and> ((\<forall>s. cl_pc c i \<noteq> SWrite s) \<longrightarrow> \<not> writes c d)"
  using assms by (auto simp: starts_def gives_up_def writes_def split: if_splits)

lemma work_call:
  assumes "call_step (sy_client y) d" and "cl_pc d = (cl_pc (sy_client y))(i := pc)" and "cl_pc (sy_client y) i \<noteq> Unused"
    and "cl_pc (sy_client y) i = SWaiting \<Longrightarrow> \<exists>x. cl_calls (sy_client y) i = Some x \<and> 0 < rc_done x"
    and "sy_up y \<Longrightarrow> \<forall>s. cl_pc (sy_client y) i \<noteq> SWrite s"
  shows "\<exists>z. work_step E y z"
proof -
  note kind = caller_kind [OF assms(2-4)]
  have "sys_step E y (y\<lparr>sy_client := d\<rparr>)" using kind assms(5) by (intro sys_step.sys_call assms(1)) blast
  then have "work_step E y (y\<lparr>sy_client := d\<rparr>)"
    using kind call_step_effect(3) [OF assms(1)] by (simp add: work_step_def)
  then show ?thesis by blast
qed

lemma work_server: "server_step E (sy_up y) (sy_server y) n \<Longrightarrow> work_step E y (y\<lparr>sy_server := n\<rparr>)"
  by (auto simp: work_step_def starts_def gives_up_def intro: sys_step.sys_server)

lemma work_receive:
  "cl_recv (sy_client y) = RRead \<Longrightarrow> header_read y res \<Longrightarrow> \<exists>z. work_step E y z"
  "cl_recv (sy_client y) = RGot r h \<Longrightarrow> body_read (en_reply E) r h y body \<Longrightarrow> \<exists>z. work_step E y z"
  "cl_recv (sy_client y) = RTerminate e \<Longrightarrow> cl_sending (sy_client y) = None \<Longrightarrow> \<exists>z. work_step E y z"
proof -
  have closing: "cl_closing (receive_header res c) = cl_closing c" "cl_closing (receive_body r h body c) = cl_closing c"
    for res r h body and c :: "'x client"
    by (simp_all add: receive_header_def removeCall_def receive_body_def upd_call_def split: sum.split option.split)
  have still: "\<not> starts c d" "\<not> gives_up c d" if "cl_pc d = cl_pc c" for c d :: "'a client"
    using that by (simp_all add: starts_def gives_up_def)
  note kind = work_step_def receive_pc closing still
  show "cl_recv (sy_client y) = RRead \<Longrightarrow> header_read y res \<Longrightarrow> \<exists>z. work_step E y z"
    by (rule exI, unfold work_step_def, rule conjI, erule (1) sys_step.sys_header) (simp add: kind)
  show "cl_recv (sy_client y) = RGot r h \<Longrightarrow> body_read (en_reply E) r h y body \<Longrightarrow> \<exists>z. work_step E y z"
    by (rule exI, unfold work_step_def, rule conjI, erule (1) sys_step.sys_body) (simp add: kind)
  show "cl_recv (sy_client y) = RTerminate e \<Longrightarrow> cl_sending (sy_client y) = None \<Longrightarrow> \<exists>z. work_step E y z"
    by (rule exI, unfold work_step_def, rule conjI, erule (1) sys_step.sys_terminate) (simp add: kind terminateCalls_def)
qed

subsubsection \<open>The server at rest\<close>

text \<open>A server whose steps are all waits has answered everything and waits for a request, or has closed.\<close>

lemma server_at_rest:
  assumes inv: "sv_inv (en_timeout E) (en_dur E) n" and ptrs: "replies_are_pointers (en_services E)"
    and meth: "\<And>r. r \<in> set (sn_reqs n) \<Longrightarrow> \<exists>res. en_meth E r res" and closed: "sn_loop n = LClosed \<longrightarrow> \<not> gc_open (sn_codec n)"
    and open_: "gc_open (sn_codec n)" and none: "\<nexists>n'. server_step E True n n'"
  shows "sn_loop n = LRead \<and> sn_in n = [] \<and> all_handled n"
proof -
  have quiet: "server_step E True n n'"
    if "sv_step (en_services E) (en_dec E) (en_enc E) (en_timeout E) (en_dur E) n n'"
      "\<And>i res. sn_worker n i = WCall \<Longrightarrow> sn_worker n' i = WCalled res \<Longrightarrow> en_meth E (sn_reqs n ! i) res"
      "sn_loop n = LRead \<Longrightarrow> sn_in n = [] \<Longrightarrow> sn_loop n' = LRead" for n'
    unfolding server_step_def using that by blast
  have send: "\<nexists>n'. send_step (en_enc E) n n'"
  proof
    assume "\<exists>n'. send_step (en_enc E) n n'"
    then obtain n' where s: "send_step (en_enc E) n n'" by blast
    then have "server_step E True n n'"
    proof (intro quiet)
      show "sv_step (en_services E) (en_dec E) (en_enc E) (en_timeout E) (en_dur E) n n'" using s by (simp add: sv_step_def)
      show "sn_worker n i = WCall \<Longrightarrow> sn_worker n' i = WCalled res \<Longrightarrow> en_meth E (sn_reqs n ! i) res" for i res
        using s
      proof cases
        case (send_body x h b)
        then show "sn_worker n i = WCall \<Longrightarrow> sn_worker n' i = WCalled res \<Longrightarrow> en_meth E (sn_reqs n ! i) res"
          by (cases x) (auto split: if_splits)
      qed simp_all
      show "sn_loop n = LRead \<Longrightarrow> sn_loop n' = LRead" using s
      proof cases
        case (send_body x h b)
        then show "sn_loop n = LRead \<Longrightarrow> sn_loop n' = LRead" by (cases x) auto
      qed simp_all
    qed
    with none show False by blast
  qed
  have handle: "\<exists>j. sn_worker n j = WCall \<and> sn_worker n' j \<noteq> WCall" if h: "handle_step (en_timeout E) (en_dur E) n n'" for n'
  proof (rule ccontr)
    assume "\<nexists>j. sn_worker n j = WCall \<and> sn_worker n' j \<noteq> WCall"
    then have "server_step E True n n'"
      using h by (intro quiet) (auto simp: sv_step_def elim: handle_step.cases)
    with none show False by blast
  qed
  have returned: "sn_worker n i \<noteq> WCall" for i
  proof
    assume w: "sn_worker n i = WCall"
    then have "i < length (sn_reqs n)" using handlers_at [of _ _ n i] inv by (auto simp: sv_inv_def)
    then obtain res where res: "en_meth E (sn_reqs n ! i) res" using meth nth_mem by blast
    have "server_step E True n (n\<lparr>sn_worker := (sn_worker n)(i := WCalled res)\<rparr>)"
      using handle_return [OF w, of "en_timeout E" "en_dur E" res] res
      by (intro quiet) (auto simp: sv_step_def split: if_splits)
    with none show False by blast
  qed
  have handlers: "handlers_inv (en_timeout E) (en_dur E) n" using inv by (simp add: sv_inv_def)
  have handled: "all_handled n"
    unfolding all_handled_def by (intro allI impI handler_at_end [OF handlers _ returned handle send])
  have free: "sn_sending n = None" using sending_steps send by blast
  have "sn_loop n \<noteq> LReply h" for h using send send_lock [OF free, of LoopSender h None] by auto
  moreover have "sn_loop n \<noteq> LWait"
  proof
    assume w: "sn_loop n = LWait"
    then have "loop_step (en_services E) (en_dec E) n (n\<lparr>sn_loop := LClosed, sn_codec := gob_Close (sn_codec n)\<rparr>)"
      using handled by (intro loop_close) (auto simp: all_handled_def)
    then have "server_step E True n (n\<lparr>sn_loop := LClosed, sn_codec := gob_Close (sn_codec n)\<rparr>)"
      using w by (intro quiet) (auto simp: sv_step_def)
    with none show False by blast
  qed
  ultimately have l: "sn_loop n = LRead" using closed open_ by (cases "sn_loop n") auto
  have "sn_in n = []"
  proof (rule ccontr)
    assume some: "sn_in n \<noteq> []"
    obtain x rest where r: "readRequest (en_services E) (en_dec E) (sn_in n) = (Ret x, rest)"
      using readRequest_returns [OF ptrs] by blast
    have "\<exists>n'. loop_step (en_services E) (en_dec E) n n'"
      using l r by (cases x) (blast intro: loop_request loop_bad loop_end)+
    then obtain n' where s: "loop_step (en_services E) (en_dec E) n n'" by blast
    then have "server_step E True n n'"
      using some by (intro quiet) (auto simp: sv_step_def elim: loop_step.cases split: if_splits)
    with none show False by blast
  qed
  with l handled show ?thesis by simp
qed

text \<open>What was read has a response then, under its number.\<close>

lemma response_at_rest:
  assumes inv: "sv_inv timeout dur n" and rest: "sn_loop n = LRead" "all_handled n"
    and h0: "h0 \<in> rq_h ` set (sn_reqs n) \<or> h0 \<in> fst ` set (sn_bad n)"
  shows "\<exists>h b. (h, b) \<in> snd ` set (sn_sent n) \<and> h_Seq h = h_Seq h0"
proof -
  have sent: "(h, b) \<in> snd ` set (sn_sent n)" if "(h, b) \<in> set (responses n i)" for h b i
    using that by (auto simp: responses_def)
  show ?thesis
  proof (cases "h0 \<in> rq_h ` set (sn_reqs n)")
    case True
    then obtain i where i: "i < length (sn_reqs n)" "h0 = rq_h (sn_reqs n ! i)" by (auto simp: in_set_conv_nth)
    then have "handler_ok timeout dur (rq_h (sn_reqs n ! i)) (sn_main n i) (sn_worker n i) (responses n (Some i))"
      using inv by (simp add: sv_inv_def handlers_inv_def)
    then have "responses n (Some i) \<noteq> []" using rest(2) i(1) by (auto simp: all_handled_def)
    then obtain h b where "(h, b) \<in> set (responses n (Some i))" by (cases "responses n (Some i)") auto
    with response_header(1) [OF inv i(1) this] i(2) sent show ?thesis by blast
  next
    case False
    with h0 obtain e where e: "(h0, e) \<in> set (sn_bad n)" by auto
    have "responses n None = map (\<lambda>(h, err). (h\<lparr>h_Err := err\<rparr>, None)) (sn_bad n)"
      using inv rest(1) by (simp add: sv_inv_def loop_inv_def)
    then have "(h0\<lparr>h_Err := e\<rparr>, None) \<in> set (responses n None)" using e by force
    from sent [OF this] show ?thesis by (intro exI [of _ "h0\<lparr>h_Err := e\<rparr>"] exI [of _ None]) simp
  qed
qed

subsubsection \<open>The client at rest\<close>

lemma sending_at_rest:
  assumes inv: "cl_inv (sy_client y)" and few: "few_calls (sy_client y)" and none: "\<nexists>z. work_step E y z"
  shows "cl_sending (sy_client y) = None"
proof (rule ccontr)
  let ?c = "sy_client y"
  assume "cl_sending ?c \<noteq> None"
  then obtain i where i: "cl_sending ?c = Some i" by blast
  then have pc: "cl_pc ?c i = SLocked \<or> (\<exists>s. cl_pc ?c i = SWrite s)"
    using inv_unfold [OF inv few] unfolding locks_ok_def by blast
  then obtain x where x: "cl_calls ?c i = Some x" using inv_call [OF inv few, of i] by force
  show False
  proof (cases "cl_pc ?c i = SLocked")
    case True
    obtain r c1 where r: "registerCall i ?c = (r, c1)" by fastforce
    show False
    proof (cases r)
      case (Inl e)
      with r have "c1 = ?c" by (auto simp: registerCall_def Let_def split: if_splits)
      with work_call [OF call_refused [OF True r [unfolded Inl]], of i SWaiting] True none show False
        by (simp add: upd_call_def)
    next
      case (Inr s)
      with register_effect(4) [OF r [unfolded Inr]] work_call [OF call_register [OF True r [unfolded Inr]], of i "SWrite s"] True none
      show False by simp
    qed
  next
    case False
    then obtain s where s: "cl_pc ?c i = SWrite s" using pc by blast
    let ?d = "?c\<lparr>cl_wire := cl_wire ?c @ [(request_header i s ?c, rc_Args x)], cl_sending := None, cl_pc := (cl_pc ?c)(i := SWaiting)\<rparr>"
    have step: "call_step ?c ?d" by (rule call_write [OF s x]) simp
    note kind = caller_kind [of ?d ?c i SWaiting]
    have writes: "writes ?c ?d" unfolding writes_def by (intro exI [of _ i] exI [of _ s]) (simp add: s)
    have "\<exists>z. sys_step E y z \<and> sy_client z = ?d \<and> sy_up z = sy_up y"
    proof (cases "sy_up y")
      case True
      from sys_step.sys_write [OF this step writes, of "(request_header i s ?c, rc_Args x)" _ E] show ?thesis by fastforce
    next
      case False
      with sys_step.sys_call [OF step, of E] show ?thesis by fastforce
    qed
    then show False using none kind s by (fastforce simp: work_step_def)
  qed
qed

lemma client_at_rest:
  assumes live: "live_inv E y" and few: "few_calls (sy_client y)" and ptrs: "replies_are_pointers (en_services E)"
    and meth: "\<And>r. readable E r \<Longrightarrow> \<exists>res. en_meth E r res" and none: "\<nexists>z. work_step E y z" and wait: "cl_pc (sy_client y) i = SWaiting"
  shows False
proof -
  let ?c = "sy_client y" and ?n = "sy_server y" and ?out = "gc_out (sn_codec (sy_server y))"
  have inv: "sys_inv E y" using live by (simp add: live_inv_def)
  note parts = sys_invD [OF inv]
  have free: "cl_sending ?c = None" by (rule sending_at_rest [OF parts(2) few none])
  obtain x where x: "cl_calls ?c i = Some x" "call_state_ok ?c i x"
    using inv_call [OF parts(2) few, of i] wait by auto
  have done0: "rc_done x = 0"
  proof (rule ccontr)
    assume "rc_done x \<noteq> 0"
    then show False
      using work_call [OF call_result [OF wait x(1)], of i "SReturned (rc_Error x)"] none wait x(1) by simp
  qed
  have recv: "cl_recv ?c = RRead \<or> (\<exists>r h. cl_recv ?c = RGot r h)"
    and pend: "cl_recv ?c = RRead \<Longrightarrow> cl_pending ?c (rc_Seq x) = Some i"
    using x(2) done0 wait work_receive(3) [of y _ E] none free by (cases "cl_recv ?c"; auto simp: call_state_ok_def)+
  have up: "sy_up y"
  proof (rule ccontr)
    assume down: "\<not> sy_up y"
    have "header_read y (Inl e)" "body_read (en_reply E) r h y (Inl e)" for e r h
      using down by (simp_all add: header_read_def body_read_def)
    with recv work_receive(1,2) none show False by metis
  qed
  have cannot: "\<not> can_read y"
  proof
    assume can: "can_read y"
    have "header_read y (fst (gob_ReadHeader (unread y)))" using up can by (simp add: header_read_def)
    moreover have "\<exists>body. body_read (en_reply E) r h y body" for r h
      using up can by (cases "fst (gob_ReadBody (\<lambda>_. Inr ()) (unread y))") (auto simp: body_read_def)
    ultimately show False using recv work_receive(1,2) none by metis
  qed
  then have unread: "unread y = []" and open_: "gc_open (sn_codec ?n)" by (simp_all add: can_read_def)
  have "\<nexists>n. server_step E True ?n n" using work_server [of E y] up none by auto
  moreover have "readable E r" if "r \<in> set (sn_reqs ?n)" for r
    using that parts(5) by (simp add: served_inv_def request_of_def)
  ultimately have rest: "sn_loop ?n = LRead" "sn_in ?n = []" "all_handled ?n"
    using server_at_rest [OF parts(4) ptrs meth _ open_] live by (simp_all add: live_inv_def)
  have out: "?out = frames (map snd (sn_sent ?n))" using parts(8) open_ by (simp add: output_inv_def)
  have rd: "cl_recv ?c = RRead"
  proof (rule ccontr)
    assume "cl_recv ?c \<noteq> RRead"
    then obtain q h ms where q: "sy_read y = Suc (2 * q)" "drop (2 * q) ?out = MHeader h # ms"
      using recv parts(6) by (auto simp: position_ok_def)
    then have "ms \<noteq> []" using drop_frames [of q "map snd (sn_sent ?n)"] unfolding out
      by (cases "drop q (map snd (sn_sent ?n))" rule: frames.cases) auto
    moreover have "drop (Suc (2 * q)) ?out = tl (drop (2 * q) ?out)" by (simp add: drop_Suc tl_drop)
    ultimately show False using unread q by (simp add: unread_def)
  qed
  have live': "waiting_ok ?c" "removed_ok y" using live few up by (simp_all add: live_inv_def)
  obtain h0 where h0: "h0 \<in> fst ` set (cl_wire ?c)" "h_Seq h0 = rc_Seq x"
    using live'(1) wait x(1) pend [OF rd] unfolding waiting_ok_def by blast
  have "reading ?n" by (simp add: reading_def rest(1))
  then have "h0 \<in> rq_h ` set (sn_reqs ?n) \<or> h0 \<in> fst ` set (sn_bad ?n)"
    using parts(5) up h0(1) rest(2) by (auto simp: served_inv_def)
  from response_at_rest [OF parts(4) rest(1,3) this] h0(2)
  obtain h b where h: "(h, b) \<in> snd ` set (sn_sent ?n)" "h_Seq h = rc_Seq x" by auto
  have "MHeader h \<in> set ?out" unfolding out by (rule header_in_frames [of h b]) (use h(1) in simp)
  moreover have "take (sy_read y) ?out = ?out" using unread by (simp add: unread_def)
  ultimately have "cl_pending ?c (h_Seq h) = None" using live'(2) open_ rd by (simp add: removed_ok_def)
  with pend [OF rd] h(2) show False by simp
qed

lemma old_steps_weight: "(old_step E ^^ k) y z \<Longrightarrow> live_inv E y \<Longrightarrow> k + sys_weight z \<le> sys_weight y \<and> live_inv E z"
proof (induction k arbitrary: z)
  case 0
  then show ?case by simp
next
  case (Suc k)
  then obtain m where m0: "(old_step E ^^ k) y m" "old_step E m z" by auto
  then have m: "(old_step E ^^ k) y m" "sys_step E m z" "\<not> starts (sy_client m) (sy_client z)"
    unfolding old_step_def by blast+
  with Suc.IH [OF m(1) Suc.prems(2)] sys_step_weight [OF _ m(2,3)] live_step [OF _ m(2)] show ?case by fastforce
qed

lemma all_returned:
  assumes live: "live_inv E z" and few: "few_calls (sy_client z)" and "replies_are_pointers (en_services E)"
    and "\<And>r. readable E r \<Longrightarrow> \<exists>res. en_meth E r res" and none: "\<nexists>z'. work_step E z z'"
  shows "cl_pc (sy_client z) i = Unused \<or> (\<exists>e. cl_pc (sy_client z) i = SReturned e)"
proof -
  have inv: "cl_inv (sy_client z)" using live sys_invD(2) by (auto simp: live_inv_def)
  have free: "cl_sending (sy_client z) = None" by (rule sending_at_rest [OF inv few none])
  then have "cl_pc (sy_client z) i \<noteq> SLocked \<and> (\<forall>s. cl_pc (sy_client z) i \<noteq> SWrite s)"
    using inv_unfold [OF inv few] unfolding locks_ok_def by (metis option.distinct(1))
  moreover have "cl_pc (sy_client z) i \<noteq> SStart"
    using work_call [OF call_lock [OF _ free], of i i SLocked E] none by auto
  moreover have "cl_pc (sy_client z) i \<noteq> SWaiting"
    using client_at_rest [OF live few assms(3,4) none] by blast
  ultimately show ?thesis by (cases "cl_pc (sy_client z) i") auto
qed


text \<open>After the one call of \<open>one_returned\<close> both sides wait.\<close>

lemma one_returned_rests: "\<not> work_step sum_env (one_returned r a v w) z"
proof
  let ?y = "one_returned r a v w :: (nat, nat, nat) rpc_sys"
  assume work: "work_step sum_env ?y z"
  then have step: "sys_step sum_env ?y z" by (simp add: work_step_def)
  have pcs: "cl_pc (sy_client ?y) i = (if i = 0 then SReturned None else Unused)" for i
    by (simp add: one_returned_def one_client_def)
  have no_call: False if "call_step (sy_client ?y) c" "\<not> starts (sy_client ?y) c" for c
    using that(1)
  proof cases
    case (call_go i k m a)
    then have "starts (sy_client ?y) c" unfolding starts_def by (intro exI [of _ i]) simp
    with that(2) show False by simp
  qed (simp_all add: pcs split: if_splits)
  have "gc_open (sn_codec (sy_server ?y))" "unread ?y = []"
    by (simp_all add: one_returned_def one_answered_def one_state_def one_out_def unread_def)
  then have no_read: "\<not> can_read ?y" by (simp add: can_read_def)
  from step show False
  proof cases
    case (sys_server n)
    then show False
      by (auto simp: server_step_def sv_step_def one_returned_def one_answered_def one_state_def one_out_def readRequest_def
          elim!: sv_stepE elim: in_sendResponseE split: if_splits)
  qed (use work no_call no_read in
    \<open>auto simp: work_step_def header_read_def one_returned_def one_client_def body_read_def client_Close_def\<close>)
qed


end
