(* ===== verification/Demo_CCache.thy ===== *)
theory Demo_CCache
  imports CCache_HTTP
begin

section \<open>The demo program: a node of the cache\<close>

text \<open>
  The first half of \<^verbatim>\<open>main.go\<close>: the group over a small database, the handler of the front-end
  and the pool of the three nodes, composed as \<^verbatim>\<open>ccacheRun\<close> composes them. The group, which
  the code shares by a pointer, is the entry \<open>''source''\<close> of the registered groups. Requests
  come one at a time; a panic of a handler is recovered by package \<^verbatim>\<open>net/http\<close>. What the
  network answers, \<^verbatim>\<open>proto.Marshal\<close> and \<^verbatim>\<open>proto.Unmarshal\<close> are parameters.
\<close>

subsection \<open>Query strings\<close>

text \<open>\<^verbatim>\<open>url.QueryUnescape\<close>; \<open>None\<close> is an invalid escape.\<close>

fun query_unescape :: "string \<Rightarrow> string option" where
  "query_unescape [] = Some []"
| "query_unescape (c # s) =
     (if c = CHR ''%'' then
        (case s of
           a # b # t \<Rightarrow>
             (case (unhex a, unhex b) of
                (Some x, Some y) \<Rightarrow> map_option (\<lambda>r. char_of (16 * x + y) # r) (query_unescape t)
              | _ \<Rightarrow> None)
         | _ \<Rightarrow> None)
      else map_option (\<lambda>r. (if c = CHR ''+'' then CHR '' '' else c) # r) (query_unescape s))"

text \<open>
  \<^verbatim>\<open>r.URL.Query()\<close> as the list of its settings in order: settings that are empty, have a
  semicolon or cannot be unescaped are skipped. \<^verbatim>\<open>Get\<close> returns the first value of a key.
\<close>

definition query_setting :: "string \<Rightarrow> (string \<times> string) option" where
  "query_setting part =
     (if part = '''' \<or> CHR '';'' \<in> set part then None
      else
        (case splitN2 (CHR ''='') part of
           [key, value] \<Rightarrow>
             (case (query_unescape key, query_unescape value) of (Some k, Some v) \<Rightarrow> Some (k, v) | _ \<Rightarrow> None)
         | _ \<Rightarrow> map_option (\<lambda>k. (k, '''')) (query_unescape part)))"

definition query_Get :: "string \<Rightarrow> string \<Rightarrow> string" where
  "query_Get key raw =
     (case map_of (List.map_filter query_setting (split_byte (CHR ''&'') raw)) key of
        None \<Rightarrow> '''' | Some v \<Rightarrow> v)"

subsection \<open>The group and its database\<close>

definition db :: "string \<rightharpoonup> string" where
  "db = [''A'' \<mapsto> ''A'', ''B'' \<mapsto> ''B'', ''C'' \<mapsto> ''C'']"

definition source_getter :: "string \<Rightarrow> 'w \<Rightarrow> (goerror + string) \<times> 'w" where
  "source_getter key w =
     (case db key of
        Some v \<Rightarrow> (Inr v, w)
      | None \<Rightarrow> (Inr (key @ '' not exists '' @ [CHR 0x0A]), w))"

definition createGroup :: "'w groups \<Rightarrow> ('w group \<times> 'w groups) outcome" where
  "createGroup gs = NewGroup ''source'' (push_bit 10 2) (Some (GetterFunc_Get source_getter)) gs"

subsection \<open>The front-end\<close>

text \<open>The handler of \<^verbatim>\<open>/api\<close>, on the query string of a request.\<close>

definition api_handler ::
  "(pb_Response option \<Rightarrow> goerror + string) \<Rightarrow> string \<Rightarrow> 'w group \<Rightarrow> 'w \<Rightarrow>
   response_writer outcome \<times> 'w group \<times> 'w" where
  "api_handler marshal rawquery g w =
     (case group_Get marshal (query_Get ''key'' rawquery) g w of
        (Ret (Inl err), g1, w1) \<Rightarrow> (Ret (http_Error err 500 rw_new), g1, w1)
      | (Ret (Inr value), g1, w1) \<Rightarrow>
          (Ret (rw_Write value (rw_Set ''Content-Type'' ''application/octet-stream'' rw_new)), g1, w1)
      | (Panic m, g1, w1) \<Rightarrow> (Panic m, g1, w1)
      | (Exit m, g1, w1) \<Rightarrow> (Exit m, g1, w1)
      | (Hang, g1, w1) \<Rightarrow> (Hang, g1, w1))"

text \<open>
  \<^verbatim>\<open>startAPIServer\<close> registers the handler and serves; \<open>serve_err\<close> is what \<^verbatim>\<open>ListenAndServe\<close> returns, if
  it does.
\<close>

definition startAPIServer :: "'h \<Rightarrow> goerror option \<Rightarrow> ('h mux, unit) stm" where
  "startAPIServer handler serve_err =
     stm_bind (http_Handle ''/api'' handler) (\<lambda>_.
       stm_lift (case serve_err of Some err \<Rightarrow> Exit err | None \<Rightarrow> Hang))"

subsection \<open>A node\<close>

definition peerList :: "int \<rightharpoonup> string" where
  "peerList = [8001 \<mapsto> ''localhost:8081'', 8002 \<mapsto> ''localhost:8082'', 8003 \<mapsto> ''localhost:8083'']"

definition peer_at :: "int \<Rightarrow> string" where
  "peer_at port = (case peerList port of None \<Rightarrow> '''' | Some addr \<Rightarrow> addr)"

lemma ran_peerList: "ran peerList = {''localhost:8081'', ''localhost:8082'', ''localhost:8083''}"
  by (auto simp: peerList_def)

text \<open>
  \<^verbatim>\<open>ccacheRun\<close> up to the point where it serves requests: the pool and the groups. \<open>addrs\<close> are
  the addresses in the order in which the map is visited.
\<close>

definition ccache_pool :: "int \<Rightarrow> string list \<Rightarrow> http_pool" where
  "ccache_pool port addrs = pool_Set addrs (NewHTTPPoolWithOpts (peer_at port) 0)"

definition ccacheRun ::
  "(string \<Rightarrow> 'w \<Rightarrow> (goerror + http_answer) \<times> 'w) \<Rightarrow>
   (string \<Rightarrow> pb_Response option \<Rightarrow> goerror option outcome) \<Rightarrow> int \<Rightarrow> string list \<Rightarrow>
   'w groups \<Rightarrow> (http_pool \<times> 'w groups) outcome" where
  "ccacheRun http_get unmarshal port addrs gs =
     bind_outcome (createGroup gs) (\<lambda>(grp, gs1).
       (let peers = ccache_pool port addrs
        in bind_outcome (RegisterPeers (pool_picker http_get unmarshal peers) grp) (\<lambda>g.
             Ret (peers, gs1(''source'' \<mapsto> g)))))"

text \<open>A node that serves: requests to the front-end and requests of other nodes.\<close>

datatype demo_request = ApiRequest string | PeerRequest string

definition node_serve ::
  "(pb_Response option \<Rightarrow> goerror + string) \<Rightarrow> http_pool \<Rightarrow> demo_request \<Rightarrow> 'w groups \<Rightarrow> 'w \<Rightarrow>
   response_writer outcome \<times> 'w groups \<times> 'w" where
  "node_serve marshal peers r gs w =
     (case r of
        PeerRequest path \<Rightarrow> pool_ServeHTTP marshal peers path gs w
      | ApiRequest rawquery \<Rightarrow>
          (case gs ''source'' of
             None \<Rightarrow> (Panic ''nil pointer dereference'', gs, w)
           | Some grp \<Rightarrow>
               (case api_handler marshal rawquery grp w of
                  (out, g1, w1) \<Rightarrow> (out, gs(''source'' \<mapsto> g1), w1))))"

fun node_run ::
  "(pb_Response option \<Rightarrow> goerror + string) \<Rightarrow> http_pool \<Rightarrow> demo_request list \<Rightarrow> 'w groups \<Rightarrow> 'w \<Rightarrow> 'w groups \<times> 'w" where
  "node_run marshal peers [] gs w = (gs, w)"
| "node_run marshal peers (r # rs) gs w =
     (case node_serve marshal peers r gs w of (out, gs1, w1) \<Rightarrow> node_run marshal peers rs gs1 w1)"

subsection \<open>Decoding of escaped keys\<close>

lemma query_unescape_char:
  "query_unescape (escape_char c @ s) = map_option (\<lambda>r. c # r) (query_unescape s)"
proof -
  consider "is_unreserved c" | "\<not> is_unreserved c" "c = CHR '' ''"
    | "\<not> is_unreserved c" "c \<noteq> CHR '' ''" by blast
  then show ?thesis
  proof cases
    case 1
    then have "c \<noteq> CHR ''%''" "c \<noteq> CHR ''+''" by (auto simp: is_unreserved_def)
    with 1 show ?thesis by (simp add: escape_char_def)
  next
    case 2
    then show ?thesis by (simp add: escape_char_def)
  next
    case 3
    then obtain a b x y where "escape_char c = [CHR ''%'', a, b]" "unhex a = Some x" "unhex b = Some y"
      "char_of (16 * x + y) = c" by (rule escape_char_digits)
    then show ?thesis by simp
  qed
qed

lemma query_unescape_QueryEscape: "query_unescape (QueryEscape s) = Some s"
proof (induction s)
  case Nil
  then show ?case by (simp add: QueryEscape_def)
next
  case (Cons c s)
  have "QueryEscape (c # s) = escape_char c @ QueryEscape s" by (simp add: QueryEscape_def)
  with Cons show ?case by (simp add: query_unescape_char)
qed

lemma hex_digit_plain: "n < 16 \<Longrightarrow> hex_digit n \<notin> {CHR ''&'', CHR '';'', CHR ''=''}"
proof -
  have "\<forall>n \<in> set [0..<16]. hex_digit n \<notin> {CHR ''&'', CHR '';'', CHR ''=''}" by code_simp
  then show "n < 16 \<Longrightarrow> hex_digit n \<notin> {CHR ''&'', CHR '';'', CHR ''=''}" by simp
qed

lemma escape_char_plain: "x \<in> set (escape_char c) \<Longrightarrow> x \<notin> {CHR ''&'', CHR '';'', CHR ''=''}"
proof -
  assume x: "x \<in> set (escape_char c)"
  consider "is_unreserved c" | "\<not> is_unreserved c" "c = CHR '' ''"
    | "\<not> is_unreserved c" "c \<noteq> CHR '' ''" by blast
  then show ?thesis
  proof cases
    case 1
    with x show ?thesis by (auto simp: escape_char_def is_unreserved_def)
  next
    case 2
    with x show ?thesis by (auto simp: escape_char_def)
  next
    case 3
    then obtain a b p q where "escape_char c = [CHR ''%'', a, b]" "p < 16" "q < 16"
      "a = hex_digit p" "b = hex_digit q" by (rule escape_char_digits)
    with x hex_digit_plain [of p] hex_digit_plain [of q] show ?thesis by auto
  qed
qed

lemma QueryEscape_plain: "x \<in> {CHR ''&'', CHR '';'', CHR ''=''} \<Longrightarrow> x \<notin> set (QueryEscape s)"
  using escape_char_plain by (auto simp: QueryEscape_def)

lemma split_byte_none: "c \<notin> set s \<Longrightarrow> split_byte c s = [s]"
  by (induction s) auto

text \<open>The front-end decodes the key that a client has escaped, whatever its bytes.\<close>

lemma query_Get_escaped: "query_Get ''key'' (''key='' @ QueryEscape k) = k"
proof -
  have plain: "CHR ''&'' \<notin> set (''key='' @ QueryEscape k)" "CHR '';'' \<notin> set (''key='' @ QueryEscape k)"
    using QueryEscape_plain [of _ k] by auto
  have "splitN2 (CHR ''='') (''key'' @ CHR ''='' # QueryEscape k) = [''key'', QueryEscape k]"
    by (rule splitN2_first) simp
  moreover have "query_unescape ''key'' = Some ''key''" by simp
  ultimately have "query_setting (''key='' @ QueryEscape k) = Some (''key'', k)"
    using plain(2) by (simp add: query_setting_def query_unescape_QueryEscape)
  then show ?thesis
    unfolding query_Get_def split_byte_none [OF plain(1)] by (simp add: List.map_filter_simps)
qed

subsection \<open>The invariant of a node\<close>

definition node_answer :: "string \<Rightarrow> string" where
  "node_answer k = (case db k of Some v \<Rightarrow> v | None \<Rightarrow> k @ '' not exists '' @ [CHR 0x0A])"

lemma source_getter_answer: "GetterFunc_Get source_getter k w = (Inr (node_answer k), w)"
  by (simp add: GetterFunc_Get_def source_getter_def node_answer_def split: option.split)

text \<open>The group caches answers to keys of this node only, and no key is being loaded.\<close>

definition own_group ::
  "(string \<Rightarrow> 'w \<Rightarrow> (goerror + http_answer) \<times> 'w) \<Rightarrow>
   (string \<Rightarrow> pb_Response option \<Rightarrow> goerror option outcome) \<Rightarrow> http_pool \<Rightarrow> 'w group \<Rightarrow> bool" where
  "own_group http_get unmarshal p g \<longleftrightarrow>
     cache_all (\<lambda>k v. v = node_answer k \<and> pool_PickPeer k p = None) (mainCache g) \<and>
     0 \<le> sint (cacheBytes (mainCache g)) \<and> loading g = {} \<and>
     g_getter g = GetterFunc_Get source_getter \<and> g_peers g = Some (pool_picker http_get unmarshal p)"

text \<open>
  The addresses of the demo have no scheme, so that package \<^verbatim>\<open>net/http\<close> takes \<^verbatim>\<open>localhost\<close> for
  one and refuses the request.
\<close>

definition no_localhost_scheme :: "(string \<Rightarrow> 'w \<Rightarrow> (goerror + http_answer) \<times> 'w) \<Rightarrow> bool" where
  "no_localhost_scheme http_get \<longleftrightarrow>
     (\<forall>url w. hasPrefix url ''localhost:'' \<longrightarrow> (\<exists>e. http_get url w = (Inl e, w)))"

lemma pool_pick_url:
  assumes "set addrs = ran peerList" and "pool_PickPeer k (ccache_pool port addrs) = Some u"
  shows "\<exists>url. u = Some url \<and> hasPrefix url ''localhost:''"
proof -
  let ?owner = "ring_Get (ring_Add addrs (ring_NewMap (opt_replicas (NewHTTPPoolWithOpts (peer_at port) 0)) None)) k"
  have u: "u = Some (?owner @ basePath (NewHTTPPoolWithOpts (peer_at port) 0))" and ne: "?owner \<noteq> ''''"
    using assms(2) by (auto simp: ccache_pool_def PickPeer_Set Let_def split: if_splits)
  have "?owner \<in> set addrs" by (rule ring.pick_member [OF ne])
  then have "?owner \<in> {''localhost:8081'', ''localhost:8082'', ''localhost:8083''}"
    using assms(1) ran_peerList by simp
  then have "\<exists>t. ?owner = ''localhost:'' @ t" by auto
  then show ?thesis unfolding u hasPrefix_iff by auto
qed

lemma group_Get_own:
  assumes own: "own_group http_get unmarshal p g" and p: "p = ccache_pool port addrs"
    and addrs: "set addrs = ran peerList" and net: "no_localhost_scheme http_get"
  shows "\<exists>r g'. group_Get marshal k g w = (Ret r, g', w) \<and> own_group http_get unmarshal p g' \<and>
    (if pool_PickPeer k p = None then r = Inr (node_answer k) else \<exists>e. r = Inl e)"
proof (cases "cache_lookup (mainCache g) k")
  case (Some v)
  have ok: "cache_ok (mainCache g)" and v: "v = node_answer k" "pool_PickPeer k p = None" and load: "k \<notin> loading g"
    using own Some by (auto simp: own_group_def cache_all_def)
  obtain c where c: "cache_get k (mainCache g) = (Some v, c)" "cache_lookup c = cache_lookup (mainCache g)" "cache_ok c"
    using cache_get_found [OF ok Some] by blast
  have "cacheBytes c = cacheBytes (mainCache g)" using guarded.get_limit [OF ok, of k] c(1) by simp
  moreover have "group_Get marshal k g w = (Ret (Inr v), g\<lparr>mainCache := c\<rparr>, w)"
    using load c(1) by (simp add: group_Get_def group_lookup_def)
  ultimately show ?thesis using own c v by (simp add: own_group_def cache_all_def)
next
  case None
  have ok: "cache_ok (mainCache g)" and load: "k \<notin> loading g"
    and peers: "g_peers g = Some (pool_picker http_get unmarshal p)"
    using own by (auto simp: own_group_def cache_all_def)
  show ?thesis
  proof (cases "pool_PickPeer k p")
    case pick: None
    have "cache_add k (node_answer k) (mainCache g) \<noteq> None"
      by (rule guarded.add_returns [OF ok]) (use own in \<open>simp add: own_group_def\<close>)
    then obtain c where c: "cache_add k (node_answer k) (mainCache g) = Some c" by blast
    have getter: "g_getter g k w = (Inr (node_answer k), w)"
      using own source_getter_answer by (simp add: own_group_def)
    have "group_Get marshal k g w = (Ret (Inr (node_answer k)), g\<lparr>mainCache := c\<rparr>, w)"
      by (rule group_Get_local_miss [OF ok None load peers _ getter c]) (simp add: pool_picker_def pick)
    moreover have "own_group http_get unmarshal p (g\<lparr>mainCache := c\<rparr>)"
      using own pick cache_all_add [OF _ c, of "\<lambda>k v. v = node_answer k \<and> pool_PickPeer k p = None"]
        guarded.add_limit [OF ok c] by (simp add: own_group_def)
    ultimately show ?thesis using pick by auto
  next
    case pick: (Some u)
    obtain url where u: "u = Some url" "hasPrefix url ''localhost:''"
      using pool_pick_url [OF addrs, of k port u] pick p by auto
    have "hasPrefix (getter_url url req) ''localhost:''" for req
      using u(2) unfolding hasPrefix_iff getter_url_def by auto
    then obtain e where "http_get (getter_url url \<lparr>pb_Group = g_name g, pb_Key = k\<rparr>) w = (Inl e, w)"
      using net unfolding no_localhost_scheme_def by meson
    then have "group_Get marshal k g w = (Ret (Inl e), g, w)"
      using ok None load peers pick u(1) by (simp add: group_defs cache_get_miss pool_picker_def httpGetter_Get_def)
    with own pick show ?thesis by auto
  qed
qed

definition node_ok ::
  "(string \<Rightarrow> 'w \<Rightarrow> (goerror + http_answer) \<times> 'w) \<Rightarrow>
   (string \<Rightarrow> pb_Response option \<Rightarrow> goerror option outcome) \<Rightarrow> http_pool \<Rightarrow> 'w groups \<Rightarrow> bool" where
  "node_ok http_get unmarshal p gs \<longleftrightarrow> (\<exists>g. gs ''source'' = Some g \<and> own_group http_get unmarshal p g)"

lemma ccacheRun_ok:
  assumes "ccacheRun http_get unmarshal port addrs gs = Ret (p, gs')"
  shows "p = ccache_pool port addrs \<and> node_ok http_get unmarshal p gs'"
proof -
  have "0 \<le> sint (push_bit 10 2 :: int64)" by simp
  with assms show ?thesis
    by (auto simp: ccacheRun_def createGroup_def NewGroup_def RegisterPeers_def Let_def node_ok_def own_group_def
      cache_all_def cache_ok_def cache_lookup_def)
qed

lemma api_handler_own:
  assumes "own_group http_get unmarshal p g" and "p = ccache_pool port addrs"
    and "set addrs = ran peerList" and "no_localhost_scheme http_get"
  shows "\<exists>rw g'. api_handler marshal rawquery g w = (Ret rw, g', w) \<and> own_group http_get unmarshal p g' \<and>
    (let k = query_Get ''key'' rawquery
     in if pool_PickPeer k p = None then map_option fst (rw_sent rw) = Some 200 \<and> rw_body rw = node_answer k
        else map_option fst (rw_sent rw) = Some 500)"
proof -
  let ?k = "query_Get ''key'' rawquery"
  obtain r g' where get: "group_Get marshal ?k g w = (Ret r, g', w)" "own_group http_get unmarshal p g'"
    "if pool_PickPeer ?k p = None then r = Inr (node_answer ?k) else \<exists>e. r = Inl e"
    using group_Get_own [OF assms, of marshal ?k w] by blast
  then show ?thesis
    by (cases r) (auto simp: api_handler_def http_Error_def rw_Write_def rw_WriteHeader_def rw_Set_def rw_new_def Let_def
      split: if_splits)
qed

lemma node_serve_ok:
  assumes ok: "node_ok http_get unmarshal p gs" and p: "p = ccache_pool port addrs"
    and addrs: "set addrs = ran peerList" and net: "no_localhost_scheme http_get"
    and run: "node_serve marshal p r gs w = (out, gs', w')"
  shows "node_ok http_get unmarshal p gs'"
proof -
  obtain g where g: "gs ''source'' = Some g" and own: "own_group http_get unmarshal p g"
    using ok by (auto simp: node_ok_def)
  have set_other: "node_ok http_get unmarshal p (gs(name \<mapsto> g'))"
    if "name = ''source'' \<Longrightarrow> own_group http_get unmarshal p g'" for name g'
    using that g own by (auto simp: node_ok_def)
  show ?thesis
  proof (cases r)
    case (ApiRequest rawquery)
    with run g api_handler_own [OF own p addrs net, of marshal rawquery w] show ?thesis
      by (auto simp: node_serve_def node_ok_def)
  next
    case (PeerRequest path)
    have own_get: "own_group http_get unmarshal p g1"
      if "group_Get marshal key g w = (out1, g1, w1)" for key out1 g1 w1
      using group_Get_own [OF own p addrs net, of marshal key w] that by auto
    from run PeerRequest ok show ?thesis
      by (auto simp: node_serve_def pool_ServeHTTP_def GetGroup_def Let_def g
        split: if_splits list.splits option.splits prod.splits outcome.splits sum.splits
        intro!: set_other intro: own_get)
  qed
qed

lemma node_run_ok:
  assumes "p = ccache_pool port addrs" and "set addrs = ran peerList" and "no_localhost_scheme http_get"
  shows "node_ok http_get unmarshal p gs \<Longrightarrow> node_run marshal p rs gs w = (gs', w') \<Longrightarrow>
    node_ok http_get unmarshal p gs'"
proof (induction rs arbitrary: gs w)
  case Nil
  then show ?case by simp
next
  case (Cons r rs)
  obtain out gs1 w1 where "node_serve marshal p r gs w = (out, gs1, w1)" by (cases "node_serve marshal p r gs w")
  with Cons.IH [OF node_serve_ok [OF Cons.prems(1) assms this]] Cons.prems(2) show ?case by simp
qed

subsection \<open>Properties\<close>

text \<open>
  Property C18. A node of the demo after any requests to its front-end and of other nodes, in any
  order: a request of the front-end for a key, whatever its bytes, is answered with status 200
  and the value of the database, or the text that there is none, if the ring assigns the key to
  this node. For any other key the answer is status 500: the peers' addresses have no scheme,
  so that no node ever reaches another.
\<close>

theorem demo_node_serves:
  fixes port addrs k
  assumes "ccacheRun http_get unmarshal port addrs gs = Ret (p, gs0)" and "set addrs = ran peerList"
    and "no_localhost_scheme http_get" and "node_run marshal p reqs gs0 w = (gs1, w1)"
  defines "owner \<equiv> ring_Get (ring_Add addrs (ring_NewMap 3 None)) k"
  shows "owner \<in> set addrs \<and>
    (\<exists>rw gs2. node_serve marshal p (ApiRequest (''key='' @ QueryEscape k)) gs1 w1 = (Ret rw, gs2, w1) \<and>
      (if owner = peer_at port
       then map_option fst (rw_sent rw) = Some 200 \<and>
            rw_body rw = (case db k of Some v \<Rightarrow> v | None \<Rightarrow> k @ '' not exists '' @ [CHR 0x0A])
       else map_option fst (rw_sent rw) = Some 500))"
proof -
  note start = ccacheRun_ok [OF assms(1)]
  note p = start [THEN conjunct1] and ok = start [THEN conjunct2]
  obtain g where g: "gs1 ''source'' = Some g" "own_group http_get unmarshal p g"
    using node_run_ok [OF p assms(2,3) ok assms(4)] by (auto simp: node_ok_def)
  have "''localhost:8081'' \<in> set addrs" unfolding assms(2) by (simp add: ran_peerList)
  then have owner: "owner \<in> set addrs" unfolding owner_def by (intro ring_Get_node) auto
  then have "owner \<noteq> ''''" unfolding assms(2) by (auto simp: ran_peerList)
  then have "pool_PickPeer k p = None \<longleftrightarrow> owner = peer_at port"
    by (simp add: p ccache_pool_def PickPeer_Set Let_def owner_def NewHTTPPoolWithOpts_def defaultReplicas_def)
  then show ?thesis
    using owner api_handler_own [OF g(2) p assms(2,3), of marshal "''key='' @ QueryEscape k" w1] g(1)
    unfolding query_Get_escaped node_serve_def node_answer_def Let_def by (auto split: if_splits)
qed

text \<open>A network without that scheme, and the node of the demo that owns the key \<open>''A''\<close>.\<close>

definition demo_net :: "string \<Rightarrow> nat \<Rightarrow> (goerror + http_answer) \<times> nat" where
  "demo_net url w =
     (if hasPrefix url ''localhost:'' then (Inl ''unsupported protocol scheme'', w)
      else (Inr \<lparr>StatusCode = 404, Status = ''404 Not Found'', Body = Inr ''''\<rparr>, Suc w))"

definition demo_addrs :: "string list" where
  "demo_addrs = [''localhost:8081'', ''localhost:8082'', ''localhost:8083'']"

theorem demo_node_serves_witness:
  "\<exists>port p gs0 gs1 w1 rw gs2. ccacheRun demo_net (\<lambda>_ _. Ret None) port demo_addrs Map.empty = Ret (p, gs0) \<and>
     node_run (\<lambda>_. Inr ''enc'') p [PeerRequest ''/ccache/source/B'', ApiRequest ''key=%41'', ApiRequest ''''] gs0 0
       = (gs1, w1) \<and>
     node_serve (\<lambda>_. Inr ''enc'') p (ApiRequest (''key='' @ QueryEscape ''A'')) gs1 w1 = (Ret rw, gs2, w1) \<and>
     map_option fst (rw_sent rw) = Some 200 \<and> rw_body rw = ''A''"
proof -
  let ?owner = "ring_Get (ring_Add demo_addrs (ring_NewMap 3 None)) ''A''"
  have addrs: "set demo_addrs = ran peerList"
    by (simp add: demo_addrs_def ran_peerList)
  have net: "no_localhost_scheme demo_net" by (simp add: no_localhost_scheme_def demo_net_def)
  have run: "\<exists>p gs0. ccacheRun demo_net (\<lambda>_ _. Ret None) port demo_addrs Map.empty = Ret (p, gs0)" for port
    by (simp add: ccacheRun_def createGroup_def NewGroup_def RegisterPeers_def Let_def)
  have member: "?owner \<in> set demo_addrs" by (rule ring_Get_node) (simp_all add: demo_addrs_def)
  then obtain port where "peerList port = Some ?owner" unfolding addrs by (auto simp: ran_def)
  then have port: "?owner = peer_at port" by (simp add: peer_at_def)
  from run [of port] obtain p gs0 where start: "ccacheRun demo_net (\<lambda>_ _. Ret None) port demo_addrs Map.empty = Ret (p, gs0)"
    by blast
  obtain gs1 w1 where reqs: "node_run (\<lambda>_. Inr ''enc'') p [PeerRequest ''/ccache/source/B'', ApiRequest ''key=%41'',
      ApiRequest ''''] gs0 0 = (gs1, w1)" by (cases "node_run (\<lambda>_. Inr ''enc'') p [PeerRequest ''/ccache/source/B'',
      ApiRequest ''key=%41'', ApiRequest ''''] gs0 0")
  have "db ''A'' = Some ''A''" by (simp add: db_def)
  with demo_node_serves [OF start addrs net reqs, of "''A''"] port obtain rw gs2 where
    "node_serve (\<lambda>_. Inr ''enc'') p (ApiRequest (''key='' @ QueryEscape ''A'')) gs1 w1 = (Ret rw, gs2, w1)"
    "map_option fst (rw_sent rw) = Some 200" "rw_body rw = ''A''"
    by (auto simp del: append.simps)
  with start reqs show ?thesis by blast
qed

end
