(* ===== verification/Demo_SORM.thy ===== *)
theory Demo_SORM
  imports SORM_Engine
begin

section \<open>The demo program: the database\<close>

text \<open>
  \<^verbatim>\<open>ormRun\<close> of \<^verbatim>\<open>main.go\<close>: statements sent directly to the database of a session, past the
  session itself. The database is a parameter, as in the theories of SORM.
\<close>

definition users_create :: string where
  "users_create = ''CREATE TABLE IF NOT EXISTS users(name text,age int);''"

definition users_insert :: string where
  "users_insert = ''INSERT INTO users VALUES(?,?),(?,?);''"

definition users_select :: string where
  "users_select = ''SELECT * FROM users;''"

text \<open>
  The result is the rows that are printed. The errors of the two \<^verbatim>\<open>Exec\<close> are dropped; the
  deferred \<^verbatim>\<open>Close\<close> of the engine does not run when the logger has ended the process.
\<close>

definition ormRun ::
  "(string \<Rightarrow> string \<Rightarrow> 'w \<Rightarrow> goerror option \<times> 'w) \<Rightarrow> ('w \<Rightarrow> goerror option \<times> 'w) \<Rightarrow>
   ('w \<Rightarrow> goerror option \<times> 'w) \<Rightarrow> (string \<rightharpoonup> dialector) \<Rightarrow> 'w driver \<Rightarrow> ('w, rows) stm" where
  "ormRun sql_Open db_Ping db_Close dialects d w =
     (case NewEngine sql_Open db_Ping dialects ''sqlite3'' ''sorm.db'' w of
        (Ret (Some engine, err), w1) \<Rightarrow>
          (let db = session_DB (NewSession engine)
           in case d_Exec d db users_create [] w1 of (_, w2) \<Rightarrow>
              (case d_Exec d db users_insert [VStr ''John'', VInt 13, VStr ''Amy'', VInt 15] w2 of (_, w3) \<Rightarrow>
              (case d_Query d db users_select [] w3 of
                 (Inl e, w4) \<Rightarrow> (Exit e, w4)
               | (Inr rs, w4) \<Rightarrow> stm_bind (engine_Close db_Close) (\<lambda>_. stm_ret rs) w4)))
      | (Ret (None, Some err), w1) \<Rightarrow> (Exit ''failed to create engine'', w1)
      | (Ret (None, None), w1) \<Rightarrow> (Panic ''invalid memory address or nil pointer dereference'', w1)
      | (Panic e, w1) \<Rightarrow> (Panic e, w1)
      | (Exit e, w1) \<Rightarrow> (Exit e, w1)
      | (Hang, w1) \<Rightarrow> (Hang, w1))"

text \<open>
  The checks of \<^verbatim>\<open>ormRun\<close> on the engine never fire: \<^verbatim>\<open>NewEngine\<close> ends the process itself when it
  cannot make one.
\<close>

lemma NewEngine_made:
  "NewEngine sql_Open db_Ping dialects driver source w = (Ret (e, err), w1) \<Longrightarrow> err = None \<and> e \<noteq> None"
  by (auto simp: NewEngine_def logger_Error_def stm_bind_def split: prod.splits option.splits)

lemma ormRun_no_panic:
  "fst (ormRun sql_Open db_Ping db_Close dialects d w) \<noteq> Panic e"
proof -
  have made: "fst (NewEngine sql_Open db_Ping dialects driver source w) \<noteq> Panic e" for driver source
    by (auto simp: NewEngine_def logger_Error_def stm_bind_def split: prod.splits option.splits)
  have closed: "fst (stm_bind (engine_Close db_Close) (\<lambda>_. stm_ret rs) w4) \<noteq> Panic e" for rs :: rows and w4
    by (auto simp: engine_Close_def logger_Error_def stm_bind_def stm_ret_def split: prod.splits option.splits)
  obtain out w1 where new: "NewEngine sql_Open db_Ping dialects ''sqlite3'' ''sorm.db'' w = (out, w1)" by fastforce
  show ?thesis
  proof (cases out)
    case (Ret r)
    then obtain engine where r: "r = (Some engine, None)"
      using NewEngine_made [of sql_Open db_Ping dialects "''sqlite3''" "''sorm.db''" w "fst r" "snd r" w1] new
      by (cases r) auto
    show ?thesis
      unfolding ormRun_def new Ret r by (simp add: closed Let_def case_prod_beta split: sum.split)
  qed (use made [of "''sqlite3''" "''sorm.db''"] new in \<open>simp_all add: ormRun_def\<close>)
qed

text \<open>
  On a connected database exactly the three statements are sent, in order, outside a
  transaction, whether the first two succeed or not.
\<close>

lemma ormRun_statements:
  assumes "sql_Open ''sqlite3'' ''sorm.db'' w = (None, w0)" and "db_Ping w0 = (None, w1)"
    and "d_Exec d OnDB users_create [] w1 = (r1, w2)"
    and "d_Exec d OnDB users_insert [VStr ''John'', VInt 13, VStr ''Amy'', VInt 15] w2 = (r2, w3)"
    and "d_Query d OnDB users_select [] w3 = (r3, w4)"
  shows "ormRun sql_Open db_Ping db_Close dialectsMap d w =
    (case r3 of Inl e \<Rightarrow> (Exit e, w4) | Inr rs \<Rightarrow> stm_bind (engine_Close db_Close) (\<lambda>_. stm_ret rs) w4)"
proof -
  have "GetDialect ''sqlite3'' dialectsMap = Some sqlite3"
    by (simp add: GetDialect_def dialectsMap_def RegisterDialect_def)
  then show ?thesis
    using assms by (simp add: ormRun_def NewEngine_def NewSession_def session_New_def session_DB_def Let_def)
qed

end
