(* ===== verification/Demo_RPC.thy ===== *)
theory Demo_RPC
  imports RPC_Returns RPC_XClient
begin

section \<open>The demo program: remote calls\<close>

text \<open>
  The second half of \<^verbatim>\<open>main.go\<close>: the service \<^verbatim>\<open>Foo\<close>, a server for it with its heartbeats, and the
  function \<^verbatim>\<open>foo\<close> that makes calls. The two arguments and the reply are 64-bit integers that wrap
  around. Listening and the remote calls are parameters.
\<close>

subsection \<open>The service Foo\<close>

record foo_args =
  Arg1 :: int64
  Arg2 :: int64

definition Foo_Sum :: "foo_args \<Rightarrow> goerror option \<times> int64" where
  "Foo_Sum args = (None, Arg1 args + Arg2 args)"

text \<open>
  The nanoseconds that \<^verbatim>\<open>Sleep\<close> asks \<^verbatim>\<open>time.Sleep\<close> for, a 64-bit product, and its result. A
  sleep of a negative duration returns at once.
\<close>

definition Foo_Sleep :: "foo_args \<Rightarrow> int64 \<times> (goerror option \<times> int64)" where
  "Foo_Sleep args = (word_of_int time_Second * Arg1 args, (None, Arg1 args + Arg2 args))"

definition Foo_type :: rtype where
  "Foo_type = DefT ''main'' ''Foo'' (OtherT 0)"

definition Args_type :: rtype where
  "Args_type = DefT ''main'' ''Args'' (OtherT 1)"

text \<open>The methods that \<^verbatim>\<open>&foo\<close> exports, in the order of their names.\<close>

definition Foo_method :: "string \<Rightarrow> rmethod" where
  "Foo_method name =
     \<lparr>rm_Name = name, rm_In = [PtrTo Foo_type, Args_type, PtrTo (PreT ''int'')], rm_Out = [error_type]\<rparr>"

definition Foo_rcvr :: rcvr where
  "Foo_rcvr = \<lparr>rv_type = PtrTo Foo_type, rv_nil = False, rv_methods = [Foo_method ''Sleep'', Foo_method ''Sum'']\<rparr>"

text \<open>What the methods do with their decoded argument.\<close>

definition Foo_call :: "rmethod \<Rightarrow> foo_args \<Rightarrow> goerror option \<times> int64" where
  "Foo_call m args = (if rm_Name m = ''Sleep'' then snd (Foo_Sleep args) else Foo_Sum args)"

subsection \<open>Servers\<close>

text \<open>
  The server that \<^verbatim>\<open>startServer\<close> and \<^verbatim>\<open>startServer1\<close> create once they listen; the error of
  \<^verbatim>\<open>Register\<close> is dropped. \<open>listen\<close> is the result of \<^verbatim>\<open>net.Listen\<close>.
\<close>

definition startServer :: "(goerror + string) \<Rightarrow> (string \<times> server) outcome" where
  "startServer listen =
     (case listen of
        Inl err \<Rightarrow> Exit (''Failed to listen err:'' @ err)
      | Inr addr \<Rightarrow>
          (case Register (Some Foo_rcvr) NewServer of
             (Ret _, server) \<Rightarrow> Ret (addr, server)
           | (Panic e, _) \<Rightarrow> Panic e
           | (Exit e, _) \<Rightarrow> Exit e
           | (Hang, _) \<Rightarrow> Hang))"

text \<open>
  \<^verbatim>\<open>startServer1\<close> registers the address with the registry by heartbeats, one each minute; the
  result has their times, for \<open>ticks\<close> ticks from \<open>start\<close>, and the address that is registered.
\<close>

definition startServer1 ::
  "(goerror + string) \<Rightarrow> (string \<Rightarrow> nat \<Rightarrow> goerror option) \<Rightarrow> int \<Rightarrow> nat \<Rightarrow> (string \<times> server \<times> int list) outcome" where
  "startServer1 listen send start ticks =
     bind_outcome (startServer listen) (\<lambda>(addr, server).
       Ret (''tcp@'' @ addr, server, Heartbeat time_Minute (send (''tcp@'' @ addr)) start ticks))"

subsection \<open>Calls\<close>

text \<open>
  \<^verbatim>\<open>foo\<close>: the line that is logged. \<open>call\<close> and \<open>broadcast\<close> are the outcomes of \<^verbatim>\<open>xc.Call\<close> and
  \<^verbatim>\<open>xc.Broadcast\<close> with the reply they leave; any other type calls nothing, which counts as success.
\<close>

definition foo_run ::
  "(string \<Rightarrow> foo_args \<Rightarrow> goerror option \<times> int64) \<Rightarrow> (string \<Rightarrow> foo_args \<Rightarrow> goerror option \<times> int64) \<Rightarrow>
   string \<Rightarrow> string \<Rightarrow> foo_args \<Rightarrow> string" where
  "foo_run call broadcast typ serviceMethod args =
     (let (err, reply) =
        (if typ = ''call'' then call serviceMethod args
         else if typ = ''broadcast'' then broadcast serviceMethod args
         else (None, 0))
      in case err of
           Some e \<Rightarrow> typ @ '' '' @ serviceMethod @ '' error: '' @ e
         | None \<Rightarrow> typ @ '' '' @ serviceMethod @ '' success: '' @ itoa (sint (Arg1 args)) @ '' + '' @
             itoa (sint (Arg2 args)) @ '' = '' @ itoa (sint reply))"

text \<open>The arguments of the five goroutines of \<^verbatim>\<open>call\<close> and \<^verbatim>\<open>broadcast\<close>.\<close>

definition demo_args :: "foo_args list" where
  "demo_args = map (\<lambda>i. \<lparr>Arg1 = of_nat i, Arg2 = of_nat (i * i)\<rparr>) [0..<5]"

text \<open>\<^verbatim>\<open>call\<close> and \<^verbatim>\<open>broadcast\<close>: what their goroutines log, each in its own order.\<close>

definition demo_calls ::
  "(string \<Rightarrow> foo_args \<Rightarrow> goerror option \<times> int64) \<Rightarrow> string list list" where
  "demo_calls xc_Call =
     map (\<lambda>args. [foo_run xc_Call (\<lambda>_ _. (None, 0)) ''call'' ''Foo.Sum'' args]) demo_args"

text \<open>The second broadcast of each goroutine has a timeout, so that its outcome is another one.\<close>

definition demo_broadcasts ::
  "(bool \<Rightarrow> string \<Rightarrow> foo_args \<Rightarrow> goerror option \<times> int64) \<Rightarrow> string list list" where
  "demo_broadcasts xc_Broadcast =
     map (\<lambda>args. map (\<lambda>timed. foo_run (\<lambda>_ _. (None, 0)) (xc_Broadcast timed) ''broadcast'' ''Foo.Sum'' args)
       [False, True]) demo_args"

text \<open>
  \<^verbatim>\<open>rpcRun\<close>: the error of dialling is dropped, so that the call is made on a nil client. \<open>call\<close> is
  the outcome of \<^verbatim>\<open>Call\<close> on the client and the reply it leaves; the result is the logged line.
\<close>

definition rpcRun ::
  "'a dial_end outcome \<Rightarrow> ('a client \<Rightarrow> string \<Rightarrow> foo_args \<Rightarrow> goerror option \<times> int64) \<Rightarrow> string outcome" where
  "rpcRun dial call =
     bind_outcome dial (\<lambda>d.
       case de_result d of
         Inl err \<Rightarrow> Panic ''invalid memory address or nil pointer dereference''
       | Inr client \<Rightarrow>
           (case call client ''Foo.Sum'' \<lparr>Arg1 = 1, Arg2 = 1\<rparr> of
              (Some err, res) \<Rightarrow> Exit (''call test error: '' @ err)
            | (None, res) \<Rightarrow> Ret (''reply: 1 + 1 = '' @ itoa (sint res))))"

text \<open>Over HTTP it never gets that far: the handshake fails and the program crashes.\<close>

lemma rpcRun_http:
  assumes "server_ServeHTTP ''CONNECT'' None = (w, Some answer)"
    and "dial = DialHTTP read_headers (Some answer) encode_err in_time dur net_dial ''tcp'' addr opts"
    and "dial = Ret d"
  shows "rpcRun dial call = Panic ''invalid memory address or nil pointer dereference''"
  using DialHTTP_fails(1) [OF assms(1) assms(3) [unfolded assms(2)]] assms(3) by (auto simp: rpcRun_def)

text \<open>
  \<^verbatim>\<open>startRegistry\<close>: the error of listening is dropped; serving does not return. \<open>h\<close> is the
  handler \<^verbatim>\<open>DefaultRegistry\<close>.
\<close>

definition startRegistry :: "'h \<Rightarrow> goerror option \<Rightarrow> ('h mux, unit) stm" where
  "startRegistry h listen_err =
     stm_bind (registry_HandleHTTP h defaultPath) (\<lambda>_.
       stm_lift (if listen_err \<noteq> None then Panic ''invalid memory address or nil pointer dereference'' else Hang))"

subsection \<open>The registered methods\<close>

definition Foo_service :: service where
  "Foo_service =
     registerMethods \<lparr>sv_name = ''Foo'', sv_typ = PtrTo Foo_type, sv_rcvr = Foo_rcvr, sv_method = Map.empty\<rparr>"

definition Foo_server :: server where
  "Foo_server = \<lparr>serviceMap = [''Foo'' \<mapsto> Foo_service]\<rparr>"

lemmas Foo_defs = Foo_rcvr_def Foo_method_def Foo_type_def Args_type_def

lemma Foo_method_rpc: "rpc_method (Foo_method name)"
  by (simp add: rpc_method_def Foo_defs isExportedOrBuiltinType_def IsExported_def less_eq_char_def)

lemma Foo_methods:
  "sv_method Foo_service = [''Sleep'' \<mapsto> method_entry (Foo_method ''Sleep''), ''Sum'' \<mapsto> method_entry (Foo_method ''Sum'')]"
  by (simp add: Foo_service_def registerMethods_def Foo_rcvr_def register_loop_Cons Foo_method_rpc)
    (simp add: Foo_method_def)

lemma Foo_Register: "Register (Some Foo_rcvr) NewServer = (Ret None, Foo_server)"
proof -
  have "newService (Some Foo_rcvr) = Ret Foo_service"
    by (simp add: newService_def Foo_service_def Foo_rcvr_def Foo_type_def IsExported_def less_eq_char_def)
  moreover have "sv_name Foo_service = ''Foo''" by (simp add: Foo_service_def registerMethods_def)
  ultimately show ?thesis by (simp add: Register_def NewServer_def Foo_server_def)
qed

lemma startServer_server: "startServer (Inr addr) = Ret (addr, Foo_server)"
  by (simp add: startServer_def Foo_Register)

lemma Foo_found:
  assumes "findService sm Foo_server = Inr (sv, mt)"
  shows "mt_method mt \<in> {Foo_method ''Sleep'', Foo_method ''Sum''}"
  using assms
  by (auto simp: findService_def Foo_server_def Foo_methods method_entry_def Let_def split: option.splits if_splits)

text \<open>Both methods answer with the sum of the arguments, without an error.\<close>

lemma Foo_answers:
  assumes "service_answers Foo_call r res" and "findService sm Foo_server = Inr (rq_svc r, rq_mType r)"
  shows "res = (None, Arg1 (rq_argv r) + Arg2 (rq_argv r))"
  using service_answers_method [OF assms(1)] Foo_found [OF assms(2)]
  by (auto simp: Foo_call_def Foo_method_def Foo_Sum_def Foo_Sleep_def)

subsection \<open>Properties\<close>

text \<open>
  A client and the server of the demo, with any number of calls of \<^verbatim>\<open>Foo.Sum\<close> and
  \<^verbatim>\<open>Foo.Sleep\<close> in flight and in any interleaving of their goroutines: every response the server
  sends for a request belongs to one registered call of the client, and its reply is the sum of
  that call's own two arguments, as 64-bit integers, without an error; only a server with a
  handle timeout may answer with the error of the timeout instead.
\<close>

theorem demo_sum_served:
  assumes "startServer (Inr addr) = Ret (addr', server)"
    and "reach cl_init cl_step c" and "few_calls c"
    and "(worked_step (service_answers Foo_call) server dec timeout dur ^^ k) (sv_start (frames (cl_wire c))) n"
    and "i < length (sn_reqs n)" and "(h, b) \<in> set (responses n (Some i))"
  shows "\<exists>j x t args. j \<in> set (cl_regs c) \<and> cl_calls c j = Some x \<and> rc_Seq x = h_Seq h \<and>
    dec t (rc_Args x) = Inr args \<and>
    (b = Some (Arg1 args + Arg2 args) \<and> h_Err h = '''' \<or>
     timeout \<noteq> 0 \<and> b = None \<and> h_Err h = ''rpc server: request handle time out, expected within '' @ dur)"
proof -
  let ?r = "sn_reqs n ! i"
  have server: "server = Foo_server" using assms(1) by (simp add: startServer_server)
  note run = worked_run [OF assms(4)]
  obtain j x t where j: "j \<in> set (cl_regs c)" "cl_calls c j = Some x" "rc_Seq x = h_Seq (rq_h ?r)"
      "dec t (rc_Args x) = Inr (rq_argv ?r)" "h_Err (rq_h ?r) = ''''"
    using call_of_request [OF assms(2,3) run assms(5)] by blast
  have seq: "h_Seq h = h_Seq (rq_h ?r)"
    by (rule response_header(1) [OF handled_origin(1) [OF run assms(5)] assms(5,6)])
  note found = handled_origin(3) [OF run assms(5), unfolded server]
  from worked_response [OF worked_start [OF assms(4)] assms(6)]
  have "b = Some (Arg1 (rq_argv ?r) + Arg2 (rq_argv ?r)) \<and> h_Err h = '''' \<or>
      timeout \<noteq> 0 \<and> b = None \<and> h_Err h = ''rpc server: request handle time out, expected within '' @ dur"
  proof
    assume "timed_out timeout dur ?r (h, b)"
    then show ?thesis by (simp add: timed_out_def timeout_header_def)
  next
    assume "answered (service_answers Foo_call) ?r (h, b)"
    then obtain res where res: "service_answers Foo_call ?r res" "(h, b) = result_msg (rq_h ?r) res"
      by (auto simp: answered_def simp del: split_paired_Ex)
    from res(2) j(5) show ?thesis unfolding Foo_answers [OF res(1) found] by (simp add: result_msg_def)
  qed
  with j(1-4) seq show ?thesis
    by (intro exI [of _ j] exI [of _ x] exI [of _ t] exI [of _ "rq_argv ?r"]) simp
qed

text \<open>A call of \<^verbatim>\<open>Foo.Sum\<close> with twice the number that encodes its arguments.\<close>

definition twice_dec :: "rtype \<Rightarrow> nat \<Rightarrow> goerror + foo_args" where
  "twice_dec t v = Inr \<lparr>Arg1 = of_nat v, Arg2 = of_nat v\<rparr>"

definition twice_request :: "foo_args request" where
  "twice_request =
     \<lparr>rq_h = demo_header, rq_svc = Foo_service, rq_mType = method_entry (Foo_method ''Sum''),
      rq_argv = \<lparr>Arg1 = 7, Arg2 = 7\<rparr>, rq_replyv = NewV (ZeroV (PreT ''int''))\<rparr>"

lemma twice_argv:
  "newArgv (method_entry (Foo_method name)) = Ret (ZeroV Args_type)"
  "newReplyv (method_entry (Foo_method name)) = Ret (NewV (ZeroV (PreT ''int'')))"
  by (simp_all add: newArgv_def newReplyv_def method_entry_def Foo_method_def Args_type_def)

lemma twice_read: "readRequest Foo_server twice_dec (frames [(demo_header, 7)]) = (Ret (GoodRequest twice_request), [])"
proof -
  have "findService ''Foo.Sum'' Foo_server = Inr (Foo_service, method_entry (Foo_method ''Sum''))"
    by (simp add: findService_def Foo_server_def Foo_methods Let_def)
  then show ?thesis
    by (simp add: readRequest_def twice_argv twice_dec_def demo_header_def twice_request_def)
qed

lemma twice_answers: "service_answers Foo_call twice_request (None, 14)"
  by (simp add: service_answers_def service_call_def twice_request_def twice_argv)
    (simp add: method_entry_def Foo_method_def assignable_def Foo_call_def Foo_Sum_def)

theorem demo_sum_served_witness:
  "\<exists>j x t args. j \<in> set (cl_regs demo_sent) \<and> cl_calls demo_sent j = Some x \<and> rc_Seq x = h_Seq demo_header \<and>
    twice_dec t (rc_Args x) = Inr args \<and> Arg1 args + Arg2 args = 14"
proof -
  let ?n = "one_served twice_request 14 :: (nat, foo_args, int64) sconn"
  have header: "rq_h twice_request = demo_header" by (simp add: twice_request_def)
  have "(worked_step (service_answers Foo_call) Foo_server twice_dec 0 '''' ^^ 9)
      (sv_start (frames [(rq_h twice_request, 7)])) ?n"
  proof (rule one_run [of Foo_server twice_dec])
    show "readRequest Foo_server twice_dec (frames [(rq_h twice_request, 7)]) = (Ret (GoodRequest twice_request), [])"
      unfolding header by (rule twice_read)
    show "worked_step (service_answers Foo_call) Foo_server twice_dec 0 '''' n n'"
      if "sv_step Foo_server twice_dec (\<lambda>_. None) 0 '''' n n'"
        "\<And>i res. sn_worker n i = WCall \<Longrightarrow> sn_worker n' i = WCalled res \<Longrightarrow>
           i = 0 \<and> sn_reqs n = [twice_request] \<and> res = (None, 14)"
      for n n' :: "(nat, foo_args, int64) sconn"
      unfolding worked_step_def using that(1) that(2) twice_answers by fastforce
  qed
  then have run: "(worked_step (service_answers Foo_call) Foo_server twice_dec 0 '''' ^^ 9)
      (sv_start (frames (cl_wire demo_sent))) ?n"
    by (simp add: header demo_sent_def del: frames.simps)
  have few: "few_calls demo_sent" by (simp add: few_calls_def demo_sent_def)
  have "0 < length (sn_reqs ?n)" "(demo_header, Some 14) \<in> set (responses ?n (Some 0))"
    by (simp_all add: one_served_def one_state_def responses_def header)
  from demo_sum_served [OF startServer_server [of "''[::]:4000''"] demo_sent_reach few run this] show ?thesis by auto
qed

subsection \<open>The demo's calls\<close>

lemma Foo_pointers: "replies_are_pointers Foo_server"
  by (auto simp: replies_are_pointers_def Foo_server_def Foo_methods method_entry_def Foo_method_def split: if_splits)

text \<open>Every request that its server reads has an answer.\<close>

lemma Foo_returns:
  assumes "readRequest Foo_server dec ms = (Ret (GoodRequest r), rest)"
  shows "\<exists>res. service_answers Foo_call r res"
proof -
  have "\<exists>sm. findService sm Foo_server = Inr (rq_svc r, rq_mType r) \<and>
      newReplyv (rq_mType r) = Ret (rq_replyv r)"
    using assms
    by (auto simp: readRequest_def bind_outcome_Ret_iff split: prod.splits sum.splits outcome.splits)
  then obtain sm where found: "findService sm Foo_server = Inr (rq_svc r, rq_mType r)"
      and replyv: "newReplyv (rq_mType r) = Ret (rq_replyv r)" by blast
  have "rq_mType r \<in> {method_entry (Foo_method ''Sleep''), method_entry (Foo_method ''Sum'')}"
    using found by (auto simp: findService_def Foo_server_def Foo_methods Let_def split: option.splits if_splits)
  then obtain name where mt: "rq_mType r = method_entry (Foo_method name)" by auto
  have "rq_svc r = Foo_service"
    using found by (auto simp: findService_def Foo_server_def Let_def split: option.splits if_splits)
  moreover have "rq_replyv r = NewV (ZeroV (PreT ''int''))" using replyv unfolding mt twice_argv by simp
  ultimately have "service_answers Foo_call r (Foo_call (Foo_method name) (rq_argv r))"
    unfolding service_answers_def mt twice_argv
    by (simp add: service_call_def) (simp add: method_entry_def Foo_method_def assignable_def)
  then show ?thesis by blast
qed

text \<open>A server of the demo on one end of a connection, and a client on the other.\<close>

definition demo_env ::
  "server \<Rightarrow> (rtype \<Rightarrow> 'a \<Rightarrow> goerror + foo_args) \<Rightarrow> (int64 option \<Rightarrow> goerror + 'a) \<Rightarrow> int \<Rightarrow> string \<Rightarrow> ('a, foo_args, int64) rpc_env" where
  "demo_env server dec reply timeout dur =
     \<lparr>en_services = server, en_dec = dec, en_enc = (\<lambda>_. None), en_reply = reply, en_timeout = timeout,
      en_dur = dur, en_meth = service_answers Foo_call\<rparr>"


lemma twice_call_run:
  "(old_step (demo_env Foo_server twice_dec (\<lambda>r. case r of Some v \<Rightarrow> Inr (unat v) | None \<Rightarrow> Inl ''EOF'') 0 '''') ^^ 13)
     (one_made ''Foo.Sum'' 7) (one_returned twice_request 7 14 14)"
proof (rule one_call_run)
  have "rq_h twice_request = demo_header" by (simp add: twice_request_def)
  then show "readRequest (en_services (demo_env Foo_server twice_dec (\<lambda>r. case r of Some v \<Rightarrow> Inr (unat v) | None \<Rightarrow> Inl ''EOF'') 0 ''''))
      (en_dec (demo_env Foo_server twice_dec (\<lambda>r. case r of Some v \<Rightarrow> Inr (unat v) | None \<Rightarrow> Inl ''EOF'') 0 ''''))
      (frames [(rq_h twice_request, 7)]) = (Ret (GoodRequest twice_request), [])"
    using twice_read by (simp add: demo_env_def del: frames.simps)
qed (use twice_answers in \<open>simp_all add: demo_env_def, simp_all add: twice_request_def demo_header_def\<close>)


end
