(* ===== verification/Demo_Main.thy ===== *)
theory Demo_Main
  imports Demo_RPC
begin

section \<open>The demo program: the whole run\<close>

text \<open>
  The function \<^verbatim>\<open>main\<close> of \<^verbatim>\<open>main.go\<close>: the registry is started, then two servers, which register by
  heartbeats, then \<^verbatim>\<open>call\<close> and \<^verbatim>\<open>broadcast\<close>, with five goroutines each. The model joins the parts of
  package \<^verbatim>\<open>surpc\<close>: the registry serves the heartbeats and the discovery of the clients, the
  addresses go from there to \<^verbatim>\<open>XDial\<close>, and what a remote call can return is what it returns
  in some run of \<open>RPC_System\<close>, a client and a server on one connection.
\<close>

subsection \<open>The world\<close>

text \<open>
  The registry, which is reached over the network, and the number of readings of the clock. The
  clock, random numbers, the results of \<^verbatim>\<open>net.Listen\<close> and the encoding of bodies are given;
  \<open>me_val\<close> is the integer that a decoded reply holds.
\<close>

record demo_world =
  dw_registry :: registry
  dw_reads :: nat

record ('a, 'g) demo_given =
  me_registry :: "goerror option"
  me_listens :: "(goerror + string) list"
  me_clock :: "nat \<Rightarrow> int"
  me_intn :: "'g intn"
  me_enc :: "foo_args \<Rightarrow> 'a"
  me_dec :: "rtype \<Rightarrow> 'a \<Rightarrow> goerror + foo_args"
  me_reply :: "int64 option \<Rightarrow> goerror + 'a"
  me_val :: "'a \<Rightarrow> int64"

definition demo_Now :: "('a, 'g) demo_given \<Rightarrow> demo_world \<Rightarrow> int \<times> demo_world" where
  "demo_Now M w = (me_clock M (dw_reads w), w\<lparr>dw_reads := Suc (dw_reads w)\<rparr>)"

text \<open>
  A request to the registry. \<open>order\<close> is the order in which the registry visits its map, and
  \<open>down\<close> the error of a request that does not arrive.
\<close>

definition demo_Do ::
  "('a, 'g) demo_given \<Rightarrow> string list \<Rightarrow> goerror option \<Rightarrow> string \<Rightarrow> string \<Rightarrow> string \<Rightarrow> demo_world \<Rightarrow>
   (goerror + response_writer) \<times> demo_world" where
  "demo_Do M order down meth url addr w =
     (case registry_Do order (\<lambda>k. me_clock M (dw_reads w + k)) down meth url addr (dw_registry w) of
        (r, s) \<Rightarrow> (r, w\<lparr>dw_registry := s, dw_reads := dw_reads w + Suc (length order)\<rparr>))"

definition demo_Get ::
  "('a, 'g) demo_given \<Rightarrow> string list \<Rightarrow> goerror option \<Rightarrow> string \<Rightarrow> demo_world \<Rightarrow> (goerror + string) \<times> demo_world" where
  "demo_Get M order down url w =
     (case demo_Do M order down ''GET'' url '''' w of
        (r, w1) \<Rightarrow> (map_sum id (sent_header ''X-Surpc-Servers'') r, w1))"

definition registryAddr :: string where
  "registryAddr = ''http://localhost:9999/_surpc_/registry''"

subsection \<open>One remote call\<close>

text \<open>
  What \<^verbatim>\<open>Call\<close> of \<^verbatim>\<open>Foo.Sum\<close> can return over a connection to a server of the demo, with the
  integer that it leaves in the reply: its results in the runs of the client and the server.
\<close>

definition call_outcome :: "('a, 'g) demo_given \<Rightarrow> server \<Rightarrow> foo_args \<Rightarrow> goerror option \<times> int64 \<Rightarrow> bool" where
  "call_outcome M server args res \<longleftrightarrow>
     (\<exists>y i x dur. reach sy_init (sys_step (demo_env server (me_dec M) (me_reply M) (op_HandleTimeout DefaultOption) dur)) y \<and>
        few_calls (sy_client y) \<and> cl_pc (sy_client y) i = SReturned (fst res) \<and>
        cl_calls (sy_client y) i = Some x \<and> rc_ServiceMethod x = ''Foo.Sum'' \<and> rc_Args x = me_enc M args \<and>
        snd res = (case rc_Reply x of None \<Rightarrow> 0 | Some (seq, v) \<Rightarrow> me_val M v))"

text \<open>
  The method \<^verbatim>\<open>call\<close> of the \<^verbatim>\<open>XClient\<close>: connecting, under the mutex, and the call of the client.
  \<open>sites\<close> are the addresses at which the servers of the demo listen; what else may listen at an
  address can answer anything.
\<close>

datatype call_pc =
    CDial string                             \<comment> \<open>before \<^verbatim>\<open>x.dial(rpcAddr)\<close>\<close>
  | CRemote string nat                       \<comment> \<open>at \<^verbatim>\<open>client.Call\<close>\<close>
  | CResult "goerror option \<times> int64"

inductive xcall_step ::
  "('a, 'g) demo_given \<Rightarrow> (string \<rightharpoonup> server) \<Rightarrow> foo_args \<Rightarrow> call_pc \<times> 'a xclient \<Rightarrow> call_pc \<times> 'a xclient \<Rightarrow> bool"
  for M sites args where
  xcall_dial_fails:
    "xdial = (\<lambda>a. dial_result (XDial read_headers answer encode_err in_time dur net_dial a [None])) \<Longrightarrow>
     xclient_dial xdial a x = (Inl err, x') \<Longrightarrow>
     xcall_step M sites args (CDial a, x) (CResult (Some err, 0), x')"
| xcall_dial:
    "xdial = (\<lambda>a. dial_result (XDial read_headers answer encode_err in_time dur net_dial a [None])) \<Longrightarrow>
     xclient_dial xdial a x = (Inr i, x') \<Longrightarrow>
     xcall_step M sites args (CDial a, x) (CRemote a i, x')"
| xcall_remote:
    "(case sites a of Some server \<Rightarrow> call_outcome M server args res | None \<Rightarrow> True) \<Longrightarrow>
     xcall_step M sites args (CRemote a i, x) (CResult res, x)"

subsection \<open>A goroutine of call or broadcast\<close>

text \<open>
  A goroutine has the arguments of its calls, the calls of \<^verbatim>\<open>foo\<close> it has yet to make, each by
  its \<^verbatim>\<open>typ\<close>, its position in the first of them, and what it has logged. \<^verbatim>\<open>Broadcast\<close> has one goroutine for each server, which
  is \<open>None\<close> when it has ended, and the state they share.
\<close>

datatype foo_pc =
    FStart                                     \<comment> \<open>before \<^verbatim>\<open>Refresh\<close> of the discovery\<close>
  | FRefreshed                                 \<comment> \<open>before \<^verbatim>\<open>Get\<close> or \<^verbatim>\<open>GetAll\<close> of its list of servers\<close>
  | FCall call_pc                              \<comment> \<open>in \<^verbatim>\<open>xc.Call\<close>\<close>
  | FCast "call_pc option list" "int64 broadcast"  \<comment> \<open>in \<^verbatim>\<open>xc.Broadcast\<close>\<close>

record goroutine =
  go_args :: foo_args
  go_jobs :: "string list"
  go_pc :: foo_pc
  go_log :: "string list"

text \<open>The line that \<^verbatim>\<open>foo\<close> logs for an outcome.\<close>

definition foo_line :: "string \<Rightarrow> foo_args \<Rightarrow> goerror option \<times> int64 \<Rightarrow> string" where
  "foo_line typ args res = foo_run (\<lambda>_ _. res) (\<lambda>_ _. res) typ ''Foo.Sum'' args"

definition go_end :: "goerror option \<times> int64 \<Rightarrow> goroutine \<Rightarrow> goroutine" where
  "go_end res g =
     g\<lparr>go_jobs := tl (go_jobs g), go_pc := FStart,
       go_log := go_log g @ [foo_line (hd (go_jobs g)) (go_args g) res]\<rparr>"

text \<open>
  The steps of a goroutine, which shares a discovery, the world and an \<^verbatim>\<open>XClient\<close> with others.
  \<^verbatim>\<open>Refresh\<close>, the access to the list, \<^verbatim>\<open>dial\<close> and the update of a broadcast are critical sections.
\<close>

type_synonym ('a, 'g) go_state = "goroutine \<times> 'g reg_disc \<times> demo_world \<times> 'a xclient"

inductive go_step ::
  "('a, 'g) demo_given \<Rightarrow> (string \<rightharpoonup> server) \<Rightarrow> ('a, 'g) go_state \<Rightarrow> ('a, 'g) go_state \<Rightarrow> bool"
  for M sites where
  go_refresh_fails:
    "go_jobs g = typ # js \<Longrightarrow> go_pc g = FStart \<Longrightarrow> visit_order (dw_registry w) order \<Longrightarrow>
     reg_disc_Refresh (demo_Now M) (demo_Get M order down) (d, w) = (Some err, (d', w')) \<Longrightarrow>
     go_step M sites (g, d, w, x) (go_end (Some err, 0) g, d', w', x)"
| go_refresh:
    "go_jobs g = typ # js \<Longrightarrow> go_pc g = FStart \<Longrightarrow> visit_order (dw_registry w) order \<Longrightarrow>
     reg_disc_Refresh (demo_Now M) (demo_Get M order down) (d, w) = (None, (d', w')) \<Longrightarrow>
     go_step M sites (g, d, w, x) (g\<lparr>go_pc := FRefreshed\<rparr>, d', w', x)"
| go_no_server:
    "go_jobs g = ''call'' # js \<Longrightarrow> go_pc g = FRefreshed \<Longrightarrow> multi_Get (me_intn M) RandomSelect (sd_multi d) = (Inl err, m) \<Longrightarrow>
     go_step M sites (g, d, w, x) (go_end (Some err, 0) g, d\<lparr>sd_multi := m\<rparr>, w, x)"
| go_pick:
    "go_jobs g = ''call'' # js \<Longrightarrow> go_pc g = FRefreshed \<Longrightarrow> multi_Get (me_intn M) RandomSelect (sd_multi d) = (Inr a, m) \<Longrightarrow>
     go_step M sites (g, d, w, x) (g\<lparr>go_pc := FCall (CDial a)\<rparr>, d\<lparr>sd_multi := m\<rparr>, w, x)"
| go_call:
    "go_jobs g = ''call'' # js \<Longrightarrow> go_pc g = FCall p \<Longrightarrow> xcall_step M sites (go_args g) (p, x) (p', x') \<Longrightarrow>
     go_step M sites (g, d, w, x) (g\<lparr>go_pc := FCall p'\<rparr>, d, w, x')"
| go_called:
    "go_jobs g = ''call'' # js \<Longrightarrow> go_pc g = FCall (CResult res) \<Longrightarrow>
     go_step M sites (g, d, w, x) (go_end res g, d, w, x)"
| go_all:
    "go_jobs g = ''broadcast'' # js \<Longrightarrow> go_pc g = FRefreshed \<Longrightarrow> multi_GetAll (sd_multi d) = (Inr servers, m) \<Longrightarrow>
     go_step M sites (g, d, w, x)
       (g\<lparr>go_pc := FCast (map (\<lambda>a. Some (CDial a)) servers)
          \<lparr>bc_e = None, bc_replyDone = False, bc_reply = Some 0, bc_cancelled = False\<rparr>\<rparr>, d\<lparr>sd_multi := m\<rparr>, w, x)"
| go_cast:
    "go_jobs g = ''broadcast'' # js \<Longrightarrow> go_pc g = FCast ps b \<Longrightarrow> k < length ps \<Longrightarrow> ps ! k = Some p \<Longrightarrow>
     xcall_step M sites (go_args g) (p, x) (p', x') \<Longrightarrow>
     go_step M sites (g, d, w, x) (g\<lparr>go_pc := FCast (ps[k := Some p']) b\<rparr>, d, w, x')"
| go_merge:
    "go_jobs g = ''broadcast'' # js \<Longrightarrow> go_pc g = FCast ps b \<Longrightarrow> k < length ps \<Longrightarrow> ps ! k = Some (CResult res) \<Longrightarrow>
     go_step M sites (g, d, w, x) (g\<lparr>go_pc := FCast (ps[k := None]) (broadcast_one res b)\<rparr>, d, w, x)"
| go_casted:
    "go_jobs g = ''broadcast'' # js \<Longrightarrow> go_pc g = FCast ps b \<Longrightarrow> set ps \<subseteq> {None} \<Longrightarrow> bc_reply b = Some v \<Longrightarrow>
     go_step M sites (g, d, w, x) (go_end (bc_e b, v) g, d, w, x)"

subsection \<open>The function main\<close>

text \<open>What \<^verbatim>\<open>call\<close> and \<^verbatim>\<open>broadcast\<close> create: a discovery, an \<^verbatim>\<open>XClient\<close> and goroutines.\<close>

record ('a, 'g) demo_round =
  ro_disc :: "'g reg_disc"
  ro_xc :: "'a xclient"
  ro_go :: "goroutine list"

definition round_start :: "('a, 'g) demo_given \<Rightarrow> 'g \<Rightarrow> string list \<Rightarrow> ('a, 'g) demo_round" where
  "round_start M seed jobs =
     \<lparr>ro_disc = NewSuRegistryDiscovery (me_intn M) seed registryAddr 0, ro_xc = NewXClient,
      ro_go = map (\<lambda>args. \<lparr>go_args = args, go_jobs = jobs, go_pc = FStart, go_log = []\<rparr>) demo_args\<rparr>"

text \<open>One of the goroutines makes a step; all of them are done; the deferred \<^verbatim>\<open>Close\<close>.\<close>

definition round_step ::
  "('a, 'g) demo_given \<Rightarrow> (string \<rightharpoonup> server) \<Rightarrow> ('a, 'g) demo_round \<times> demo_world \<Rightarrow> ('a, 'g) demo_round \<times> demo_world \<Rightarrow> bool" where
  "round_step M sites rw rw' \<longleftrightarrow>
     (\<exists>t g d x. t < length (ro_go (fst rw)) \<and>
        go_step M sites (ro_go (fst rw) ! t, ro_disc (fst rw), snd rw, ro_xc (fst rw)) (g, d, snd rw', x) \<and>
        fst rw' = (fst rw)\<lparr>ro_disc := d, ro_xc := x, ro_go := (ro_go (fst rw))[t := g]\<rparr>)"

definition round_done :: "('a, 'g) demo_round \<Rightarrow> bool" where
  "round_done r \<longleftrightarrow> list_all (\<lambda>g. go_jobs g = []) (ro_go r)"

definition round_close :: "string list \<Rightarrow> ('a, 'g) demo_round \<Rightarrow> ('a, 'g) demo_round" where
  "round_close order r = r\<lparr>ro_xc := xclient_Close order (ro_xc r)\<rparr>"

datatype main_pc =
    MRegistry        \<comment> \<open>waiting for \<^verbatim>\<open>startRegistry\<close>\<close>
  | MServers         \<comment> \<open>waiting for both \<^verbatim>\<open>startServer1\<close>\<close>
  | MCall            \<comment> \<open>in \<^verbatim>\<open>call\<close>\<close>
  | MBroadcast       \<comment> \<open>in \<^verbatim>\<open>broadcast\<close>\<close>
  | MEnded           \<comment> \<open>\<^verbatim>\<open>main\<close> has returned\<close>
  | MExited string   \<comment> \<open>the process was ended by \<^verbatim>\<open>log.Fatal\<close> or a panic\<close>

text \<open>
  \<open>mn_waiting\<close> has the results of \<^verbatim>\<open>net.Listen\<close> of the servers not registered so far, \<open>mn_beats\<close>
  the addresses whose loop of heartbeats goes on.
\<close>

record ('a, 'g) main_state =
  mn_pc :: main_pc
  mn_waiting :: "(goerror + string) list"
  mn_sites :: "string \<rightharpoonup> server"
  mn_beats :: "string list"
  mn_world :: demo_world
  mn_call :: "('a, 'g) demo_round"
  mn_cast :: "('a, 'g) demo_round"

definition main_start :: "('a, 'g) demo_given \<Rightarrow> 'g \<Rightarrow> 'g \<Rightarrow> ('a, 'g) main_state" where
  "main_start M seed1 seed2 =
     \<lparr>mn_pc = MRegistry, mn_waiting = me_listens M, mn_sites = Map.empty, mn_beats = [],
      mn_world = \<lparr>dw_registry = NewSuRegistry defaultTimeout, dw_reads = 0\<rparr>,
      mn_call = round_start M seed1 [''call''], mn_cast = round_start M seed2 [''broadcast'', ''broadcast'']\<rparr>"

definition main_init :: "('a, 'g) demo_given \<Rightarrow> ('a, 'g) main_state \<Rightarrow> bool" where
  "main_init M m \<longleftrightarrow> (\<exists>seed1 seed2. m = main_start M seed1 seed2)"

text \<open>
  The steps of \<^verbatim>\<open>main\<close> and its goroutines, and those of the environment: time passes, and the
  clients live as \<open>xc_step\<close> says. The two servers start in any order.
\<close>

definition client_lives :: "'a xclient \<Rightarrow> 'a xclient \<Rightarrow> bool" where
  "client_lives x x' \<longleftrightarrow>
     (\<exists>i c. i < length (xc_heap x) \<and> (\<not> IsAvailable (xc_heap x ! i) \<longrightarrow> \<not> IsAvailable c) \<and>
        x' = x\<lparr>xc_heap := (xc_heap x)[i := c]\<rparr>)"

inductive main_step :: "('a, 'g) demo_given \<Rightarrow> ('a, 'g) main_state \<Rightarrow> ('a, 'g) main_state \<Rightarrow> bool" for M where
  main_registry:
    "mn_pc m = MRegistry \<Longrightarrow> main_step M m (m\<lparr>mn_pc := MServers\<rparr>)"
| main_crash:
    "mn_pc m \<in> {MServers, MCall, MBroadcast} \<Longrightarrow> fst (startRegistry () (me_registry M) Map.empty) = Panic e \<Longrightarrow>
     main_step M m (m\<lparr>mn_pc := MExited e\<rparr>)"
| main_server:
    "mn_pc m = MServers \<Longrightarrow> mn_waiting m = ls @ l # ls' \<Longrightarrow> startServer l = Ret (addr, server) \<Longrightarrow>
     a = ''tcp@'' @ addr \<Longrightarrow>
     sendHeartBeat (\<lambda>_. True) (demo_Do M [] down) registryAddr a (mn_world m) = (Ret err, w) \<Longrightarrow>
     main_step M m (m\<lparr>mn_waiting := ls @ ls', mn_sites := (mn_sites m)(a \<mapsto> server),
       mn_beats := (if err = None then a # mn_beats m else mn_beats m), mn_world := w\<rparr>)"
| main_no_listener:
    "mn_pc m = MServers \<Longrightarrow> mn_waiting m = ls @ l # ls' \<Longrightarrow> startServer l = Exit e \<Longrightarrow>
     main_step M m (m\<lparr>mn_pc := MExited e\<rparr>)"
| main_registered:
    "mn_pc m = MServers \<Longrightarrow> mn_waiting m = [] \<Longrightarrow> main_step M m (m\<lparr>mn_pc := MCall\<rparr>)"
| main_beat:
    "a \<in> set (mn_beats m) \<Longrightarrow>
     sendHeartBeat (\<lambda>_. True) (demo_Do M [] down) registryAddr a (mn_world m) = (Ret err, w) \<Longrightarrow>
     main_step M m (m\<lparr>mn_beats := (if err = None then mn_beats m else remove1 a (mn_beats m)), mn_world := w\<rparr>)"
| main_call:
    "mn_pc m = MCall \<Longrightarrow> round_step M (mn_sites m) (mn_call m, mn_world m) (r, w) \<Longrightarrow>
     main_step M m (m\<lparr>mn_call := r, mn_world := w\<rparr>)"
| main_called:
    "mn_pc m = MCall \<Longrightarrow> round_done (mn_call m) \<Longrightarrow> set order = dom (xc_clients (ro_xc (mn_call m))) \<Longrightarrow>
     main_step M m (m\<lparr>mn_call := round_close order (mn_call m), mn_pc := MBroadcast\<rparr>)"
| main_cast:
    "mn_pc m = MBroadcast \<Longrightarrow> round_step M (mn_sites m) (mn_cast m, mn_world m) (r, w) \<Longrightarrow>
     main_step M m (m\<lparr>mn_cast := r, mn_world := w\<rparr>)"
| main_casted:
    "mn_pc m = MBroadcast \<Longrightarrow> round_done (mn_cast m) \<Longrightarrow> set order = dom (xc_clients (ro_xc (mn_cast m))) \<Longrightarrow>
     main_step M m (m\<lparr>mn_cast := round_close order (mn_cast m), mn_pc := MEnded\<rparr>)"
| main_time:
    "main_step M m (m\<lparr>mn_world := (mn_world m)\<lparr>dw_reads := Suc (dw_reads (mn_world m))\<rparr>\<rparr>)"
| main_client_call:
    "client_lives (ro_xc (mn_call m)) x \<Longrightarrow> main_step M m (m\<lparr>mn_call := (mn_call m)\<lparr>ro_xc := x\<rparr>\<rparr>)"
| main_client_cast:
    "client_lives (ro_xc (mn_cast m)) x \<Longrightarrow> main_step M m (m\<lparr>mn_cast := (mn_cast m)\<lparr>ro_xc := x\<rparr>\<rparr>)"

subsection \<open>What Call returns\<close>

text \<open>What is assumed of the encoding of bodies: what is decoded is what was encoded.\<close>

definition gob_faithful :: "('a, 'g) demo_given \<Rightarrow> bool" where
  "gob_faithful M \<longleftrightarrow>
     (\<forall>t args args'. me_dec M t (me_enc M args) = Inr args' \<longrightarrow> args' = args) \<and>
     (\<forall>n v. me_reply M (Some n) = Inr v \<longrightarrow> me_val M v = n) \<and> (\<forall>t a. me_dec M t a \<noteq> Inl '''')"

lemma call_outcome_sum:
  assumes "gob_faithful M" and "call_outcome M Foo_server args (None, v)"
  shows "v = Arg1 args + Arg2 args"
proof -
  obtain y i x dur E where E: "E = demo_env Foo_server (me_dec M) (me_reply M) (op_HandleTimeout DefaultOption) dur"
    and y: "reach sy_init (sys_step E) y" and few: "few_calls (sy_client y)" and pc: "cl_pc (sy_client y) i = SReturned None"
    and x: "cl_calls (sy_client y) i = Some x" "rc_Args x = me_enc M args"
      "v = (case rc_Reply x of None \<Rightarrow> 0 | Some (seq, v) \<Rightarrow> me_val M v)"
    using assms(2) by (auto simp: call_outcome_def)
  have errs: "errors_have_text E"
    using assms(1) by (simp add: errors_have_text_def E demo_env_def gob_faithful_def)
  have fields: "en_services E = Foo_server" "en_dec E = me_dec M" "en_reply E = me_reply M" "en_meth E = service_answers Foo_call"
    by (simp_all add: E demo_env_def)
  obtain x' w r t where r: "cl_calls (sy_client y) i = Some x'" "rc_Reply x' = Some (rc_Seq x', w)"
      "me_dec M t (rc_Args x') = Inr (rq_argv r)"
      "findService (rc_ServiceMethod x') Foo_server = Inr (rq_svc r, rq_mType r)" "reply_of E r w"
    by (rule returned_reply [OF system.inv_reach [OF y] few errs pc, unfolded fields]) blast
  have args: "rq_argv r = args" using assms(1) r(1,3) x(1,2) by (auto simp: gob_faithful_def)
  have "res = (None, Arg1 args + Arg2 args)" if "service_answers Foo_call r res" for res
    using Foo_answers [OF that r(4)] args by simp
  then have "me_reply M (Some (Arg1 args + Arg2 args)) = Inr w"
    using r(5) unfolding reply_of_def fields by fastforce
  then show ?thesis using assms(1) r(1,2) x by (simp add: gob_faithful_def)
qed

subsection \<open>The registry and the discovery\<close>

lemma alive_loop_known:
  "set (fst (alive_loop clock n order alive s)) \<subseteq> set alive \<union> set order"
  "dom (reg_servers (snd (alive_loop clock n order alive s))) \<subseteq> dom (reg_servers s)"
proof (induction order arbitrary: n alive s)
  case (Cons addr order)
  {
    case 1
    then show ?case
      using Cons(1) [of n alive s] Cons(1) [of n "alive @ [addr]" s] Cons(1) [of "Suc n" "alive @ [addr]" s]
        Cons(1) [of "Suc n" alive "s\<lparr>reg_servers := (reg_servers s)(addr := None)\<rparr>"]
      by (auto split: option.split)
  next
    case 2
    have "dom ((reg_servers s)(addr := None)) \<subseteq> dom (reg_servers s)" by auto
    then show ?case
      using Cons(2) [of n alive s] Cons(2) [of n "alive @ [addr]" s] Cons(2) [of "Suc n" "alive @ [addr]" s]
        Cons(2) [of "Suc n" alive "s\<lparr>reg_servers := (reg_servers s)(addr := None)\<rparr>", THEN order_trans]
      by (simp split: option.split del: dom_fun_upd fun_upd_apply)
  }
qed simp_all

text \<open>The registry holds addresses of \<open>S\<close>, and a discovery has fetched a list from it or none.\<close>

definition world_ok :: "string set \<Rightarrow> demo_world \<Rightarrow> bool" where
  "world_ok S w \<longleftrightarrow> dom (reg_servers (dw_registry w)) \<subseteq> S"

definition disc_ok :: "string set \<Rightarrow> 'g reg_disc \<Rightarrow> bool" where
  "disc_ok S d \<longleftrightarrow> set (md_servers (sd_multi d)) \<subseteq> insert '''' S \<and> sd_timeout d = defaultUpdateTimeout \<and>
     (sd_lastUpdate d = zero_time \<or> '''' \<in> set (md_servers (sd_multi d)))"

lemma demo_Get_known:
  assumes w: "world_ok S w" and S: "\<forall>a \<in> S. plain_address a" and order: "visit_order (dw_registry w) order"
    and get: "demo_Get M order down url w = (r, w')"
  shows "world_ok S w'"
    and "r = Inr header \<Longrightarrow> set (refresh_servers header) \<subseteq> insert '''' S \<and> '''' \<in> set (refresh_servers header)"
proof -
  obtain alive s1 where alive: "aliveServers order (\<lambda>k. me_clock M (dw_reads w + k)) (dw_registry w) = (alive, s1)"
    by fastforce
  obtain keep where keep: "alive_loop (\<lambda>k. me_clock M (dw_reads w + k)) 0 order [] (dw_registry w) = (keep, s1)"
      "alive = sort keep"
    using alive by (auto simp: aliveServers_def split: prod.splits)
  have s1: "dom (reg_servers s1) \<subseteq> S"
    using alive_loop_known(2) [of "\<lambda>k. me_clock M (dw_reads w + k)" 0 order "[]" "dw_registry w"] w
    unfolding keep(1) world_ok_def by auto
  have known: "set alive \<subseteq> S"
    using alive_loop_known(1) [of "\<lambda>k. me_clock M (dw_reads w + k)" 0 order "[]" "dw_registry w"] w order
    unfolding keep world_ok_def visit_order_def by auto
  show "world_ok S w'"
    using get w s1 by (auto simp: demo_Get_def demo_Do_def registry_Do_def registry_ServeHTTP_def alive world_ok_def
      split: option.splits)
  assume "r = Inr header"
  then have "header = go_join '','' alive"
    using get by (auto simp: demo_Get_def demo_Do_def registry_Do_def registry_ServeHTTP_def alive rw_finish_def
      rw_Set_def rw_new_def rw_WriteHeader_def sent_header_def split: option.splits)
  moreover have "list_all plain_address alive" using known S by (auto simp: list_all_iff)
  ultimately show "set (refresh_servers header) \<subseteq> insert '''' S \<and> '''' \<in> set (refresh_servers header)"
    using refresh_join [of alive] known by auto
qed

text \<open>The clock of the demo is later than the zero time by more than the discovery's timeout.\<close>

definition clock_started :: "('a, 'g) demo_given \<Rightarrow> bool" where
  "clock_started M \<longleftrightarrow> (\<forall>k. zero_time + defaultUpdateTimeout \<le> me_clock M k)"

lemma demo_Refresh_known:
  assumes w: "world_ok S w" and S: "\<forall>a \<in> S. plain_address a" and d: "disc_ok S d" and clock: "clock_started M"
    and order: "visit_order (dw_registry w) order"
    and run: "reg_disc_Refresh (demo_Now M) (demo_Get M order down) (d, w) = (err, (d', w'))"
  shows "world_ok S w' \<and> disc_ok S d' \<and> (err = None \<longrightarrow> '''' \<in> set (md_servers (sd_multi d'))) \<and>
    ('''' \<in> set (md_servers (sd_multi d)) \<longrightarrow> '''' \<in> set (md_servers (sd_multi d')))"
proof -
  obtain now w1 where now: "demo_Now M w = (now, w1)" by fastforce
  then have w1: "world_ok S w1" "dw_registry w1 = dw_registry w" "now = me_clock M (dw_reads w)"
    using w by (auto simp: demo_Now_def world_ok_def)
  show ?thesis
  proof (cases "now < sd_lastUpdate d + sd_timeout d")
    case True
    then have "sd_lastUpdate d \<noteq> zero_time"
      using clock d w1(3) unfolding clock_started_def disc_ok_def by (metis not_less)
    with True run d w1 now show ?thesis by (auto simp: reg_disc_Refresh_def disc_ok_def)
  next
    case False
    obtain r w2 where get: "demo_Get M order down (sd_registry d) w1 = (r, w2)" by fastforce
    note known = demo_Get_known [OF w1(1) S _ get, unfolded w1(2), OF order]
    show ?thesis
    proof (cases r)
      case (Inl e)
      with False run now get known d show ?thesis by (auto simp: reg_disc_Refresh_def)
    next
      case (Inr header)
      with False run now get known d show ?thesis
        by (auto simp: reg_disc_Refresh_def demo_Now_def world_ok_def disc_ok_def)
    qed
  qed
qed

lemma sendHeartBeat_known:
  assumes "world_ok S w" and "sendHeartBeat (\<lambda>_. True) (demo_Do M order down) url a w = (Ret err, w')"
  shows "world_ok (insert a S) w'"
proof -
  have "dom (reg_servers (putServer a now s)) = insert a (dom (reg_servers s))" for now s
    by (auto simp: putServer_def split: option.split)
  moreover have "dw_registry w' = dw_registry w \<or> (\<exists>now. dw_registry w' = putServer a now (dw_registry w))"
    using assms(2)
    by (auto simp: sendHeartBeat_def demo_Do_def registry_Do_def registry_ServeHTTP_def split: option.splits if_splits)
  ultimately show ?thesis using assms(1) unfolding world_ok_def by (metis insert_mono subset_insertI2)
qed

lemma world_ok_mono: "world_ok S w \<Longrightarrow> S \<subseteq> S' \<Longrightarrow> world_ok S' w"
  by (auto simp: world_ok_def)

lemma disc_ok_mono: "disc_ok S d \<Longrightarrow> S \<subseteq> S' \<Longrightarrow> disc_ok S' d"
  by (auto simp: disc_ok_def)


subsection \<open>What a goroutine logs\<close>

text \<open>The addresses \<open>S\<close> are those of the demo's servers.\<close>

definition sites_ok :: "(string \<rightharpoonup> server) \<Rightarrow> bool" where
  "sites_ok sites \<longleftrightarrow> (\<forall>a s. sites a = Some s \<longrightarrow> s = Foo_server \<and> plain_address a)"

definition xc_ok :: "'a xclient \<Rightarrow> bool" where
  "xc_ok x \<longleftrightarrow> xc_inv x \<and> xc_clients x '''' = None"

fun call_pc_ok :: "string set \<Rightarrow> foo_args \<Rightarrow> call_pc \<Rightarrow> bool" where
  "call_pc_ok S args (CDial a) \<longleftrightarrow> a \<in> insert '''' S"
| "call_pc_ok S args (CRemote a i) \<longleftrightarrow> a \<in> S"
| "call_pc_ok S args (CResult res) \<longleftrightarrow> (fst res = None \<longrightarrow> snd res = Arg1 args + Arg2 args)"

definition fails :: "call_pc \<Rightarrow> bool" where
  "fails p \<longleftrightarrow> p = CDial '''' \<or> (\<exists>e v. p = CResult (Some e, v))"

lemma xcall_known:
  assumes "xcall_step M sites args (p, x) (p', x')" and "call_pc_ok (dom sites) args p" and "xc_ok x"
    and "sites_ok sites" and "gob_faithful M"
  shows "call_pc_ok (dom sites) args p' \<and> xc_ok x' \<and> (fails p \<longrightarrow> fails p')"
  using assms(1)
proof cases
  case (xcall_dial_fails xdial read_headers answer encode_err in_time dur net_dial a err)
  note dial = xcall_dial_fails(4)
  have "xc_clients x' '''' = None" using dial_cases [OF dial] assms(3) by (auto simp: xc_ok_def close_client_def)
  with dial_inv [OF _ dial] assms(3) xcall_dial_fails(2) show ?thesis by (simp add: xc_ok_def fails_def)
next
  case (xcall_dial xdial read_headers answer encode_err in_time dur net_dial a i)
  note dial = xcall_dial(4)
  have empty: "xdial '''' \<noteq> Inr c" for c unfolding xcall_dial(3) by (simp add: XDial_empty)
  have "a \<noteq> ''''" using dial_cases [OF dial] assms(3) empty by (auto simp: xc_ok_def)
  moreover from this have "xc_clients x' '''' = None"
    using dial_cases [OF dial] assms(3) by (auto simp: xc_ok_def close_client_def)
  ultimately show ?thesis
    using dial_inv [OF _ dial] assms(2,3) xcall_dial(1,2) by (auto simp: xc_ok_def fails_def)
next
  case (xcall_remote a res i)
  then obtain server where "sites a = Some server" using assms(2) by auto
  with xcall_remote assms(4) have "call_outcome M Foo_server args res" by (auto simp: sites_ok_def)
  then have "fst res = None \<longrightarrow> snd res = Arg1 args + Arg2 args"
    using call_outcome_sum [OF assms(5), of args "snd res"] by (cases res) auto
  with xcall_remote assms(3) show ?thesis by (simp add: fails_def)
qed

definition line_ok :: "string \<Rightarrow> foo_args \<Rightarrow> string \<Rightarrow> bool" where
  "line_ok typ args line \<longleftrightarrow> (\<exists>e v. line = foo_line typ args (Some e, v)) \<or>
     typ = ''call'' \<and> line = foo_line typ args (None, Arg1 args + Arg2 args)"

definition cast_ok :: "string set \<Rightarrow> foo_args \<Rightarrow> call_pc option list \<Rightarrow> int64 broadcast \<Rightarrow> bool" where
  "cast_ok S args ps b \<longleftrightarrow> (\<forall>p. Some p \<in> set ps \<longrightarrow> call_pc_ok S args p) \<and>
     (bc_e b \<noteq> None \<or> (\<exists>p. Some p \<in> set ps \<and> fails p))"

definition go_ok :: "string set \<Rightarrow> string list \<Rightarrow> string list \<Rightarrow> goroutine \<Rightarrow> bool" where
  "go_ok S servers jobs g \<longleftrightarrow>
     (\<exists>done. jobs = done @ go_jobs g \<and> list_all2 (\<lambda>typ. line_ok typ (go_args g)) done (go_log g)) \<and>
     (case go_pc g of
        FStart \<Rightarrow> True
      | FRefreshed \<Rightarrow> '''' \<in> set servers
      | FCall p \<Rightarrow> call_pc_ok S (go_args g) p
      | FCast ps b \<Rightarrow> cast_ok S (go_args g) ps b)"

lemma go_end_ok:
  assumes "go_ok S servers jobs g" and "go_jobs g = typ # js" and "line_ok typ (go_args g) (foo_line typ (go_args g) res)"
  shows "go_ok S servers' jobs (go_end res g)"
proof -
  obtain prev where "jobs = prev @ go_jobs g" "list_all2 (\<lambda>typ. line_ok typ (go_args g)) prev (go_log g)"
    using assms(1) by (auto simp: go_ok_def)
  with assms(2,3) show ?thesis
    unfolding go_ok_def by (auto simp: go_end_def intro!: exI [of _ "prev @ [typ]"] list_all2_appendI)
qed

lemma broadcast_one_e: "bc_e (broadcast_one res b) = (if bc_e b = None then fst res else bc_e b)"
  by (auto simp: broadcast_one_def Let_def split: prod.splits)

lemma set_list_update_elem: "q \<in> set (xs[k := y]) \<Longrightarrow> q = y \<or> q \<in> set xs"
  using set_update_subset_insert by fastforce

lemma list_update_keeps: "k < length xs \<Longrightarrow> q \<in> set xs \<Longrightarrow> q \<noteq> xs ! k \<Longrightarrow> q \<in> set (xs[k := y])"
  by (metis in_set_conv_nth length_list_update nth_list_update_neq)


text \<open>What is assumed of everything that is given; addresses of listeners have no comma and no space.\<close>

definition given_ok :: "('a, 'g) demo_given \<Rightarrow> bool" where
  "given_ok M \<longleftrightarrow> gob_faithful M \<and> clock_started M \<and> (\<forall>n g. 0 < n \<longrightarrow> fst (me_intn M n g) < n) \<and>
     (\<forall>addr. Inr addr \<in> set (me_listens M) \<longrightarrow> plain_address (''tcp@'' @ addr))"

lemma go_step_ok:
  assumes "go_step M sites (g, d, w, x) (g', d', w', x')" and given: "given_ok M" and sites: "sites_ok sites"
    and w: "world_ok (dom sites) w" and d: "disc_ok (dom sites) d" and x: "xc_ok x"
    and g: "go_ok (dom sites) (md_servers (sd_multi d)) jobs g"
  shows "world_ok (dom sites) w' \<and> disc_ok (dom sites) d' \<and> xc_ok x' \<and> go_args g' = go_args g \<and>
    ('''' \<in> set (md_servers (sd_multi d)) \<longrightarrow> '''' \<in> set (md_servers (sd_multi d'))) \<and>
    go_ok (dom sites) (md_servers (sd_multi d')) jobs g'"
proof -
  let ?S = "dom sites"
  have gob: "gob_faithful M" and clock: "clock_started M" and intn: "\<And>n g. 0 < n \<Longrightarrow> fst (me_intn M n g) < n"
    using given by (simp_all add: given_ok_def)
  have plain: "\<forall>a \<in> ?S. plain_address a" using sites by (auto simp: sites_ok_def)
  have failed: "line_ok typ (go_args g) (foo_line typ (go_args g) (Some e, v))" for "typ" e v
    by (auto simp: line_ok_def)
  have start: "\<exists>done. jobs = done @ go_jobs g \<and> list_all2 (\<lambda>typ. line_ok typ (go_args g)) done (go_log g)"
    using g by (simp add: go_ok_def)
  from assms(1) show ?thesis
  proof cases
    case (go_refresh_fails "typ" js order down err)
    from demo_Refresh_known [OF w plain d clock go_refresh_fails(5,6)] go_end_ok [OF g go_refresh_fails(3) failed] x
    show ?thesis by (simp add: go_refresh_fails(1,2)) (simp add: go_end_def)
  next
    case (go_refresh "typ" js order down)
    from demo_Refresh_known [OF w plain d clock go_refresh(5,6)] x start show ?thesis
      by (simp add: go_refresh(1,2) go_ok_def)
  next
    case (go_no_server js err m)
    have "md_servers m = md_servers (sd_multi d)"
      using go_no_server(7) by (auto simp: multi_Get_def Let_def split: if_splits prod.splits)
    with go_end_ok [OF g go_no_server(5) failed] w d x show ?thesis
      by (simp add: go_no_server(1-4) disc_ok_def) (simp add: go_end_def)
  next
    case (go_pick js a m)
    have "md_servers m = md_servers (sd_multi d)" "a \<in> set (md_servers (sd_multi d))"
      using multi_Get_member [OF intn go_pick(7)] by auto
    with w d x start show ?thesis by (auto simp: go_pick(1-4) disc_ok_def go_ok_def)
  next
    case (go_call js p p')
    have "call_pc_ok ?S (go_args g) p" using g go_call(5) by (simp add: go_ok_def)
    from xcall_known [OF go_call(6) this x sites gob] w d start show ?thesis
      by (simp add: go_call(1-3) go_ok_def)
  next
    case (go_called js res)
    have "fst res = None \<longrightarrow> snd res = Arg1 (go_args g) + Arg2 (go_args g)" using g go_called(6) by (simp add: go_ok_def)
    then have "line_ok ''call'' (go_args g) (foo_line ''call'' (go_args g) res)"
      by (cases res; cases "fst res") (auto simp: line_ok_def)
    from go_end_ok [OF g go_called(5) this] w d x show ?thesis by (simp add: go_called(1-4)) (simp add: go_end_def)
  next
    case (go_all js servers m)
    have m: "servers = md_servers (sd_multi d)" "m = sd_multi d" using go_all(7) by (auto simp: multi_GetAll_def)
    have "'''' \<in> set servers" using g go_all(6) m(1) by (simp add: go_ok_def)
    then have "cast_ok ?S (go_args g) (map (\<lambda>a. Some (CDial a)) servers)
        \<lparr>bc_e = None, bc_replyDone = False, bc_reply = Some 0, bc_cancelled = False\<rparr>"
      using d m(1) by (fastforce simp: cast_ok_def fails_def disc_ok_def)
    with w d x start show ?thesis by (simp add: go_all(1-4) m(2) go_ok_def)
  next
    case (go_cast js ps b k p p')
    have cast: "cast_ok ?S (go_args g) ps b" using g go_cast(5) by (simp add: go_ok_def)
    have elem: "Some p \<in> set ps" using go_cast(6,7) by (metis nth_mem)
    then have "call_pc_ok ?S (go_args g) p" using cast by (simp add: cast_ok_def)
    note known = xcall_known [OF go_cast(8) this x sites gob]
    have now: "Some p' \<in> set (ps[k := Some p'])" using go_cast(6) by (rule set_update_memI)
    have "cast_ok ?S (go_args g) (ps[k := Some p']) b"
      unfolding cast_ok_def
    proof (intro conjI allI impI)
      show "call_pc_ok ?S (go_args g) q" if "Some q \<in> set (ps[k := Some p'])" for q
        using set_list_update_elem [OF that] known cast by (auto simp: cast_ok_def)
      show "bc_e b \<noteq> None \<or> (\<exists>q. Some q \<in> set (ps[k := Some p']) \<and> fails q)"
        using cast known now list_update_keeps [OF go_cast(6)] go_cast(7) unfolding cast_ok_def by (metis option.inject)
    qed
    with known w d start show ?thesis by (simp add: go_cast(1-3) go_ok_def)
  next
    case (go_merge js ps b k res)
    have cast: "cast_ok ?S (go_args g) ps b" using g go_merge(6) by (simp add: go_ok_def)
    have "cast_ok ?S (go_args g) (ps[k := None]) (broadcast_one res b)"
      unfolding cast_ok_def
    proof (intro conjI allI impI)
      show "call_pc_ok ?S (go_args g) q" if "Some q \<in> set (ps[k := None])" for q
        using set_list_update_elem [OF that] cast by (auto simp: cast_ok_def)
      show "bc_e (broadcast_one res b) \<noteq> None \<or> (\<exists>q. Some q \<in> set (ps[k := None]) \<and> fails q)"
      proof (cases "bc_e b = None")
        case True
        then obtain q where q: "Some q \<in> set ps" "fails q" using cast by (auto simp: cast_ok_def)
        show ?thesis
        proof (cases "q = CResult res")
          case True
          then have "fst res \<noteq> None" using q(2) by (auto simp: fails_def)
          then show ?thesis by (simp add: broadcast_one_e)
        next
          case False
          with q list_update_keeps [OF go_merge(7) q(1)] go_merge(8) show ?thesis by auto
        qed
      qed (auto simp: broadcast_one_e)
    qed
    with w d x start show ?thesis by (simp add: go_merge(1-4) go_ok_def)
  next
    case (go_casted js ps b v)
    have "cast_ok ?S (go_args g) ps b" using g go_casted(6) by (simp add: go_ok_def)
    then have "bc_e b \<noteq> None" using go_casted(7) by (auto simp: cast_ok_def)
    then obtain e where "bc_e b = Some e" by blast
    then have "line_ok ''broadcast'' (go_args g) (foo_line ''broadcast'' (go_args g) (bc_e b, v))"
      using failed by simp
    from go_end_ok [OF g go_casted(5) this] w d x show ?thesis by (simp add: go_casted(1-4)) (simp add: go_end_def)
  qed
qed


subsection \<open>The invariant of main\<close>

lemma call_pc_ok_mono: "call_pc_ok S args p \<Longrightarrow> S \<subseteq> S' \<Longrightarrow> call_pc_ok S' args p"
  by (cases p) auto

lemma go_ok_mono:
  assumes "go_ok S servers jobs g" and "S \<subseteq> S'" and "'''' \<in> set servers \<Longrightarrow> '''' \<in> set servers'"
  shows "go_ok S' servers' jobs g"
  using assms(1,3) call_pc_ok_mono [OF _ assms(2)]
  unfolding go_ok_def cast_ok_def by (auto split: foo_pc.splits)

definition round_ok :: "string set \<Rightarrow> string list \<Rightarrow> ('a, 'g) demo_round \<Rightarrow> bool" where
  "round_ok S jobs r \<longleftrightarrow> disc_ok S (ro_disc r) \<and> xc_ok (ro_xc r) \<and> map go_args (ro_go r) = demo_args \<and>
     (\<forall>g \<in> set (ro_go r). go_ok S (md_servers (sd_multi (ro_disc r))) jobs g)"

lemma round_ok_mono: "round_ok S jobs r \<Longrightarrow> S \<subseteq> S' \<Longrightarrow> round_ok S' jobs r"
  using disc_ok_mono go_ok_mono unfolding round_ok_def by blast

lemma round_start_ok: "round_ok S jobs (round_start M seed jobs)"
  by (simp add: round_ok_def round_start_def disc_ok_def NewSuRegistryDiscovery_def NewMultiServerDiscovery_def Let_def
    xc_ok_def xc_inv_def NewXClient_def go_ok_def comp_def split: prod.split)

lemma round_step_ok:
  assumes "round_step M sites (r, w) (r', w')" and "given_ok M" and "sites_ok sites"
    and "world_ok (dom sites) w" and "round_ok (dom sites) jobs r"
  shows "world_ok (dom sites) w' \<and> round_ok (dom sites) jobs r'"
proof -
  obtain t g d x where t: "t < length (ro_go r)"
    and step: "go_step M sites (ro_go r ! t, ro_disc r, w, ro_xc r) (g, d, w', x)"
    and r': "r' = r\<lparr>ro_disc := d, ro_xc := x, ro_go := (ro_go r)[t := g]\<rparr>"
    using assms(1) by (auto simp: round_step_def)
  have r: "disc_ok (dom sites) (ro_disc r)" "xc_ok (ro_xc r)" "map go_args (ro_go r) = demo_args"
      "\<And>h. h \<in> set (ro_go r) \<Longrightarrow> go_ok (dom sites) (md_servers (sd_multi (ro_disc r))) jobs h"
    using assms(5) by (simp_all add: round_ok_def)
  note known = go_step_ok [OF step assms(2-4) r(1,2) r(4) [OF nth_mem [OF t]]]
  have "map go_args ((ro_go r)[t := g]) = demo_args"
    using known r(3) t by (metis list_update_id map_update nth_map)
  moreover have "go_ok (dom sites) (md_servers (sd_multi d)) jobs h" if "h \<in> set ((ro_go r)[t := g])" for h
    using set_list_update_elem [OF that] known go_ok_mono [OF r(4), of h "dom sites"] by blast
  ultimately show ?thesis using known by (simp add: r' round_ok_def)
qed

text \<open>A round that is over: all goroutines are done and all clients closed or broken.\<close>

definition round_over :: "('a, 'g) demo_round \<Rightarrow> bool" where
  "round_over r \<longleftrightarrow> round_done r \<and> (\<forall>c \<in> set (xc_heap (ro_xc r)). \<not> IsAvailable c)"

lemma round_close_ok:
  assumes "round_ok S jobs r" and "round_done r" and "set order = dom (xc_clients (ro_xc r))"
  shows "round_ok S jobs (round_close order r) \<and> round_over (round_close order r)"
proof -
  have x: "xc_inv (ro_xc r)" "xc_clients (ro_xc r) '''' = None" using assms(1) by (simp_all add: round_ok_def xc_ok_def)
  have none: "xc_clients (xclient_Close order (ro_xc r)) = Map.empty"
    unfolding Close_clients assms(3) by (auto simp: restrict_map_def fun_eq_iff dom_def)
  then have "\<not> IsAvailable c" if "c \<in> set (xc_heap (xclient_Close order (ro_xc r)))" for c
    using Close_inv [OF x(1), of order] that by (auto simp: xc_inv_def in_set_conv_nth)
  with none Close_inv [OF x(1), of order] assms(1,2) show ?thesis
    by (auto simp: round_ok_def round_over_def round_close_def round_done_def xc_ok_def)
qed

lemma client_lives_ok:
  assumes "client_lives (ro_xc r) x" and "round_ok S jobs r"
  shows "round_ok S jobs (r\<lparr>ro_xc := x\<rparr>) \<and> (round_over r \<longrightarrow> round_over (r\<lparr>ro_xc := x\<rparr>))"
proof -
  obtain i c where i: "i < length (xc_heap (ro_xc r))" "\<not> IsAvailable (xc_heap (ro_xc r) ! i) \<longrightarrow> \<not> IsAvailable c"
      "x = (ro_xc r)\<lparr>xc_heap := (xc_heap (ro_xc r))[i := c]\<rparr>"
    using assms(1) by (auto simp: client_lives_def)
  have "xc_inv x" using xc_step_inv [OF _ xc_client [OF i(1,2)]] assms(2) i(3) by (simp add: round_ok_def xc_ok_def)
  moreover have "\<not> IsAvailable d" if "round_over r" "d \<in> set (xc_heap x)" for d
    using set_list_update_elem [of d "xc_heap (ro_xc r)" i c] that i by (auto simp: round_over_def)
  ultimately show ?thesis
    using assms(2) i(3) by (auto simp: round_ok_def round_over_def round_done_def xc_ok_def)
qed

definition main_inv :: "('a, 'g) demo_given \<Rightarrow> ('a, 'g) main_state \<Rightarrow> bool" where
  "main_inv M m \<longleftrightarrow> (given_ok M \<longrightarrow>
     sites_ok (mn_sites m) \<and> world_ok (dom (mn_sites m)) (mn_world m) \<and> set (mn_waiting m) \<subseteq> set (me_listens M) \<and>
     set (mn_beats m) \<subseteq> dom (mn_sites m) \<and>
     round_ok (dom (mn_sites m)) [''call''] (mn_call m) \<and>
     round_ok (dom (mn_sites m)) [''broadcast'', ''broadcast''] (mn_cast m) \<and>
     (mn_pc m \<in> {MBroadcast, MEnded} \<longrightarrow> round_over (mn_call m)) \<and> (mn_pc m = MEnded \<longrightarrow> round_over (mn_cast m)))"

lemma main_step_inv:
  assumes inv: "main_inv M m" and step: "main_step M m m'"
  shows "main_inv M m'"
proof (cases "given_ok M")
  case given: True
  let ?S = "dom (mn_sites m)"
  have parts: "sites_ok (mn_sites m)" "world_ok ?S (mn_world m)" "set (mn_waiting m) \<subseteq> set (me_listens M)"
      "set (mn_beats m) \<subseteq> ?S" "round_ok ?S [''call''] (mn_call m)" "round_ok ?S [''broadcast'', ''broadcast''] (mn_cast m)"
      "mn_pc m \<in> {MBroadcast, MEnded} \<longrightarrow> round_over (mn_call m)" "mn_pc m = MEnded \<longrightarrow> round_over (mn_cast m)"
    using inv given unfolding main_inv_def by blast+
  from step show ?thesis
  proof cases
    case (main_server ls l ls' addr server a down err w)
    obtain addr' where l: "l = Inr addr'" using main_server(4) by (cases l) (auto simp: startServer_def)
    then have server: "server = Foo_server" "addr = addr'" using main_server(4) by (simp_all add: startServer_server)
    have "plain_address a" using given l parts(3) main_server(3,5) server by (auto simp: given_ok_def)
    then have "sites_ok (mn_sites m')" using parts(1) server by (auto simp: sites_ok_def main_server(1))
    moreover have "dom (mn_sites m') = insert a ?S" by (simp add: main_server(1))
    moreover have "world_ok (insert a ?S) w" by (rule sendHeartBeat_known [OF parts(2) main_server(6)])
    moreover note round_ok_mono [OF parts(5), of "insert a ?S"] round_ok_mono [OF parts(6), of "insert a ?S"]
    ultimately show ?thesis
      using parts(3,4) main_server(2,3) by (auto simp: main_inv_def main_server(1))
  next
    case (main_beat a down err w)
    have "a \<in> ?S" using main_beat(2) parts(4) by blast
    then have "world_ok ?S w" using sendHeartBeat_known [OF parts(2) main_beat(3)] by (simp add: insert_absorb)
    then show ?thesis using parts set_remove1_subset [of a "mn_beats m"] by (auto simp: main_inv_def main_beat(1))
  next
    case (main_call r w)
    with round_step_ok [OF main_call(3) given parts(1,2,5)] parts show ?thesis by (simp add: main_inv_def)
  next
    case (main_called order)
    with round_close_ok [OF parts(5) main_called(3,4)] parts show ?thesis by (simp add: main_inv_def)
  next
    case (main_cast r w)
    with round_step_ok [OF main_cast(3) given parts(1,2,6)] parts show ?thesis by (simp add: main_inv_def)
  next
    case (main_casted order)
    with round_close_ok [OF parts(6) main_casted(3,4)] parts show ?thesis by (simp add: main_inv_def)
  next
    case (main_client_call x)
    with client_lives_ok [OF main_client_call(2) parts(5)] parts show ?thesis by (simp add: main_inv_def)
  next
    case (main_client_cast x)
    with client_lives_ok [OF main_client_cast(2) parts(6)] parts show ?thesis by (simp add: main_inv_def)
  qed (use parts in \<open>simp_all add: main_inv_def world_ok_def\<close>)
qed (simp add: main_inv_def)

interpretation main: inductive_invariant "main_init M" "main_step M" "main_inv M" for M
proof
  show "main_inv M m" if "main_init M m" for m
    using that round_start_ok
    by (auto simp: main_init_def main_inv_def main_start_def sites_ok_def world_ok_def NewSuRegistry_def)
qed (rule main_step_inv)


subsection \<open>What the demo prints\<close>

lemma demo_args_nth: "t < 5 \<Longrightarrow> demo_args ! t = \<lparr>Arg1 = of_nat t, Arg2 = of_nat (t * t)\<rparr>"
  by (simp add: demo_args_def)

lemma demo_sints:
  assumes "t < 5"
  shows "sint (of_nat t :: int64) = int t" "sint (of_nat (t * t) :: int64) = int (t * t)"
    "sint (of_nat t + of_nat (t * t) :: int64) = int (t + t * t)"
proof -
  have "t \<in> set [0..<5]" using assms by simp
  then have "t \<in> {0, 1, 2, 3, 4}" by (auto simp: upt_rec)
  then show "sint (of_nat t :: int64) = int t" "sint (of_nat (t * t) :: int64) = int (t * t)"
    "sint (of_nat t + of_nat (t * t) :: int64) = int (t + t * t)" by auto
qed

lemma foo_line_error:
  "typ \<in> {''call'', ''broadcast''} \<Longrightarrow> \<exists>e. foo_line typ args (Some err, v) = typ @ '' Foo.Sum error: '' @ e"
  by (auto simp: foo_line_def foo_run_def)

lemma foo_line_sum:
  "t < 5 \<Longrightarrow> foo_line ''call'' (demo_args ! t) (None, Arg1 (demo_args ! t) + Arg2 (demo_args ! t))
    = ''call Foo.Sum success: '' @ itoa (int t) @ '' + '' @ itoa (int (t * t)) @ '' = '' @ itoa (int (t + t * t))"
  by (simp add: demo_args_nth foo_line_def foo_run_def demo_sints del: of_nat_mult of_nat_add)

lemma go_logged:
  assumes "round_ok S jobs r" and "t < 5"
  obtains prev g where "g = ro_go r ! t" "g \<in> set (ro_go r)" "jobs = prev @ go_jobs g"
    "list_all2 (\<lambda>typ. line_ok typ (demo_args ! t)) prev (go_log g)"
proof -
  let ?g = "ro_go r ! t"
  have args: "map go_args (ro_go r) = demo_args" using assms(1) by (simp add: round_ok_def)
  then have len: "t < length (ro_go r)" using assms(2) length_map [of go_args "ro_go r"] by (simp add: demo_args_def)
  then have g: "?g \<in> set (ro_go r)" "go_args ?g = demo_args ! t" using args by (simp_all flip: args)
  then have "go_ok S (md_servers (sd_multi (ro_disc r))) jobs ?g" using assms(1) by (simp add: round_ok_def)
  then show ?thesis using that g by (auto simp: go_ok_def)
qed

text \<open>
  Property C6. What the whole demo prints. The registry, the heartbeats of both servers, the discovery of
  the clients, dialling, the remote calls and the goroutines of \<^verbatim>\<open>main\<close> together, in any
  interleaving: the \<open>t\<close>-th goroutine of \<^verbatim>\<open>call\<close> logs nothing but the right sum of its own two
  numbers or an error; every line that \<^verbatim>\<open>broadcast\<close> logs is an error, although all servers may
  be up; and when \<^verbatim>\<open>main\<close> returns, each goroutine has logged one line for each of its calls and no client
  is left open.
\<close>

theorem demo_main_prints:
  assumes "given_ok M" and "reach (main_init M) (main_step M) m" and "t < 5"
  shows "(line \<in> set (go_log (ro_go (mn_call m) ! t)) \<longrightarrow>
      line = ''call Foo.Sum success: '' @ itoa (int t) @ '' + '' @ itoa (int (t * t)) @ '' = '' @ itoa (int (t + t * t)) \<or>
      hasPrefix line ''call Foo.Sum error: '') \<and>
    (line \<in> set (go_log (ro_go (mn_cast m) ! t)) \<longrightarrow> hasPrefix line ''broadcast Foo.Sum error: '') \<and>
    (mn_pc m = MEnded \<longrightarrow> length (go_log (ro_go (mn_call m) ! t)) = 1 \<and> length (go_log (ro_go (mn_cast m) ! t)) = 2 \<and>
       (\<forall>c \<in> set (xc_heap (ro_xc (mn_call m))) \<union> set (xc_heap (ro_xc (mn_cast m))). \<not> IsAvailable c))"
proof -
  have "main_inv M m" by (rule main.inv_reach [OF assms(2)])
  then have call: "round_ok (dom (mn_sites m)) [''call''] (mn_call m)"
    and cast: "round_ok (dom (mn_sites m)) [''broadcast'', ''broadcast''] (mn_cast m)"
    and over: "mn_pc m = MEnded \<longrightarrow> round_over (mn_call m) \<and> round_over (mn_cast m)"
    using assms(1) unfolding main_inv_def by blast+
  obtain prev g where g: "g = ro_go (mn_call m) ! t" "g \<in> set (ro_go (mn_call m))" "[''call''] = prev @ go_jobs g"
    "list_all2 (\<lambda>typ. line_ok typ (demo_args ! t)) prev (go_log g)"
    by (rule go_logged [OF call assms(3)])
  obtain prev' g' where g': "g' = ro_go (mn_cast m) ! t" "g' \<in> set (ro_go (mn_cast m))"
    "[''broadcast'', ''broadcast''] = prev' @ go_jobs g'"
    "list_all2 (\<lambda>typ. line_ok typ (demo_args ! t)) prev' (go_log g')"
    by (rule go_logged [OF cast assms(3)])
  have typs: "set prev \<subseteq> {''call''}" "set prev' \<subseteq> {''broadcast''}"
    using arg_cong [OF g(3), of set] arg_cong [OF g'(3), of set] by auto
  have err: "\<exists>e'. foo_line ''call'' (demo_args ! t) (Some e, v) = ''call'' @ '' Foo.Sum error: '' @ e'"
    "\<exists>e'. foo_line ''broadcast'' (demo_args ! t) (Some e, v) = ''broadcast'' @ '' Foo.Sum error: '' @ e'" for e v
    by (rule foo_line_error; simp)+
  have line: "line_ok ''call'' (demo_args ! t) line" if "line \<in> set (go_log g)"
    using g(4) that typs(1) by (fastforce simp: list_all2_conv_all_nth in_set_conv_nth)
  have line': "line_ok ''broadcast'' (demo_args ! t) line" if "line \<in> set (go_log g')"
    using g'(4) that typs(2) by (fastforce simp: list_all2_conv_all_nth in_set_conv_nth)
  have "line = ''call Foo.Sum success: '' @ itoa (int t) @ '' + '' @ itoa (int (t * t)) @ '' = '' @ itoa (int (t + t * t)) \<or>
      hasPrefix line ''call Foo.Sum error: ''" if "line \<in> set (go_log g)"
    using line [OF that] err(1) foo_line_sum [OF assms(3)] unfolding line_ok_def hasPrefix_iff by fastforce
  moreover have "hasPrefix line ''broadcast Foo.Sum error: ''" if "line \<in> set (go_log g')"
    using line' [OF that] err(2) unfolding line_ok_def hasPrefix_iff by fastforce
  moreover have "length (go_log g) = 1 \<and> length (go_log g') = 2" if "mn_pc m = MEnded"
  proof -
    have "go_jobs g = []" "go_jobs g' = []"
      using over that g(2) g'(2) by (auto simp: round_over_def round_done_def list_all_iff)
    then have "length prev = 1" "length prev' = 2"
      using arg_cong [OF g(3), of length] arg_cong [OF g'(3), of length] by simp_all
    then show ?thesis using list_all2_lengthD [OF g(4)] list_all2_lengthD [OF g'(4)] by simp
  qed
  ultimately show ?thesis using over unfolding g(1) g'(1) by (auto simp: round_over_def)
qed


subsection \<open>A run of the demo\<close>

text \<open>A run in which the second goroutine of \<^verbatim>\<open>call\<close> makes its call; bodies are sent as they are.\<close>

definition plain_given :: "(foo_args + int64, nat) demo_given" where
  "plain_given =
     \<lparr>me_registry = None, me_listens = [Inr ''[::]:4000'', Inr ''[::]:4001''], me_clock = int,
      me_intn = (\<lambda>n g. (g mod n, g)), me_enc = Inl,
      me_dec = (\<lambda>t a. case a of Inl args \<Rightarrow> Inr args | Inr n \<Rightarrow> Inl ''type mismatch''),
      me_reply = (\<lambda>r. case r of Some n \<Rightarrow> Inr (Inr n) | None \<Rightarrow> Inl ''EOF''),
      me_val = (\<lambda>a. case a of Inl args \<Rightarrow> 0 | Inr n \<Rightarrow> n)\<rparr>"

lemma plain_given_ok: "given_ok plain_given"
  by (auto simp: given_ok_def plain_given_def gob_faithful_def clock_started_def zero_time_def defaultUpdateTimeout_def
    time_Second_def plain_address_def is_space_def split: sum.splits)

lemma plain_outcome: "call_outcome plain_given Foo_server args (None, Arg1 args + Arg2 args)"
proof -
  let ?E = "demo_env Foo_server (me_dec plain_given) (me_reply plain_given) (op_HandleTimeout DefaultOption) ''''"
  let ?r = "twice_request\<lparr>rq_argv := args\<rparr>" and ?n = "Arg1 args + Arg2 args"
  have header: "rq_h ?r = demo_header" by (simp add: twice_request_def)
  have found: "findService ''Foo.Sum'' Foo_server = Inr (Foo_service, method_entry (Foo_method ''Sum''))"
    by (simp add: findService_def Foo_server_def Foo_methods Let_def)
  have "readRequest Foo_server (me_dec plain_given) (frames [(rq_h ?r, Inl args)]) = (Ret (GoodRequest ?r), [])"
    unfolding header using found
    by (simp add: readRequest_def twice_argv demo_header_def twice_request_def plain_given_def)
  moreover have "service_answers Foo_call ?r (None, ?n)"
    by (simp add: service_answers_def service_call_def twice_request_def twice_argv)
      (simp add: method_entry_def Foo_method_def assignable_def Foo_call_def Foo_Sum_def)
  moreover have "me_reply plain_given (Some ?n) = Inr (Inr ?n)" by (simp add: plain_given_def)
  ultimately have "(old_step ?E ^^ 13) (one_made ''Foo.Sum'' (Inl args)) (one_returned ?r (Inl args) ?n (Inr ?n))"
    by (intro one_call_run) (auto simp: demo_env_def DefaultOption_def header demo_header_def simp del: frames.simps)
  from one_returned_reach [OF this] show ?thesis
    unfolding call_outcome_def
    by (intro exI [of _ "one_returned ?r (Inl args) ?n (Inr ?n)"] exI [of _ 0] exI [of _ "one_call 1 ''Foo.Sum'' (Inl args) (Some (1, Inr ?n)) 1"]
      exI [of _ "''''"])
      (simp add: one_returned_def one_client_def one_call_def few_calls_def header demo_header_def plain_given_def)
qed

lemma main_call_run:
  assumes "(go_step M (mn_sites m))\<^sup>*\<^sup>* (ro_go (mn_call m) ! t, ro_disc (mn_call m), mn_world m, ro_xc (mn_call m)) (g, d, w, x)"
    and "mn_pc m = MCall" and "t < length (ro_go (mn_call m))"
  shows "(main_step M)\<^sup>*\<^sup>* m (m\<lparr>mn_call := (mn_call m)\<lparr>ro_disc := d, ro_xc := x, ro_go := (ro_go (mn_call m))[t := g]\<rparr>,
    mn_world := w\<rparr>)"
  using assms(1)
proof (induction "(g, d, w, x)" arbitrary: g d w x rule: rtranclp_induct)
  case base
  then show ?case by simp
next
  case (step s)
  obtain g1 d1 w1 x1 where s: "s = (g1, d1, w1, x1)" by (cases s)
  let ?m = "m\<lparr>mn_call := (mn_call m)\<lparr>ro_disc := d1, ro_xc := x1, ro_go := (ro_go (mn_call m))[t := g1]\<rparr>, mn_world := w1\<rparr>"
  have "round_step M (mn_sites ?m) (mn_call ?m, mn_world ?m)
      ((mn_call m)\<lparr>ro_disc := d, ro_xc := x, ro_go := (ro_go (mn_call m))[t := g]\<rparr>, w)"
    using step(2) assms(3) unfolding round_step_def s
    by (intro exI [of _ t] exI [of _ g] exI [of _ d] exI [of _ x]) simp
  from main_call [OF _ this] assms(2) step(3) [OF s] show ?case by (simp add: rtranclp.rtrancl_into_rtrancl)
qed

definition A_addr :: string where "A_addr = ''tcp@[::]:4000''"
definition B_addr :: string where "B_addr = ''tcp@[::]:4001''"

definition demo_sites :: "string \<rightharpoonup> server" where
  "demo_sites = [A_addr \<mapsto> Foo_server, B_addr \<mapsto> Foo_server]"

definition demo_registry :: registry where
  "demo_registry = \<lparr>reg_timeout = defaultTimeout,
     reg_servers = [A_addr \<mapsto> \<lparr>si_Addr = A_addr, si_start = 0\<rparr>, B_addr \<mapsto> \<lparr>si_Addr = B_addr, si_start = 1\<rparr>]\<rparr>"

definition demo_called :: "(foo_args + int64, nat) main_state" where
  "demo_called =
     \<lparr>mn_pc = MCall, mn_waiting = [], mn_sites = demo_sites, mn_beats = [B_addr, A_addr],
      mn_world = \<lparr>dw_registry = demo_registry, dw_reads = 2\<rparr>,
      mn_call = round_start plain_given 2 [''call''], mn_cast = round_start plain_given 0 [''broadcast'', ''broadcast'']\<rparr>"

lemma demo_called_reach: "reach (main_init plain_given) (main_step plain_given) demo_called"
proof -
  let ?m0 = "main_start plain_given 2 0" and ?M = plain_given
  let ?m1 = "?m0\<lparr>mn_pc := MServers\<rparr>"
  let ?w = "\<lambda>s n. \<lparr>dw_registry = s, dw_reads = n\<rparr>"
  let ?s1 = "putServer A_addr 0 (NewSuRegistry defaultTimeout)"
  let ?m2 = "?m1\<lparr>mn_waiting := [Inr ''[::]:4001''], mn_sites := [A_addr \<mapsto> Foo_server], mn_beats := [A_addr], mn_world := ?w ?s1 1\<rparr>"
  let ?m3 = "demo_called\<lparr>mn_pc := MServers\<rparr>"
  have beat: "sendHeartBeat (\<lambda>_. True) (demo_Do ?M [] None) registryAddr a (?w s n) = (Ret None, ?w (putServer a (int n) s) (Suc n))"
    if "a \<noteq> ''''" for a s n
    using that
    by (simp add: sendHeartBeat_def demo_Do_def registry_Do_def registry_ServeHTTP_def plain_given_def)
  have listens: "me_listens ?M = [Inr ''[::]:4000'', Inr ''[::]:4001'']" by (simp add: plain_given_def)
  have ne: "A_addr \<noteq> ''''" "B_addr \<noteq> ''''" "A_addr \<noteq> B_addr" by (simp_all add: A_addr_def B_addr_def)
  have "reach (main_init ?M) (main_step ?M) ?m0" by (rule reach.reach_init) (auto simp: main_init_def)
  moreover have "main_step ?M ?m0 ?m1" by (rule main_registry) (simp add: main_start_def)
  moreover have "main_step ?M ?m1 ?m2"
    using main_server [of ?m1 "[]" "Inr ''[::]:4000''" "[Inr ''[::]:4001'']" "''[::]:4000''" Foo_server A_addr ?M None None "?w ?s1 1"]
      beat [OF ne(1), of "NewSuRegistry defaultTimeout" 0] ne(1)
    by (simp add: main_start_def listens startServer_server A_addr_def)
  moreover have "main_step ?M ?m2 ?m3"
  proof -
    have "putServer B_addr 1 ?s1 = demo_registry"
      using ne(3) by (simp add: putServer_def NewSuRegistry_def demo_registry_def fun_upd_twist)
    then show ?thesis
      using main_server [of ?m2 "[]" "Inr ''[::]:4001''" "[]" "''[::]:4001''" Foo_server B_addr ?M None None "?w demo_registry 2"]
        beat [OF ne(2), of ?s1 1] ne
      by (simp add: main_start_def startServer_server B_addr_def demo_called_def demo_sites_def numeral_2_eq_2)
  qed
  moreover have "main_step ?M ?m3 demo_called"
    using main_registered [of ?m3 ?M] by (simp add: demo_called_def)
  ultimately show ?thesis by (meson reach.reach_step)
qed


lemma demo_new_discovery:
  "NewSuRegistryDiscovery (me_intn plain_given) 2 registryAddr 0
   = \<lparr>sd_multi = \<lparr>md_rand = 2, md_servers = [], md_index = 2\<rparr>, sd_registry = registryAddr,
      sd_timeout = defaultUpdateTimeout, sd_lastUpdate = zero_time\<rparr>"
  by (simp add: NewSuRegistryDiscovery_def NewMultiServerDiscovery_def Let_def plain_given_def)

lemma demo_Refresh:
  "reg_disc_Refresh (demo_Now plain_given) (demo_Get plain_given [A_addr, B_addr] None)
     (NewSuRegistryDiscovery (me_intn plain_given) 2 registryAddr 0, \<lparr>dw_registry = demo_registry, dw_reads = 2\<rparr>)
   = (None, (\<lparr>sd_multi = \<lparr>md_rand = 2, md_servers = ['''', '''', A_addr, B_addr], md_index = 2\<rparr>, sd_registry = registryAddr,
       sd_timeout = defaultUpdateTimeout, sd_lastUpdate = 6\<rparr>, \<lparr>dw_registry = demo_registry, dw_reads = 7\<rparr>))"
proof -
  have ne: "A_addr \<noteq> B_addr" and sorted: "sort [A_addr, B_addr] = [A_addr, B_addr]"
    by (simp_all add: A_addr_def B_addr_def less_eq_char_def less_char_def)
  have alive: "aliveServers [A_addr, B_addr] (\<lambda>k. me_clock plain_given (3 + k)) demo_registry = ([A_addr, B_addr], demo_registry)"
    using ne sorted
    by (simp add: aliveServers_def demo_registry_def plain_given_def defaultTimeout_def time_Minute_def time_Second_def)
  have "list_all plain_address [A_addr, B_addr]"
    by (simp add: plain_address_def A_addr_def B_addr_def is_space_def)
  then have servers: "refresh_servers (go_join '','' [A_addr, B_addr]) = ['''', '''', A_addr, B_addr]"
    using refresh_join [of "[A_addr, B_addr]"] by (simp add: numeral_2_eq_2)
  have get: "demo_Get plain_given [A_addr, B_addr] None registryAddr \<lparr>dw_registry = demo_registry, dw_reads = 3\<rparr>
      = (Inr (go_join '','' [A_addr, B_addr]), \<lparr>dw_registry = demo_registry, dw_reads = 6\<rparr>)"
    using alive
    by (simp add: demo_Get_def demo_Do_def registry_Do_def registry_ServeHTTP_def rw_finish_def rw_Set_def rw_new_def
      rw_WriteHeader_def sent_header_def del: go_join.simps)
  have now: "demo_Now plain_given \<lparr>dw_registry = demo_registry, dw_reads = n\<rparr>
      = (int n, \<lparr>dw_registry = demo_registry, dw_reads = Suc n\<rparr>)" for n
    by (simp add: demo_Now_def plain_given_def)
  have "\<not> int 2 < zero_time + defaultUpdateTimeout" by (simp add: zero_time_def defaultUpdateTimeout_def time_Second_def)
  moreover have "Suc 2 = 3" "Suc 6 = 7" by simp_all
  ultimately show ?thesis
    unfolding reg_disc_Refresh_def demo_new_discovery prod.case now
    using get servers now [of 6] by (simp del: go_join.simps)
qed

lemma demo_call_run:
  "\<exists>d w x. (go_step plain_given demo_sites)\<^sup>*\<^sup>*
     (\<lparr>go_args = demo_args ! 1, go_jobs = [''call''], go_pc = FStart, go_log = []\<rparr>,
      NewSuRegistryDiscovery (me_intn plain_given) 2 registryAddr 0, \<lparr>dw_registry = demo_registry, dw_reads = 2\<rparr>, NewXClient)
     (\<lparr>go_args = demo_args ! 1, go_jobs = [], go_pc = FStart, go_log = [''call Foo.Sum success: 1 + 1 = 2'']\<rparr>, d, w, x)"
proof -
  let ?g = "\<lambda>pc. \<lparr>go_args = demo_args ! 1, go_jobs = [''call''], go_pc = pc, go_log = []\<rparr>"
  let ?d = "\<lparr>sd_multi = \<lparr>md_rand = 2, md_servers = ['''', '''', A_addr, B_addr], md_index = 2\<rparr>, sd_registry = registryAddr,
       sd_timeout = defaultUpdateTimeout, sd_lastUpdate = 6\<rparr>"
  let ?w = "\<lambda>n. \<lparr>dw_registry = demo_registry, dw_reads = n\<rparr>"
  let ?x = "\<lparr>xc_clients = [A_addr \<mapsto> 0], xc_heap = [newCientCodec]\<rparr>"
  let ?res = "(None, Arg1 (demo_args ! 1) + Arg2 (demo_args ! 1))"
  let ?step = "go_step plain_given demo_sites"
  have order: "visit_order demo_registry [A_addr, B_addr]"
    by (auto simp: visit_order_def demo_registry_def A_addr_def B_addr_def)
  have s1: "?step (?g FStart, NewSuRegistryDiscovery (me_intn plain_given) 2 registryAddr 0, ?w 2, NewXClient) (?g FRefreshed, ?d, ?w 7, NewXClient)"
    using go_refresh [of "?g FStart" "''call''" "[]" "?w 2" "[A_addr, B_addr]", OF _ _ _ demo_Refresh, of demo_sites NewXClient] order
    by simp
  have s2: "?step (?g FRefreshed, ?d, ?w 7, NewXClient) (?g (FCall (CDial A_addr)), ?d, ?w 7, NewXClient)"
    using go_pick [of "?g FRefreshed" "[]" plain_given ?d A_addr "sd_multi ?d"]
    by (simp add: multi_Get_def Let_def plain_given_def)
  have s3: "?step (?g (FCall (CDial A_addr)), ?d, ?w 7, NewXClient) (?g (FCall (CRemote A_addr 0)), ?d, ?w 7, ?x)"
  proof -
    let ?dial = "\<lambda>a. dial_result (XDial (\<lambda>_. None) None None (\<lambda>_. True) (\<lambda>_. '''')
      (\<lambda>_ _ _. Inr \<lparr>cn_out = [], cn_open = True\<rparr>) a [None]) :: goerror + (foo_args + int64) client"
    have "?dial A_addr = Inr newCientCodec"
      by (simp add: XDial_def Dial_def dialTimeout_def NewClient_def parseOptions_def DefaultOption_def CodecFuncMap_def
        dial_result_def A_addr_def Let_def)
    then have "xclient_dial ?dial A_addr NewXClient = (Inr 0, ?x)" by (simp add: xclient_dial_def NewXClient_def)
    from xcall_dial [OF refl this]
    have "xcall_step plain_given demo_sites (go_args (?g (FCall (CDial A_addr)))) (CDial A_addr, NewXClient) (CRemote A_addr 0, ?x)" .
    from go_call [OF _ _ this, of "[]"] show ?thesis by simp
  qed
  have s4: "?step (?g (FCall (CRemote A_addr 0)), ?d, ?w 7, ?x) (?g (FCall (CResult ?res)), ?d, ?w 7, ?x)"
  proof -
    have "xcall_step plain_given demo_sites (go_args (?g (FCall (CRemote A_addr 0)))) (CRemote A_addr 0, ?x) (CResult ?res, ?x)"
      by (rule xcall_remote) (simp add: demo_sites_def plain_outcome)
    from go_call [OF _ _ this, of "[]"] show ?thesis by simp
  qed
  have s5: "?step (?g (FCall (CResult ?res)), ?d, ?w 7, ?x)
      (\<lparr>go_args = demo_args ! 1, go_jobs = [], go_pc = FStart, go_log = [''call Foo.Sum success: 1 + 1 = 2'']\<rparr>, ?d, ?w 7, ?x)"
  proof -
    have "itoa 1 = ''1''" "itoa 2 = ''2''" by code_simp+
    then have "foo_line ''call'' (demo_args ! 1) ?res = ''call Foo.Sum success: 1 + 1 = 2''"
      using foo_line_sum [of 1] by simp
    then show ?thesis using go_called [of "?g (FCall (CResult ?res))" "[]" ?res] by (simp add: go_end_def)
  qed
  note add = converse_rtranclp_into_rtranclp [where r = ?step]
  show ?thesis by (intro exI) (rule add [OF s1 add [OF s2 add [OF s3 add [OF s4 add [OF s5 rtranclp.rtrancl_refl]]]]])
qed


theorem demo_main_prints_witness:
  "\<exists>m. reach (main_init plain_given) (main_step plain_given) m \<and>
     ''call Foo.Sum success: 1 + 1 = 2'' \<in> set (go_log (ro_go (mn_call m) ! 1)) \<and>
     (''call Foo.Sum success: 1 + 1 = 2'' = ''call Foo.Sum success: '' @ itoa 1 @ '' + '' @ itoa 1 @ '' = '' @ itoa 2 \<or>
      hasPrefix ''call Foo.Sum success: 1 + 1 = 2'' ''call Foo.Sum error: '')"
proof -
  let ?line = "''call Foo.Sum success: 1 + 1 = 2''"
  have start: "ro_go (mn_call demo_called) ! 1 = \<lparr>go_args = demo_args ! 1, go_jobs = [''call''], go_pc = FStart, go_log = []\<rparr>"
    "ro_disc (mn_call demo_called) = NewSuRegistryDiscovery (me_intn plain_given) 2 registryAddr 0"
    "mn_world demo_called = \<lparr>dw_registry = demo_registry, dw_reads = 2\<rparr>" "ro_xc (mn_call demo_called) = NewXClient"
    "mn_sites demo_called = demo_sites" "mn_pc demo_called = MCall" "length (ro_go (mn_call demo_called)) = 5"
    by (simp_all add: demo_called_def round_start_def demo_args_def)
  obtain d w x where run: "(go_step plain_given demo_sites)\<^sup>*\<^sup>*
      (ro_go (mn_call demo_called) ! 1, ro_disc (mn_call demo_called), mn_world demo_called, ro_xc (mn_call demo_called))
      (\<lparr>go_args = demo_args ! 1, go_jobs = [], go_pc = FStart, go_log = [?line]\<rparr>, d, w, x)"
    using demo_call_run unfolding start by blast
  obtain m where m: "(main_step plain_given)\<^sup>*\<^sup>* demo_called m" "go_log (ro_go (mn_call m) ! 1) = [?line]"
    using main_call_run [OF run [folded start(5)] start(6)] start(7) by fastforce
  have reach: "reach (main_init plain_given) (main_step plain_given) m"
    by (rule main.reach_steps [OF demo_called_reach m(1)])
  from demo_main_prints [OF plain_given_ok this, of 1 ?line] m(2) reach show ?thesis
    by (intro exI [of _ m]) simp
qed

end
