(* ===== verification/Demo_Ends.thy ===== *)
theory Demo_Ends
  imports Demo_Main
begin

section \<open>The demo program comes to its end\<close>

text \<open>
  Whatever happens to the network and the registry, \<^verbatim>\<open>main\<close> of \<^verbatim>\<open>main.go\<close> has always a step to make
  until it returns or the process exits, and it makes a bounded number of them. That a remote call
  returns is what \<open>RPC_Returns\<close> shows of client and server.
\<close>

subsection \<open>There is always a step\<close>

text \<open>A call can at least fail, since the connection may have been closed.\<close>

lemma call_outcome_exists: "\<exists>res. call_outcome M server args res"
proof -
  let ?E = "demo_env server (me_dec M) (me_reply M) (op_HandleTimeout DefaultOption) ''''"
  let ?k = "\<lambda>e n. \<lparr>rc_Seq = 0, rc_ServiceMethod = ''Foo.Sum'', rc_Args = me_enc M args, rc_Reply = None, rc_Error = e, rc_done = n\<rparr>"
  let ?c = "\<lambda>lock k pc. newCientCodec\<lparr>cl_closing := True, cl_sending := lock, cl_calls := [0 \<mapsto> k], cl_pc := (\<lambda>_. Unused)(0 := pc)\<rparr>"
  let ?y = "\<lambda>c. \<lparr>sy_client = c, sy_server = sv_start [], sy_read = 0, sy_up = False\<rparr>"
  have call: "sys_step ?E (?y c) (?y c')" if "call_step c c'" for c c'
    using sys_call [of "?y c" c' ?E] that by simp
  have "reach sy_init (sys_step ?E) sy_start" by (rule reach.reach_init) (simp add: sy_init_def)
  moreover have "sys_step ?E sy_start (?y (newCientCodec\<lparr>cl_closing := True\<rparr>))"
    using sys_close [of sy_start "newCientCodec\<lparr>cl_closing := True\<rparr>" "sv_start []" ?E 0]
    by (simp add: sy_start_def client_Close_def newCientCodec_def sv_start_def)
  moreover have "call_step (newCientCodec\<lparr>cl_closing := True\<rparr>) (?c None (?k None 0) SStart)"
    using call_go [of "newCientCodec\<lparr>cl_closing := True\<rparr>" 0 "?k None 0" "''Foo.Sum''" "me_enc M args"]
    by (simp add: newCientCodec_def)
  note call [OF this]
  moreover have "call_step (?c None (?k None 0) SStart) (?c (Some 0) (?k None 0) SLocked)"
    using call_lock [of "?c None (?k None 0) SStart" 0] by (simp add: newCientCodec_def)
  note call [OF this]
  moreover have "call_step (?c (Some 0) (?k None 0) SLocked) (?c None (?k (Some ErrShutdown) 1) SWaiting)"
    using call_refused [of "?c (Some 0) (?k None 0) SLocked" 0 ErrShutdown]
    by (simp add: registerCall_def newCientCodec_def upd_call_def call_done_def)
  note call [OF this]
  moreover have "call_step (?c None (?k (Some ErrShutdown) 1) SWaiting) (?c None (?k (Some ErrShutdown) 1) (SReturned (Some ErrShutdown)))"
    using call_result [of "?c None (?k (Some ErrShutdown) 1) SWaiting" 0] by (simp add: newCientCodec_def)
  note call [OF this]
  ultimately have "reach sy_init (sys_step ?E) (?y (?c None (?k (Some ErrShutdown) 1) (SReturned (Some ErrShutdown))))"
    by (meson reach.reach_step)
  then have "call_outcome M server args (Some ErrShutdown, 0)"
    unfolding call_outcome_def
    by (intro exI [of _ "?y (?c None (?k (Some ErrShutdown) 1) (SReturned (Some ErrShutdown)))"] exI [of _ 0]
      exI [of _ "?k (Some ErrShutdown) 1"] exI [of _ "''''"]) (simp add: few_calls_def newCientCodec_def)
  then show ?thesis by blast
qed

lemma xcall_progress:
  assumes "\<And>res. p \<noteq> CResult res"
  shows "\<exists>p' x'. xcall_step M sites args (p, x) (p', x')"
proof (cases p)
  case (CDial a)
  define xdial :: "string \<Rightarrow> goerror + 'a client" where
    "xdial = (\<lambda>a. dial_result (XDial (\<lambda>_. None) None None (\<lambda>_. True) (\<lambda>_. '''') (\<lambda>_ _ _. Inl ''refused'') a [None]))"
  obtain r x' where dial: "xclient_dial xdial a x = (r, x')" by fastforce
  show ?thesis
  proof (cases r)
    case (Inl e)
    with xcall_dial_fails [OF xdial_def, of a x e x' M sites args] dial CDial show ?thesis by blast
  next
    case (Inr i)
    with xcall_dial [OF xdial_def, of a x i x' M sites args] dial CDial show ?thesis by blast
  qed
next
  case (CRemote a i)
  have "\<exists>res. case sites a of Some server \<Rightarrow> call_outcome M server args res | None \<Rightarrow> True"
    using call_outcome_exists by (cases "sites a") auto
  with CRemote show ?thesis by (auto intro: xcall_remote)
qed (use assms in auto)

text \<open>
  The position of a goroutine fits the call it makes, and lists of servers have no more than \<open>b\<close>
  elements.
\<close>

definition go_fits :: "nat \<Rightarrow> goroutine \<Rightarrow> bool" where
  "go_fits n g \<longleftrightarrow> set (go_jobs g) \<subseteq> {''call'', ''broadcast''} \<and>
     (case go_pc g of
        FCall p \<Rightarrow> \<exists>js. go_jobs g = ''call'' # js
      | FCast ps b \<Rightarrow> (\<exists>js. go_jobs g = ''broadcast'' # js) \<and> length ps \<le> n \<and> bc_reply b \<noteq> None
      | _ \<Rightarrow> True)"

lemma go_progress:
  assumes fits: "go_fits n g" and jobs: "go_jobs g \<noteq> []" and fin: "finite (dom (reg_servers (dw_registry w)))"
  shows "\<exists>s. go_step M sites (g, d, w, x) s"
proof -
  obtain ty js where js: "go_jobs g = ty # js" using jobs by (cases "go_jobs g") auto
  show ?thesis
  proof (cases "go_pc g")
    case FStart
    obtain order where order: "visit_order (dw_registry w) order"
      using finite_distinct_list [OF fin] by (auto simp: visit_order_def)
    obtain e d' w' where run: "reg_disc_Refresh (demo_Now M) (demo_Get M order None) (d, w) = (e, (d', w'))"
      by (metis prod.exhaust)
    show ?thesis
    proof (cases e)
      case None
      with go_refresh [OF js FStart order, of M None d d' w'] run show ?thesis by blast
    next
      case (Some err)
      with go_refresh_fails [OF js FStart order, of M None d err d' w'] run show ?thesis by blast
    qed
  next
    case FRefreshed
    have "ty = ''call'' \<or> ty = ''broadcast''" using fits js by (auto simp: go_fits_def)
    then show ?thesis
    proof
      assume call: "ty = ''call''"
      obtain r m where get: "multi_Get (me_intn M) RandomSelect (sd_multi d) = (r, m)" by fastforce
      show ?thesis
      proof (cases r)
        case (Inl e)
        with go_no_server [OF js [unfolded call] FRefreshed] get show ?thesis by blast
      next
        case (Inr a)
        with go_pick [OF js [unfolded call] FRefreshed] get show ?thesis by blast
      qed
    next
      assume cast: "ty = ''broadcast''"
      have "multi_GetAll (sd_multi d) = (Inr (md_servers (sd_multi d)), sd_multi d)" by (simp add: multi_GetAll_def)
      from go_all [OF js [unfolded cast] FRefreshed this] show ?thesis by blast
    qed
  next
    case (FCall p)
    then obtain js where call: "go_jobs g = ''call'' # js" using fits by (auto simp: go_fits_def)
    show ?thesis
    proof (cases "\<exists>res. p = CResult res")
      case True
      then show ?thesis using go_called [OF call] FCall by blast
    next
      case False
      then obtain p' x' where "xcall_step M sites (go_args g) (p, x) (p', x')" using xcall_progress by blast
      from go_call [OF call FCall this] show ?thesis by blast
    qed
  next
    case (FCast ps b)
    then obtain js v where cast: "go_jobs g = ''broadcast'' # js" and v: "bc_reply b = Some v"
      using fits by (auto simp: go_fits_def)
    show ?thesis
    proof (cases "set ps \<subseteq> {None}")
      case True
      from go_casted [OF cast FCast True v] show ?thesis by blast
    next
      case False
      then obtain p where "Some p \<in> set ps" by (metis insertCI not_None_eq subsetI)
      then obtain k where k: "k < length ps" "ps ! k = Some p" by (auto simp: in_set_conv_nth)
      show ?thesis
      proof (cases "\<exists>res. p = CResult res")
        case True
        then show ?thesis using go_merge [OF cast FCast k(1)] k(2) by blast
      next
        case False
        then obtain p' x' where "xcall_step M sites (go_args g) (p, x) (p', x')" using xcall_progress by blast
        from go_cast [OF cast FCast k this] show ?thesis by blast
      qed
    qed
  qed
qed


subsection \<open>The work that is left\<close>

fun call_rank :: "call_pc \<Rightarrow> nat" where
  "call_rank (CDial a) = 3"
| "call_rank (CRemote a i) = 2"
| "call_rank (CResult res) = 1"

definition task_rank :: "call_pc option \<Rightarrow> nat" where
  "task_rank p = (case p of None \<Rightarrow> 0 | Some q \<Rightarrow> call_rank q)"

text \<open>The steps that are left within a call of \<^verbatim>\<open>foo\<close>, over lists of at most \<open>n\<close> servers, and those of all calls.\<close>

fun pc_weight :: "nat \<Rightarrow> foo_pc \<Rightarrow> nat" where
  "pc_weight n FStart = 3 * n + 5"
| "pc_weight n FRefreshed = 3 * n + 4"
| "pc_weight n (FCall p) = call_rank p"
| "pc_weight n (FCast ps b) = Suc (sum_list (map task_rank ps))"

definition go_weight :: "nat \<Rightarrow> goroutine \<Rightarrow> nat" where
  "go_weight n g = length (go_jobs g) * (3 * n + 6) + pc_weight n (go_pc g)"

lemma xcall_rank: "xcall_step M sites args (p, x) (p', x') \<Longrightarrow> call_rank p' < call_rank p"
  by (erule xcall_step.cases) auto

lemma sum_list_update_less:
  "k < length xs \<Longrightarrow> f y < f (xs ! k) \<Longrightarrow> sum_list (map f (xs[k := y])) < sum_list (map (f :: 'b \<Rightarrow> nat) xs)"
proof (induction xs arbitrary: k)
  case (Cons x xs)
  then show ?case by (cases k) auto
qed simp

lemma go_end_weight: "go_jobs g = ty # js \<Longrightarrow> go_weight n (go_end res g) < go_weight n g"
  by (simp add: go_weight_def go_end_def)

text \<open>A list that was fetched from the registry has an address at most twice for each server, and one more.\<close>

lemma alive_loop_length: "length (fst (alive_loop clock n order alive s)) \<le> length alive + length order"
proof (induction order arbitrary: n alive s)
  case (Cons addr order)
  show ?case
    using Cons [of n alive s] Cons [of n "alive @ [addr]" s] Cons [of "Suc n" "alive @ [addr]" s]
      Cons [of "Suc n" alive "s\<lparr>reg_servers := (reg_servers s)(addr := None)\<rparr>"]
    by (simp split: option.split)
qed simp

definition short :: "nat \<Rightarrow> 'g reg_disc \<Rightarrow> bool" where
  "short n d \<longleftrightarrow> length (md_servers (sd_multi d)) \<le> n"

lemma demo_Refresh_short:
  assumes w: "world_ok S w" and S: "\<forall>a \<in> S. plain_address a" and fin: "finite S" "2 * card S < n" and d: "short n d"
    and order: "visit_order (dw_registry w) order"
    and run: "reg_disc_Refresh (demo_Now M) (demo_Get M order down) (d, w) = (err, (d', w'))"
  shows "short n d'"
proof -
  obtain now w1 where now: "demo_Now M w = (now, w1)" by fastforce
  then have w1: "dw_registry w1 = dw_registry w" by (auto simp: demo_Now_def)
  obtain alive s1 where alive: "aliveServers order (\<lambda>k. me_clock M (dw_reads w1 + k)) (dw_registry w) = (alive, s1)"
    by fastforce
  have order': "distinct order" "set order \<subseteq> S" using w order by (auto simp: visit_order_def world_ok_def)
  then have "length order \<le> card S" using distinct_card [OF order'(1)] card_mono [OF fin(1) order'(2)] by simp
  moreover have "length alive \<le> length order" and known: "set alive \<subseteq> set order"
    using alive alive_loop_length [of "\<lambda>k. me_clock M (dw_reads w1 + k)" 0 order "[]" "dw_registry w"]
      alive_loop_known(1) [of "\<lambda>k. me_clock M (dw_reads w1 + k)" 0 order "[]" "dw_registry w"]
    by (auto simp: aliveServers_def split: prod.splits)
  moreover have "list_all plain_address alive" using known order'(2) S by (auto simp: list_all_iff)
  ultimately have "length (refresh_servers (go_join '','' alive)) \<le> n"
    using refresh_join [of alive] fin(2) by simp
  moreover have "r = Inr header \<Longrightarrow> header = go_join '','' alive" if "demo_Get M order down url w1 = (r, w2)" for r header url w2
    using that by (auto simp: demo_Get_def demo_Do_def registry_Do_def registry_ServeHTTP_def w1 alive rw_finish_def
      rw_Set_def rw_new_def rw_WriteHeader_def sent_header_def split: option.splits)
  ultimately show ?thesis
    using run d now by (auto simp: reg_disc_Refresh_def short_def split: if_splits prod.splits sum.splits)
qed

lemma go_step_weight:
  assumes "go_step M sites (g, d, w, x) (g', d', w', x')" and fits: "go_fits n g" and d: "short n d" and n: "0 < n"
    and w: "world_ok (dom sites) w" "\<forall>a \<in> dom sites. plain_address a" and fin: "finite (dom sites)" "2 * card (dom sites) < n"
  shows "go_weight n g' < go_weight n g \<and> go_fits n g' \<and> short n d'"
proof -
  have ended: "go_fits n (go_end res g)" for res
    using fits by (cases "go_jobs g") (auto simp: go_fits_def go_end_def split: foo_pc.splits)
  have update: "go_weight n (g\<lparr>go_pc := FCast (ps[k := q]) b'\<rparr>) < go_weight n g"
    if "go_pc g = FCast ps b" "k < length ps" "task_rank q < task_rank (ps ! k)" for ps b k q b'
    using sum_list_update_less [of k ps task_rank q] that by (simp add: go_weight_def)
  from assms(1) show ?thesis
  proof cases
    case (go_refresh_fails ty js order down err)
    from demo_Refresh_short [OF w fin d go_refresh_fails(5,6)] go_end_weight [OF go_refresh_fails(3)] ended show ?thesis
      by (simp add: go_refresh_fails(1))
  next
    case (go_refresh ty js order down)
    from demo_Refresh_short [OF w fin d go_refresh(5,6)] fits show ?thesis
      by (simp add: go_refresh(1,4) go_weight_def go_fits_def)
  next
    case (go_no_server js err m)
    then have "md_servers m = md_servers (sd_multi d)"
      by (auto simp: multi_Get_def Let_def split: if_splits prod.splits)
    with go_end_weight [OF go_no_server(5)] ended d show ?thesis by (simp add: go_no_server(1,2) short_def)
  next
    case (go_pick js a m)
    then have "md_servers m = md_servers (sd_multi d)"
      by (auto simp: multi_Get_def Let_def split: if_splits prod.splits)
    with fits d show ?thesis by (simp add: go_pick(1,2,5,6) short_def go_weight_def go_fits_def)
  next
    case (go_call js p p')
    with xcall_rank [OF go_call(6)] fits d show ?thesis by (simp add: go_weight_def go_fits_def)
  next
    case (go_called js res)
    with go_end_weight [OF go_called(5)] ended d show ?thesis by simp
  next
    case (go_all js servers m)
    then have m: "servers = md_servers (sd_multi d)" "m = sd_multi d" by (auto simp: multi_GetAll_def)
    have "sum_list (map task_rank (map (\<lambda>a. Some (CDial a)) servers)) = 3 * length servers"
      by (induction servers) (simp_all add: task_rank_def)
    moreover have "length servers \<le> n" using d m(1) by (simp add: short_def)
    ultimately show ?thesis using fits d go_all m by (simp add: go_weight_def go_fits_def short_def)
  next
    case (go_cast js ps b k p p')
    have "task_rank (Some p') < task_rank (ps ! k)" using xcall_rank [OF go_cast(8)] go_cast(7) by (simp add: task_rank_def)
    from update [OF go_cast(5,6) this] fits d go_cast show ?thesis by (simp add: go_fits_def)
  next
    case (go_merge js ps b k res)
    have "task_rank None < task_rank (ps ! k)" using go_merge(8) by (simp add: task_rank_def)
    moreover have "bc_reply (broadcast_one res b) \<noteq> None" if "bc_reply b \<noteq> None"
      using that by (simp add: broadcast_one_def Let_def split: prod.split)
    ultimately show ?thesis using update [OF go_merge(6,7)] fits d go_merge by (simp add: go_fits_def)
  next
    case (go_casted js ps b v)
    with go_end_weight [OF go_casted(5)] ended d show ?thesis by simp
  qed
qed


subsection \<open>The whole program\<close>

definition main_bound :: "('a, 'g) demo_given \<Rightarrow> nat" where
  "main_bound M = Suc (2 * length (me_listens M))"

definition round_fits :: "nat \<Rightarrow> ('a, 'g) demo_round \<Rightarrow> bool" where
  "round_fits n r \<longleftrightarrow> short n (ro_disc r) \<and> list_all (go_fits n) (ro_go r)"

definition round_weight :: "nat \<Rightarrow> ('a, 'g) demo_round \<Rightarrow> nat" where
  "round_weight n r = sum_list (map (go_weight n) (ro_go r))"

fun phase :: "main_pc \<Rightarrow> nat" where
  "phase MRegistry = 4"
| "phase MServers = 3"
| "phase MCall = 2"
| "phase MBroadcast = 1"
| "phase MEnded = 0"
| "phase (MExited e) = 0"

definition main_weight :: "('a, 'g) demo_given \<Rightarrow> ('a, 'g) main_state \<Rightarrow> nat" where
  "main_weight M m = phase (mn_pc m) + length (mn_waiting m) + round_weight (main_bound M) (mn_call m) +
     round_weight (main_bound M) (mn_cast m)"

text \<open>A step of the program, not of its environment: it moves \<^verbatim>\<open>main\<close> or one of its goroutines.\<close>

definition moves :: "('a, 'g) main_state \<Rightarrow> ('a, 'g) main_state \<Rightarrow> bool" where
  "moves m m' \<longleftrightarrow> (mn_pc m', mn_waiting m', ro_go (mn_call m'), ro_go (mn_cast m'))
     \<noteq> (mn_pc m, mn_waiting m, ro_go (mn_call m), ro_go (mn_cast m))"

definition main_fits :: "('a, 'g) demo_given \<Rightarrow> ('a, 'g) main_state \<Rightarrow> bool" where
  "main_fits M m \<longleftrightarrow> finite (dom (mn_sites m)) \<and> card (dom (mn_sites m)) + length (mn_waiting m) \<le> length (me_listens M) \<and>
     round_fits (main_bound M) (mn_call m) \<and> round_fits (main_bound M) (mn_cast m)"

lemma round_step_weight:
  assumes "round_step M sites (r, w) (r', w')" and "round_fits n r" and "0 < n"
    and "world_ok (dom sites) w" and "\<forall>a \<in> dom sites. plain_address a" and "finite (dom sites)" "2 * card (dom sites) < n"
  shows "round_weight n r' < round_weight n r \<and> round_fits n r'"
proof -
  obtain t g d x where t: "t < length (ro_go r)"
    and step: "go_step M sites (ro_go r ! t, ro_disc r, w, ro_xc r) (g, d, w', x)"
    and r': "r' = r\<lparr>ro_disc := d, ro_xc := x, ro_go := (ro_go r)[t := g]\<rparr>"
    using assms(1) by (auto simp: round_step_def)
  have fits: "short n (ro_disc r)" "list_all (go_fits n) (ro_go r)" using assms(2) by (simp_all add: round_fits_def)
  then have "go_fits n (ro_go r ! t)" using t by (simp add: list_all_length)
  note go = go_step_weight [OF step this fits(1) assms(3-7)]
  have "list_all (go_fits n) ((ro_go r)[t := g])"
    using go fits(2) set_list_update_elem unfolding list_all_iff by metis
  with go sum_list_update_less [OF t, of "go_weight n" g] show ?thesis
    by (simp add: r' round_weight_def round_fits_def)
qed

lemma round_start_fits: "set jobs \<subseteq> {''call'', ''broadcast''} \<Longrightarrow> round_fits n (round_start M seed jobs)"
  by (auto simp: round_fits_def round_start_def short_def NewSuRegistryDiscovery_def NewMultiServerDiscovery_def Let_def
    go_fits_def list_all_iff split: prod.split)

lemma main_step_weight:
  assumes inv: "main_inv M m" and fits: "main_fits M m" and given: "given_ok M" and step: "main_step M m m'"
  shows "main_fits M m' \<and> (if moves m m' then main_weight M m' < main_weight M m else main_weight M m' = main_weight M m)"
proof -
  let ?n = "main_bound M" and ?S = "dom (mn_sites m)"
  have parts: "finite ?S" "card ?S + length (mn_waiting m) \<le> length (me_listens M)"
      "round_fits ?n (mn_call m)" "round_fits ?n (mn_cast m)"
    using fits unfolding main_fits_def by blast+
  then have n: "0 < ?n" "2 * card ?S < ?n" by (simp_all add: main_bound_def)
  have world: "world_ok ?S (mn_world m)" "\<forall>a \<in> ?S. plain_address a"
    using inv given by (auto simp: main_inv_def sites_ok_def)
  note round = round_step_weight [where n = ?n, OF _ _ n(1) world parts(1) n(2)]
  have same: "main_weight M m' = main_weight M m" if "\<not> moves m m'"
    using that by (simp add: moves_def main_weight_def round_weight_def)
  have "main_fits M m' \<and> (main_weight M m' < main_weight M m \<or> \<not> moves m m')"
    using step
  proof cases
    case (main_server ls l ls' addr server a down err w)
    have "card (insert a ?S) \<le> Suc (card ?S)" by (rule card_insert_le_m1) (simp_all add: parts(1))
    with main_server parts show ?thesis by (simp add: main_fits_def main_weight_def)
  next
    case (main_call r w)
    with round [OF main_call(3) parts(3)] parts show ?thesis by (simp add: main_fits_def main_weight_def)
  next
    case (main_cast r w)
    with round [OF main_cast(3) parts(4)] parts show ?thesis by (simp add: main_fits_def main_weight_def)
  next
    case (main_crash e)
    then have "0 < phase (mn_pc m)" by auto
    with main_crash parts show ?thesis by (simp add: main_fits_def main_weight_def)
  qed (use parts in \<open>simp_all add: main_fits_def main_weight_def round_fits_def round_weight_def round_close_def moves_def\<close>)
  with same show ?thesis by auto
qed

interpretation main_ending: inductive_invariant "main_init M" "main_step M"
  "\<lambda>m. main_inv M m \<and> (given_ok M \<longrightarrow> main_fits M m)" for M
proof
  show "main_inv M m \<and> (given_ok M \<longrightarrow> main_fits M m)" if init: "main_init M m" for m
    using main.inv_init [OF init] init
    by (auto simp: main_init_def main_start_def main_fits_def intro!: round_start_fits)
  show "main_inv M m' \<and> (given_ok M \<longrightarrow> main_fits M m')"
    if "main_inv M m \<and> (given_ok M \<longrightarrow> main_fits M m)" "main_step M m m'" for m m'
    using that main_step_inv main_step_weight by blast
qed

lemma round_progress:
  assumes "round_fits n r" and "\<not> round_done r" and "finite (dom (reg_servers (dw_registry w)))"
  shows "\<exists>r' w'. round_step M sites (r, w) (r', w')"
proof -
  obtain t where t: "t < length (ro_go r)" "go_jobs (ro_go r ! t) \<noteq> []"
    using assms(2) by (auto simp: round_done_def list_all_length)
  have "go_fits n (ro_go r ! t)" using assms(1) t(1) by (simp add: round_fits_def list_all_length)
  from go_progress [OF this t(2) assms(3), of M sites "ro_disc r" "ro_xc r"] t(1) show ?thesis
    unfolding round_step_def by fastforce
qed

lemma xc_inv_finite:
  assumes "xc_inv x"
  shows "finite (dom (xc_clients x))"
proof (rule finite_imageD)
  have "(\<lambda>a. the (xc_clients x a)) ` dom (xc_clients x) \<subseteq> {..<length (xc_heap x)}"
    using assms by (auto simp: xc_inv_def)
  then show "finite ((\<lambda>a. the (xc_clients x a)) ` dom (xc_clients x))" by (rule finite_subset) simp
  show "inj_on (\<lambda>a. the (xc_clients x a)) (dom (xc_clients x))"
    using assms unfolding xc_inv_def by (intro inj_onI) auto
qed

lemma main_progress:
  assumes inv: "main_inv M m" and fits: "main_fits M m" and given: "given_ok M"
  shows "mn_pc m = MEnded \<or> (\<exists>e. mn_pc m = MExited e) \<or> (\<exists>m'. main_step M m m' \<and> moves m m')"
proof -
  let ?S = "dom (mn_sites m)"
  have parts: "world_ok ?S (mn_world m)" "sites_ok (mn_sites m)" "round_ok ?S [''call''] (mn_call m)"
      "round_ok ?S [''broadcast'', ''broadcast''] (mn_cast m)"
    using inv given unfolding main_inv_def by blast+
  have fits': "finite ?S" "card ?S + length (mn_waiting m) \<le> length (me_listens M)"
      "round_fits (main_bound M) (mn_call m)" "round_fits (main_bound M) (mn_cast m)"
    using fits unfolding main_fits_def by blast+
  then have n: "0 < main_bound M" "2 * card ?S < main_bound M" by (simp_all add: main_bound_def)
  have fin: "finite (dom (reg_servers (dw_registry (mn_world m))))"
    using parts(1) fits'(1) by (auto simp: world_ok_def intro: finite_subset)
  have plain: "\<forall>a \<in> ?S. plain_address a" using parts(2) by (auto simp: sites_ok_def)
  have round: "\<exists>r' w'. round_step M (mn_sites m) (r, mn_world m) (r', w') \<and> ro_go r' \<noteq> ro_go r"
    if fit: "round_fits (main_bound M) r" and todo: "\<not> round_done r" for r :: "('a, 'b) demo_round"
  proof -
    obtain r' w' where step: "round_step M (mn_sites m) (r, mn_world m) (r', w')"
      using round_progress [OF fit todo fin] by blast
    from round_step_weight [OF this fit n(1) parts(1) plain fits'(1) n(2)] step show ?thesis
      by (auto simp: round_weight_def)
  qed
  have order: "\<exists>order. set order = dom (xc_clients (ro_xc r))" if "round_ok ?S jobs r" for r :: "('a, 'b) demo_round" and jobs
    using that xc_inv_finite finite_list by (auto simp: round_ok_def xc_ok_def)
  show ?thesis
  proof (cases "mn_pc m")
    case MRegistry
    with main_registry [OF this, of M] show ?thesis by (auto simp: moves_def)
  next
    case MServers
    show ?thesis
    proof (cases "mn_waiting m")
      case Nil
      with main_registered [OF MServers this, of M] MServers show ?thesis by (auto simp: moves_def)
    next
      case (Cons l ls)
      then have wait: "mn_waiting m = [] @ l # ls" by simp
      show ?thesis
      proof (cases l)
        case (Inl e)
        then have "startServer l = Exit (''Failed to listen err:'' @ e)" by (simp add: startServer_def)
        from main_no_listener [OF MServers wait this, of M] MServers show ?thesis by (auto simp: moves_def)
      next
        case (Inr addr)
        then have server: "startServer l = Ret (addr, Foo_server)" by (simp add: startServer_server)
        obtain r w1 where "demo_Do M [] None ''POST'' registryAddr (''tcp@'' @ addr) (mn_world m) = (r, w1)" by fastforce
        then obtain err w where "sendHeartBeat (\<lambda>_. True) (demo_Do M [] None) registryAddr (''tcp@'' @ addr) (mn_world m) = (Ret err, w)"
          by (cases r) (auto simp: sendHeartBeat_def)
        from main_server [OF MServers wait server refl this] Cons show ?thesis by (fastforce simp: moves_def)
      qed
    qed
  next
    case MCall
    show ?thesis
    proof (cases "round_done (mn_call m)")
      case True
      with main_called [OF MCall this, of _ M] order [OF parts(3)] MCall show ?thesis by (fastforce simp: moves_def)
    next
      case False
      with round [OF fits'(3)] main_call [OF MCall] show ?thesis by (fastforce simp: moves_def)
    qed
  next
    case MBroadcast
    show ?thesis
    proof (cases "round_done (mn_cast m)")
      case True
      with main_casted [OF MBroadcast this, of _ M] order [OF parts(4)] MBroadcast show ?thesis by (fastforce simp: moves_def)
    next
      case False
      with round [OF fits'(4)] main_cast [OF MBroadcast] show ?thesis by (fastforce simp: moves_def)
    qed
  qed auto
qed

text \<open>A turn: any number of steps of the environment, and then one of the program.\<close>

definition main_turn :: "('a, 'g) demo_given \<Rightarrow> ('a, 'g) main_state \<Rightarrow> ('a, 'g) main_state \<Rightarrow> bool" where
  "main_turn M m m' \<longleftrightarrow> (\<exists>z. (\<lambda>a b. main_step M a b \<and> \<not> moves a b)\<^sup>*\<^sup>* m z \<and> main_step M z m' \<and> moves z m')"

lemma quiet_steps:
  assumes "(\<lambda>a b. main_step M a b \<and> \<not> moves a b)\<^sup>*\<^sup>* m z" and "main_inv M m \<and> main_fits M m" and "given_ok M"
  shows "main_inv M z \<and> main_fits M z \<and> main_weight M z = main_weight M m"
  using assms(1,2)
proof (induction rule: rtranclp_induct)
  case (step z u)
  with main_step_inv [of M z u] main_step_weight [of M z u] assms(3) show ?case by auto
qed simp

lemma turns_weight:
  assumes "given_ok M" and "main_inv M m \<and> main_fits M m" and "(main_turn M ^^ k) m m'"
  shows "k + main_weight M m' \<le> main_weight M m \<and> main_inv M m' \<and> main_fits M m'"
  using assms(3)
proof (induction k arbitrary: m')
  case 0
  with assms(2) show ?case by simp
next
  case (Suc k)
  then obtain z where z: "(main_turn M ^^ k) m z" "main_turn M z m'" by auto
  obtain u where u: "(\<lambda>a b. main_step M a b \<and> \<not> moves a b)\<^sup>*\<^sup>* z u" "main_step M u m'" "moves u m'"
    using z(2) by (auto simp: main_turn_def)
  have inv: "main_inv M z \<and> main_fits M z" "k + main_weight M z \<le> main_weight M m" using Suc.IH [OF z(1)] by simp_all
  from quiet_steps [OF u(1) inv(1) assms(1)] main_step_inv [of M u m'] main_step_weight [of M u m'] u assms(1) inv(2)
  show ?case by auto
qed



end
