(* ===== verification/Spec2Isabelle.thy ===== *)
theory Spec2Isabelle
  imports LRU_Cache Singleflight Consistent_Hash CCache_Group CCache_Concurrent CCache_HTTP
    SORM_Clause SORM_Schema SORM_Session SORM_Engine
    RPC_Registry RPC_Discovery RPC_Codec RPC_Client RPC_Service RPC_Server RPC_Dial RPC_XClient RPC_Methods RPC_System RPC_Returns SORM_Logger
    Demo_CCache Demo_SORM Demo_RPC Demo_Main Demo_Ends
begin

text \<open>
  This development models the three small frameworks of the repository and the program that
  uses them: CCache, a distributed cache; SORM, an object-relational mapper; SuRPC, remote
  procedure calls with a registry; and \<^verbatim>\<open>main.go\<close>. The sources are Go; every definition that
  models code has its name from the source where the name was free.

  \<^bold>\<open>The program and the theories.\<close>

  \<^item> \<open>Go_Prelude\<close>: outcomes of Go calls (a value, a panic, the end of the process, no return),
    the functions of \<^verbatim>\<open>strings\<close> and \<^verbatim>\<open>strconv\<close> the sources use, stateful code, and the
    reachable states of interleaved goroutines with the locales \<open>inductive_invariant\<close> and
    \<open>contains_component\<close>, for systems that have such a component in them.
    \<open>Go_HTTP\<close>: response writers and the registration of handlers.

  \<^item> CCache. \<open>LRU_Cache\<close> (\<^verbatim>\<open>CCache/lru\<close>): the linked list and map of the cache refine a list of
    pairs; eviction, limits and the callback; the locale \<open>bounded_cache\<close>. \<open>Singleflight\<close>
    (\<^verbatim>\<open>CCache/singleflight\<close>): the callers of \<^verbatim>\<open>Do\<close> as a step relation. \<open>Consistent_Hash\<close>
    (\<^verbatim>\<open>CCache/consistenthash\<close>): the ring; the locale \<open>peer_ring\<close>. \<open>CCache_Group\<close>
    (\<^verbatim>\<open>byteview.go\<close>, \<^verbatim>\<open>cache.go\<close>, \<^verbatim>\<open>peers.go\<close>, \<^verbatim>\<open>ccache.go\<close>): slices with their aliasing, the
    guarded cache, which is a second \<open>bounded_cache\<close>, and groups that load a missing key once,
    from a peer or from their getter, for one goroutine. \<open>CCache_Concurrent\<close> has \<^verbatim>\<open>Get\<close> for any
    number of goroutines, as the steps of \<open>Singleflight\<close> with those of the function that loads
    a key; the calls of one goroutine are among its runs (\<open>Get_alone\<close>). \<open>CCache_HTTP\<close> (\<^verbatim>\<open>http.go\<close>): the pool of peers, which
    asks the ring, its getters and its handler.

  \<^item> SORM. \<open>SORM_Logger\<close> (\<^verbatim>\<open>logger\<close>), \<open>SORM_Clause\<close> (\<^verbatim>\<open>clause\<close>: the generators of SQL and the
    clause under construction), \<open>SORM_Schema\<close> (\<^verbatim>\<open>dialect\<close>, \<^verbatim>\<open>schema\<close>; the locale
    \<open>sound_dialector\<close>), \<open>SORM_Session\<close> (\<^verbatim>\<open>session\<close>: every method of a session as stateful code
    over the session and the database; the locale \<open>clean_operation\<close>), \<open>SORM_Engine\<close>
    (\<^verbatim>\<open>sorm.go\<close>: transactions and migration).

  \<^item> SuRPC. \<open>RPC_Codec\<close> (\<^verbatim>\<open>codec\<close>; the locale \<open>frame_writer\<close>), \<open>RPC_Client\<close> (\<^verbatim>\<open>client.go\<close>: calls,
    the goroutine \<^verbatim>\<open>receive\<close>, cancellation), \<open>RPC_Service\<close> (\<^verbatim>\<open>service.go\<close> and the table of
    services), \<open>RPC_Server\<close> (\<^verbatim>\<open>server.go\<close>, \<^verbatim>\<open>debug.go\<close>: the loop, the handlers and the responses of
    a connection), \<open>RPC_Dial\<close> (the second half of \<^verbatim>\<open>client.go\<close>: options and dialling),
    \<open>RPC_Registry\<close> (\<^verbatim>\<open>registry\<close>), \<open>RPC_Discovery\<close> and \<open>RPC_XClient\<close> (\<^verbatim>\<open>xclient\<close>; the locale
    \<open>discovery\<close>, in which the client's lemmas are proved), \<open>RPC_Methods\<close> (runs of the server in
    which its methods answer). \<open>RPC_System\<close> puts a client and a server on the two ends of a
    connection: its step relation \<open>sys_step\<close> has the steps of both, the server's input is what the
    client has written, and the client reads the server's output; \<open>RPC_Returns\<close> has the liveness of
    this system.

  \<^item> \<^verbatim>\<open>main.go\<close>: \<open>Demo_CCache\<close> (a node with its front-end), \<open>Demo_SORM\<close>, \<open>Demo_RPC\<close> (the service \<^verbatim>\<open>Foo\<close>, its
    servers and the calls, with a client and a server of the demo on one connection),
    \<open>Demo_Main\<close> (the function \<^verbatim>\<open>main\<close>: the step relation \<open>main_step\<close> has the registry, the
    heartbeats of the servers, and the goroutines of \<^verbatim>\<open>call\<close> and \<^verbatim>\<open>broadcast\<close>, which share a
    discovery and an \<^verbatim>\<open>XClient\<close>; what a remote call returns is taken from the runs of
    \<open>RPC_System\<close>) and \<open>Demo_Ends\<close> (that it comes to its end). This theory joins what a client
    has written to what a server makes of it later.

  \<^bold>\<open>State.\<close> A struct is a record with the fields of the struct. Shared objects that are
  mutated through pointers have addresses: the nodes of the LRU list, arrays of bytes, calls of
  the client, clients of the \<^verbatim>\<open>XClient\<close>. Concurrent code is a step relation with one step for
  each critical section (\<open>sf_act\<close>, \<open>cn_act\<close>, \<open>call_step\<close>, \<open>receive_step\<close>, \<open>loop_step\<close>, \<open>handle_step\<close>,
  \<open>send_step\<close>, \<open>xc_step\<close>, \<open>go_step\<close>); mutexes that are held over several of them, channels and wait groups
  are part of the state, and the results of foreign code are chosen by the environment. Code whose
  methods hold a lock from start to end is a function of the state.

  \<^bold>\<open>What is shown.\<close> For each component: an invariant that all operations keep
  (\<open>lru_wf\<close>, \<open>ring_wf\<close>, \<open>sf_inv\<close>, \<open>cl_inv\<close>, \<open>sv_inv\<close>, \<open>xc_inv\<close>, \<open>server_ok\<close>), what each operation
  computes on every branch, and the contracts between components: the cache refines its
  specification and evicts no more than needed; one function runs per key and its callers agree, so that a key is loaded once
  however many goroutines ask for it;
  the ring finds the successor of a hash; the session sends exactly the statement it was asked
  for, with its variables in the order of the placeholders; a transaction commits or rolls back
  once; a client matches responses to calls and leaves no caller waiting after a connection
  error; a server answers every request once and its runs are finite; and of client and server
  together, that a call which returned without an error has the result of its own method, and
  that every call returns. Of the whole demo it is shown what it prints and that it ends. Several theorems state where the code falls short of its purpose, for
  example \<open>group_Get_over_http\<close>, \<open>http_handshake_fails\<close>, \<open>requests_read\<close>, \<open>sf_panic_poisons_key\<close>,
  \<open>discovered_broadcast_fails\<close>, \<open>demo_main_prints\<close> and \<open>demo_node_serves\<close>.

  \<^bold>\<open>Bounds.\<close> Byte counts of the cache are 64-bit words that wrap around; \<open>sizes_ok\<close> says that they
  do not. The eviction loop never ends for a negative limit, so \<open>lru_evict\<close> is a partial
  function and its return is proved for limits that are not negative. Sequence numbers are
  64-bit words; the client's invariant holds as long as fewer than \<open>2 ^ 64 - 1\<close> calls were
  registered (\<open>few_calls\<close>). A run of the server on \<open>n\<close> encoded values has at most \<open>20 * n + 4\<close> steps,
  a run of client and server without new calls at most \<open>sys_weight\<close> of its first state, and the
  demo at most \<open>main_weight\<close>.
  The loop of heartbeats runs for a given number of ticks, and every statement holds for all of
  them. No other definition has fuel.

  \<^bold>\<open>Parameters.\<close> What is not in the repository is an argument of the definitions that use it:
  the getter and the eviction callback of a cache, \<^verbatim>\<open>proto.Marshal\<close> and \<^verbatim>\<open>proto.Unmarshal\<close>, the
  network, the clock, random numbers, the order in which a map is visited, \<^verbatim>\<open>database/sql\<close> with its
  driver, the hooks of user types, the encoding of one value by \<^verbatim>\<open>encoding/gob\<close> and the methods of
  registered services. Of the standard library, \<^verbatim>\<open>sort.Search\<close>, \<^verbatim>\<open>sort.Ints\<close>, \<^verbatim>\<open>container/list\<close>,
  \<^verbatim>\<open>hash/crc32\<close>, the escaping of URLs and query strings, \<^verbatim>\<open>http.ReadResponse\<close> and response
  writers are modelled; what \<^verbatim>\<open>reflect\<close> shows of types is a datatype.

  \<^bold>\<open>Not modelled.\<close> \<^verbatim>\<open>ccachepb.pb.go\<close> is generated; its messages appear as records. Logging is left
  out except for the package \<^verbatim>\<open>logger\<close> and for \<^verbatim>\<open>log.Fatal\<close>, which ends the process; the HTML
  template of the debug page is a parameter. The wrappers of methods of \<^verbatim>\<open>DefaultServer\<close> only
  call those methods. Methods of services that panic, and data races, where the sources
  access shared state without a lock, have no model; findings name such accesses. Of \<^verbatim>\<open>main.go\<close> the parsing of the
  command line and the pauses of \<^verbatim>\<open>main\<close> are left out.
\<close>

section \<open>A remote call from end to end\<close>

text \<open>
  The client of \<^verbatim>\<open>SuRPC/client.go\<close> and the server of \<^verbatim>\<open>SuRPC/server.go\<close> together: the server
  reads what the client wrote, each of them in any interleaving of its goroutines.
\<close>

text \<open>
  Let a client have written some requests and a server serve a connection that delivers
  them. Every response the server sends for a request carries the number and the method of
  exactly one call registered by the client, the arguments handled were decoded from that
  call's arguments, and when the client receives the response it either completes that very call
  or, if the call was given up, drops it.
\<close>

theorem rpc_end_to_end:
  assumes "reach cl_init cl_step c" and "few_calls c"
    and "(sv_step s dec (\<lambda>_. None) timeout dur ^^ k) (sv_start (frames (cl_wire c))) n"
    and "i < length (sn_reqs n)" and "(h, b) \<in> set (responses n (Some i))"
  shows "\<exists>j x t. j \<in> set (cl_regs c) \<and> cl_calls c j = Some x \<and> rc_Seq x = h_Seq h \<and>
    rc_ServiceMethod x = h_ServiceMethod h \<and> dec t (rc_Args x) = Inr (rq_argv (sn_reqs n ! i)) \<and>
    (\<forall>j' x'. j' \<in> set (cl_regs c) \<and> cl_calls c j' = Some x' \<and> rc_Seq x' = h_Seq h \<longrightarrow> j' = j) \<and>
    fst (removeCall (h_Seq h) c) \<in> {None, Some j}"
proof -
  obtain j x t where j: "j \<in> set (cl_regs c)" "cl_calls c j = Some x" "rc_Seq x = h_Seq (rq_h (sn_reqs n ! i))"
      "rc_ServiceMethod x = h_ServiceMethod (rq_h (sn_reqs n ! i))" "dec t (rc_Args x) = Inr (rq_argv (sn_reqs n ! i))"
    using call_of_request [OF assms(1-4)] by blast
  note hd = response_header [OF handled_origin(1) [OF assms(3,4)] assms(4,5)]
  have uniq: "j' = j" if "j' \<in> set (cl_regs c)" "cl_calls c j' = Some x'" "rc_Seq x' = h_Seq h" for j' x'
    using call_unique(1) [OF assms(1,2) j(1,2) that(1,2)] that(3) j(3) hd by simp
  have "fst (removeCall (h_Seq h) c) \<in> {None, Some j}"
    using call_unique(2) [OF assms(1,2) j(1,2)] j(3) hd by simp
  moreover have "rc_Seq x = h_Seq h" "rc_ServiceMethod x = h_ServiceMethod h" using j(3,4) hd by simp_all
  ultimately show ?thesis using j(1,2,5) uniq by blast
qed

theorem rpc_end_to_end_witness:
  "\<exists>j x. j \<in> set (cl_regs demo_sent) \<and> cl_calls demo_sent j = Some x \<and> rc_Seq x = h_Seq sum_header"
proof -
  have same: "demo_header = sum_header" by (simp add: demo_header_def sum_header_def)
  have wire: "cl_wire demo_sent = [(sum_header, 7)]" by (simp add: demo_sent_def same)
  have few: "few_calls demo_sent" by (simp add: few_calls_def demo_sent_def)
  have run: "(foo_step ^^ 9) (sv_start (frames (cl_wire demo_sent))) sum_served"
    using sum_run unfolding wire .
  have "0 < length (sn_reqs sum_served)" "(sum_header, Some 42) \<in> set (responses sum_served (Some 0))"
    by (simp_all add: sum_served_defs sum_request_def responses_def)
  from rpc_end_to_end [OF demo_sent_reach few run this] show ?thesis by blast
qed

end
